(* ===== verification/Runtime_Prelude.thy ===== *)
theory Runtime_Prelude
  imports Main "HOL-Library.Word" "HOL-Library.Signed_Division"
begin

text \<open>
  Shared vocabulary of the development.

  \<^item> Machine integers: \<open>u8\<close>, \<open>u16\<close>, \<open>u32\<close>, \<open>u64\<close> are the C++ fixed-width unsigned types
    (arithmetic wraps); a C++ \<open>int\<close> is an \<open>int\<close>; a pointer is a \<open>u64\<close> with \<open>0\<close> for
    \<open>nullptr\<close>.
  \<^item> Failures: every \<open>throw\<close>, \<open>assert\<close>, \<open>exit\<close> and every access the C++ standard leaves
    undefined (an out-of-range index, \<open>front\<close> of an empty queue, a division by zero) is a value of
    \<open>error\<close>; an operation that can fail returns \<open>error + 'a\<close> and \<open>rbind\<close> sequences two of them.
  \<^item> Containers: \<open>std::queue\<close> is a list with its front at the head; a table of queues
    (\<open>std::map\<close> or \<open>std::unordered_map\<close> to a queue) is a partial map to lists.
  \<^item> Contracts: the locale \<open>step_machine\<close> lifts a one-step invariant to runs, the locale
    \<open>keyed_fifo\<close> is the contract of a table of queues and gives the first-in first-out theorem for
    every interleaving of its operations.
\<close>

section \<open>Types\<close>

type_synonym u8 = "8 word"
type_synonym u16 = "16 word"
type_synonym u32 = "32 word"
type_synonym u64 = "64 word"

datatype error =
    Std_exception          \<comment> \<open>\<open>throw std::exception()\<close>\<close>
  | Assert_failed          \<comment> \<open>\<open>assert\<close>\<close>
  | Exit int               \<comment> \<open>\<open>exit(rc)\<close>\<close>
  | Out_of_range           \<comment> \<open>an index outside its array or vector: undefined behaviour\<close>
  | Empty_queue            \<comment> \<open>\<open>front\<close> or \<open>pop\<close> of an empty queue: undefined behaviour\<close>
  | Div_by_zero            \<comment> \<open>integer division or remainder by zero: undefined behaviour\<close>
  | Null_pointer           \<comment> \<open>use of a null or disengaged object: undefined behaviour\<close>
  | Blocked                \<comment> \<open>\<open>pthread_mutex_lock\<close> of a mutex nobody will release\<close>
  | No_value               \<comment> \<open>a function that ends without its \<open>return\<close>: undefined behaviour\<close>
  | Diverges               \<comment> \<open>a loop bound of the model was exhausted\<close>

type_synonym 'a res = "error + 'a"

section \<open>Sequencing of fallible operations\<close>

fun rbind :: "'a res \<Rightarrow> ('a \<Rightarrow> 'b res) \<Rightarrow> 'b res" where
  "rbind (Inl e) f = Inl e"
| "rbind (Inr x) f = f x"

fun is_ok :: "'a res \<Rightarrow> bool" where
  "is_ok (Inl e) = False"
| "is_ok (Inr x) = True"

definition nth_res :: "'a list \<Rightarrow> int \<Rightarrow> 'a res" where
  "nth_res xs i = (if 0 \<le> i \<and> i < int (length xs) then Inr (xs ! nat i) else Inl Out_of_range)"

definition upd_res :: "'a list \<Rightarrow> int \<Rightarrow> 'a \<Rightarrow> 'a list res" where
  "upd_res xs i v = (if 0 \<le> i \<and> i < int (length xs) then Inr (xs[nat i := v]) else Inl Out_of_range)"

fun q_front :: "'a list \<Rightarrow> 'a res" where
  "q_front [] = Inl Empty_queue"
| "q_front (x # xs) = Inr x"

definition q_push :: "'a list \<Rightarrow> 'a \<Rightarrow> 'a list" where
  "q_push q x = q @ [x]"

fun q_pop :: "'a list \<Rightarrow> 'a list res" where
  "q_pop [] = Inl Empty_queue"
| "q_pop (x # xs) = Inr xs"

text \<open>\<open>pthread_mutex_lock\<close>: operations are atomic in the model, so a mutex seen locked at the start of
  one has been left locked by a thread that is gone.\<close>

definition mutex_lock :: "bool \<Rightarrow> bool res" where
  "mutex_lock locked = (if locked then Inl Blocked else Inr True)"

text \<open>\<open>mmap\<close> reports a failure as \<open>MAP_FAILED\<close>, the pointer with all bits set.\<close>

definition MAP_FAILED :: u64 where
  "MAP_FAILED = - 1"

named_theorems res_simps \<open>evaluation of fallible operations\<close>
named_theorems model_defs \<open>unfolding of the model's operations\<close>

lemma rbind_eq_Inr [res_simps]: "rbind m f = Inr y \<longleftrightarrow> (\<exists>x. m = Inr x \<and> f x = Inr y)"
  by (cases m) auto

lemma rbind_eq_Inl [res_simps]:
  "rbind m f = Inl e \<longleftrightarrow> m = Inl e \<or> (\<exists>x. m = Inr x \<and> f x = Inl e)"
  by (cases m) auto

lemma rbind_assoc: "rbind (rbind m f) g = rbind m (\<lambda>x. rbind (f x) g)"
  by (cases m) auto

lemma is_ok_iff [res_simps]: "is_ok m \<longleftrightarrow> (\<exists>x. m = Inr x)"
  by (cases m) auto

lemma nth_res_Inr [res_simps]:
  "nth_res xs i = Inr x \<longleftrightarrow> 0 \<le> i \<and> i < int (length xs) \<and> x = xs ! nat i"
  by (auto simp: nth_res_def)

lemma nth_res_int: "k < length xs \<Longrightarrow> nth_res xs (int k) = Inr (xs ! k)"
  by (simp add: nth_res_def)

lemma upd_res_Inr [res_simps]:
  "upd_res xs i v = Inr ys \<longleftrightarrow> 0 \<le> i \<and> i < int (length xs) \<and> ys = xs[nat i := v]"
  by (auto simp: upd_res_def)

lemma mutex_lock_Inr [res_simps]: "mutex_lock b = Inr c \<longleftrightarrow> \<not> b \<and> c"
  by (auto simp: mutex_lock_def)

lemma q_front_Inr [res_simps]: "q_front q = Inr x \<longleftrightarrow> (\<exists>xs. q = x # xs)"
  by (cases q) auto

lemma q_pop_Inr [res_simps]: "q_pop q = Inr xs \<longleftrightarrow> (\<exists>x. q = x # xs)"
  by (cases q) auto

lemma take_upd_next: "n < length xs \<Longrightarrow> take (Suc n) (xs[n := x]) = take n xs @ [x]"
  by (simp add: take_Suc_conv_app_nth)

section \<open>Byte-addressed memory\<close>

text \<open>Host memory is a function from addresses to bytes. A block operation wraps at the top of the address
  space as pointer arithmetic on \<open>u64\<close> does.\<close>

type_synonym bytes = "u64 \<Rightarrow> u8"

definition mem_read :: "bytes \<Rightarrow> u64 \<Rightarrow> nat \<Rightarrow> u8 list" where
  "mem_read mem a n = map (\<lambda>i. mem (a + of_nat i)) [0..<n]"

definition mem_write :: "bytes \<Rightarrow> u64 \<Rightarrow> u8 list \<Rightarrow> bytes" where
  "mem_write mem a bs = (\<lambda>x. if unat (x - a) < length bs then bs ! unat (x - a) else mem x)"

lemma unat64_less: "unat (w :: u64) < 2 ^ 64"
  using unsigned_less [of w, where 'a = nat] by simp

lemma length_mem_read [simp]: "length (mem_read mem a n) = n"
  by (simp add: mem_read_def)

lemma nth_mem_read [simp]: "i < n \<Longrightarrow> mem_read mem a n ! i = mem (a + of_nat i)"
  by (simp add: mem_read_def)

lemma mem_write_Nil [simp]: "mem_write mem a [] = mem"
  by (simp add: mem_write_def)

lemma mem_write_in: "i < length bs \<Longrightarrow> length bs \<le> 2 ^ 64 \<Longrightarrow> mem_write mem a bs (a + of_nat i) = bs ! i"
  by (simp add: mem_write_def unat_of_nat)

lemma mem_read_write: "length bs \<le> 2 ^ 64 \<Longrightarrow> mem_read (mem_write mem a bs) a (length bs) = bs"
  by (rule nth_equalityI) (simp_all add: mem_write_in)

lemma mem_write_read: "n \<le> 2 ^ 64 \<Longrightarrow> mem_write mem a (mem_read mem a n) = mem"
  by (rule ext) (simp add: mem_write_def)

lemma mem_read_append: "mem_read mem a (m + n) = mem_read mem a m @ mem_read mem (a + of_nat m) n"
  by (rule nth_equalityI) (auto simp: nth_append algebra_simps)

lemma unat_sub_after:
  fixes x a :: u64
  assumes "n < 2 ^ 64"
  shows "unat (x - (a + of_nat n)) = (if n \<le> unat (x - a) then unat (x - a) - n else 2 ^ 64 + unat (x - a) - n)"
proof -
  have u: "unat (of_nat n :: u64) = n" using assms by (simp add: unat_of_nat)
  define y where "y = x - a"
  have "unat (y - of_nat n) = (if n \<le> unat y then unat y - n else 2 ^ 64 + unat y - n)"
    using u by (simp add: unat_sub_if') arith
  moreover have "x - (a + of_nat n) = y - of_nat n" by (simp add: y_def)
  ultimately show ?thesis by (simp only: y_def)
qed

lemma unat_offset: "n < 2 ^ 64 \<Longrightarrow> unat (x - a :: u64) = n \<longleftrightarrow> x = a + of_nat n"
proof
  assume "unat (x - a) = n"
  then have "of_nat n = x - a" by (auto simp: of_nat_unat)
  then show "x = a + of_nat n" by simp
next
  assume "n < 2 ^ 64" and "x = a + of_nat n"
  then show "unat (x - a) = n" by (simp add: unat_of_nat)
qed

lemma mem_write_append:
  assumes "length xs + length ys \<le> 2 ^ 64" and "length xs < 2 ^ 64"
  shows "mem_write (mem_write mem a xs) (a + of_nat (length xs)) ys = mem_write mem a (xs @ ys)"
proof (rule ext)
  fix x
  have "unat (x - a) < 2 ^ 64" by (rule unat64_less)
  with assms show "mem_write (mem_write mem a xs) (a + of_nat (length xs)) ys x = mem_write mem a (xs @ ys) x"
    using unat_sub_after [OF assms(2), of x a] by (auto simp: mem_write_def nth_append)
qed

section \<open>Invariants along runs\<close>

text \<open>
  A component that reacts to one input at a time: \<open>step\<close> may fail, \<open>ok i s\<close> is what the component
  relies on about its input in state \<open>s\<close>.
\<close>

fun run :: "('i \<Rightarrow> 's \<Rightarrow> 's) \<Rightarrow> 'i list \<Rightarrow> 's \<Rightarrow> 's" where
  "run step [] s = s"
| "run step (i # is) s = run step is (step i s)"

fun ok_run :: "('i \<Rightarrow> 's \<Rightarrow> 's) \<Rightarrow> ('i \<Rightarrow> 's \<Rightarrow> bool) \<Rightarrow> 'i list \<Rightarrow> 's \<Rightarrow> bool" where
  "ok_run step ok [] s = True"
| "ok_run step ok (i # is) s = (ok i s \<and> ok_run step ok is (step i s))"

lemma run_append: "run step (xs @ ys) s = run step ys (run step xs s)"
  by (induction xs arbitrary: s) auto

locale step_machine =
  fixes step :: "'i \<Rightarrow> 's \<Rightarrow> 's"
    and ok :: "'i \<Rightarrow> 's \<Rightarrow> bool"
    and inv :: "'s \<Rightarrow> bool"
  assumes inv_step: "inv s \<Longrightarrow> ok i s \<Longrightarrow> inv (step i s)"
begin

lemma inv_run: "inv s \<Longrightarrow> ok_run step ok is s \<Longrightarrow> inv (run step is s)"
  by (induction "is" arbitrary: s) (auto intro: inv_step)

lemma inv_prefix:
  assumes "inv s" and "ok_run step ok (xs @ ys) s"
  shows "inv (run step xs s)"
  using assms by (induction xs arbitrary: s) (auto intro: inv_step)

end

section \<open>Tables of queues\<close>

datatype ('k, 'v) kq_event = KPush 'k 'v | KPop 'k

fun kq_pushed :: "'k \<Rightarrow> ('k, 'v) kq_event list \<Rightarrow> 'v list" where
  "kq_pushed k [] = []"
| "kq_pushed k (KPush k' v # es) = (if k' = k then v # kq_pushed k es else kq_pushed k es)"
| "kq_pushed k (KPop k' # es) = kq_pushed k es"

fun kq_popped :: "'k \<Rightarrow> ('k \<times> 'v) list \<Rightarrow> 'v list" where
  "kq_popped k [] = []"
| "kq_popped k ((k', v) # os) = (if k' = k then v # kq_popped k os else kq_popped k os)"

text \<open>
  A run of pushes and pops over any table; \<open>front\<close> is read before every pop, and the values read are
  collected. A pop of an empty queue ends the run with an error.
\<close>

fun kq_run :: "('k \<Rightarrow> 'v \<Rightarrow> 'm \<Rightarrow> 'm) \<Rightarrow> ('k \<Rightarrow> 'm \<Rightarrow> ('v \<times> 'm) res)
    \<Rightarrow> ('k, 'v) kq_event list \<Rightarrow> 'm \<Rightarrow> (('k \<times> 'v) list \<times> 'm) res" where
  "kq_run push take_front [] m = Inr ([], m)"
| "kq_run push take_front (KPush k v # es) m = kq_run push take_front es (push k v m)"
| "kq_run push take_front (KPop k # es) m =
     rbind (take_front k m) (\<lambda>(v, m').
     rbind (kq_run push take_front es m') (\<lambda>(os, m''). Inr ((k, v) # os, m'')))"

fun kq_enabled :: "('k \<Rightarrow> nat) \<Rightarrow> ('k, 'v) kq_event list \<Rightarrow> bool" where
  "kq_enabled c [] = True"
| "kq_enabled c (KPush k v # es) = kq_enabled (c(k := Suc (c k))) es"
| "kq_enabled c (KPop k # es) = (0 < c k \<and> kq_enabled (c(k := c k - 1)) es)"

locale keyed_fifo =
  fixes push :: "'k \<Rightarrow> 'v \<Rightarrow> 'm \<Rightarrow> 'm"
    and take_front :: "'k \<Rightarrow> 'm \<Rightarrow> ('v \<times> 'm) res"
    and contents :: "'m \<Rightarrow> 'k \<Rightarrow> 'v list"
  assumes contents_push: "contents (push k v m) = (contents m)(k := contents m k @ [v])"
    and take_front_Cons: "contents m k = v # vs \<Longrightarrow>
          \<exists>m'. take_front k m = Inr (v, m') \<and> contents m' = (contents m)(k := vs)"
    and take_front_Nil: "contents m k = [] \<Longrightarrow> \<exists>e. take_front k m = Inl e"
begin

lemma take_front_Inr:
  assumes "take_front k m = Inr (v, m')"
  shows "contents m k = v # contents m' k" and "k' \<noteq> k \<Longrightarrow> contents m' k' = contents m k'"
proof -
  have ne: "contents m k \<noteq> []" using assms take_front_Nil [of m k] by auto
  then obtain w vs where c: "contents m k = w # vs" by (cases "contents m k") auto
  from take_front_Cons [OF c] assms
  have "w = v" and "contents m' = (contents m)(k := vs)" by auto
  then show "contents m k = v # contents m' k" and "k' \<noteq> k \<Longrightarrow> contents m' k' = contents m k'"
    using c by auto
qed

lemma run_fifo:
  "kq_run push take_front es m = Inr (os, m') \<Longrightarrow>
     contents m k @ kq_pushed k es = kq_popped k os @ contents m' k"
proof (induction es arbitrary: m os m')
  case Nil
  then show ?case by simp
next
  case (Cons e es)
  show ?case
  proof (cases e)
    case (KPush k' v)
    with Cons.prems have "kq_run push take_front es (push k' v m) = Inr (os, m')" by simp
    from Cons.IH [OF this] show ?thesis
      by (auto simp: KPush contents_push split: if_splits)
  next
    case (KPop k')
    with Cons.prems obtain v m1 os' where f: "take_front k' m = Inr (v, m1)"
      and r: "kq_run push take_front es m1 = Inr (os', m')" and os: "os = (k', v) # os'"
      by (auto simp: res_simps)
    show ?thesis
      using Cons.IH [OF r] take_front_Inr [OF f] by (auto simp: KPop os)
  qed
qed

lemma run_succeeds_iff:
  "is_ok (kq_run push take_front es m) \<longleftrightarrow> kq_enabled (\<lambda>k. length (contents m k)) es"
proof (induction es arbitrary: m)
  case Nil
  then show ?case by simp
next
  case (Cons e es)
  show ?case
  proof (cases e)
    case (KPush k v)
    have "(\<lambda>j. length (contents (push k v m) j)) =
        (\<lambda>j. length (contents m j))(k := Suc (length (contents m k)))"
      by (auto simp: contents_push)
    with Cons.IH [of "push k v m"] show ?thesis by (simp add: KPush)
  next
    case (KPop k)
    show ?thesis
    proof (cases "contents m k")
      case Nil
      with take_front_Nil [of m k] show ?thesis by (auto simp: KPop)
    next
      case c: (Cons v vs)
      from take_front_Cons [OF c] obtain m1 where f: "take_front k m = Inr (v, m1)"
        and c1: "contents m1 = (contents m)(k := vs)" by auto
      have "(\<lambda>j. length (contents m1 j)) = (\<lambda>j. length (contents m j))(k := length vs)"
        by (auto simp: c1)
      moreover have "is_ok (kq_run push take_front (KPop k # es) m) =
          is_ok (kq_run push take_front es m1)"
        by (cases "kq_run push take_front es m1") (auto simp: f)
      ultimately show ?thesis using Cons.IH [of m1] by (simp add: KPop c)
    qed
  qed
qed

end

end
