(* ===== verification/Address_Translator.thy ===== *)
theory Address_Translator
  imports Runtime_Prelude
begin

text \<open>
  The table from accelerator addresses to host addresses (\<open>struct address_translator\<close> of
  include/data_server.h and src/data_server.cc). \<open>std::set<addr_pair>\<close> is the list of its elements
  in iteration order, ascending in \<open>fpga_addr\<close> with no two equal keys. All arithmetic is on
  64-bit words, so the bound test of \<open>translate\<close> wraps as it does in the code. Diagnostic
  printing and \<open>vpi_control(vpiFinish)\<close> are not part of the state.

  The locale \<open>address_space\<close> is what the clients of the table (the data server and the simulated
  memory controller) rely on; \<open>address_table\<close> adds the updates. Both are interpreted on the
  operations below.
\<close>

section \<open>Model\<close>

record addr_pair =
  ap_fpga_addr :: u64
  ap_mapping_length :: u64
  ap_cpu_addr :: u64

type_synonym mappings = "addr_pair list"

definition addr_pair_less :: "addr_pair \<Rightarrow> addr_pair \<Rightarrow> bool" where
  "addr_pair_less a b \<longleftrightarrow> ap_fpga_addr a < ap_fpga_addr b"

text \<open>\<open>std::set::emplace\<close>, \<open>find\<close> and \<open>erase\<close> under \<open>operator<\<close>: an equivalent element that is
  already present is kept and the new one is dropped.\<close>

fun set_emplace :: "addr_pair \<Rightarrow> mappings \<Rightarrow> mappings" where
  "set_emplace p [] = [p]"
| "set_emplace p (q # qs) =
     (if addr_pair_less p q then p # q # qs
      else if addr_pair_less q p then q # set_emplace p qs
      else q # qs)"

fun set_find :: "addr_pair \<Rightarrow> mappings \<Rightarrow> addr_pair option" where
  "set_find p [] = None"
| "set_find p (q # qs) =
     (if \<not> addr_pair_less p q \<and> \<not> addr_pair_less q p then Some q else set_find p qs)"

fun set_erase :: "addr_pair \<Rightarrow> mappings \<Rightarrow> mappings" where
  "set_erase p [] = []"
| "set_erase p (q # qs) =
     (if \<not> addr_pair_less p q \<and> \<not> addr_pair_less q p then qs else q # set_erase p qs)"

definition add_mapping :: "u64 \<Rightarrow> u64 \<Rightarrow> u64 \<Rightarrow> mappings \<Rightarrow> mappings" where
  "add_mapping fpga_addr mapping_length cpu_addr ms =
     set_emplace \<lparr>ap_fpga_addr = fpga_addr, ap_mapping_length = mapping_length,
                  ap_cpu_addr = cpu_addr\<rparr> ms"

definition remove_mapping :: "u64 \<Rightarrow> mappings \<Rightarrow> mappings res" where
  "remove_mapping fpga_addr ms =
     (let a = \<lparr>ap_fpga_addr = fpga_addr, ap_mapping_length = 0, ap_cpu_addr = 0\<rparr>
      in case set_find a ms of
           None \<Rightarrow> Inl Std_exception
         | Some it \<Rightarrow> Inr (set_erase it ms))"

fun get_mapping :: "mappings \<Rightarrow> u64 \<Rightarrow> (u64 \<times> u64) res" where
  "get_mapping [] fpga_addr = Inl Std_exception"
| "get_mapping (it # its) fpga_addr =
     (if ap_fpga_addr it = fpga_addr then Inr (ap_cpu_addr it, ap_mapping_length it)
      else get_mapping its fpga_addr)"

text \<open>The \<open>while\<close> loop of \<open>translate\<close>.\<close>

fun translate_find :: "mappings \<Rightarrow> u64 \<Rightarrow> addr_pair option" where
  "translate_find [] fp_addr = None"
| "translate_find (it # its) fp_addr =
     (if ap_fpga_addr it \<le> fp_addr \<and> ap_fpga_addr it + ap_mapping_length it > fp_addr then Some it
      else translate_find its fp_addr)"

text \<open>\<open>vpi\<close> is \<open>defined(SIM) && !defined(USE_VERILATOR)\<close>: those builds stop the simulator and return
  \<open>nullptr\<close> where the others throw.\<close>

definition translate :: "bool \<Rightarrow> mappings \<Rightarrow> u64 \<Rightarrow> u64 res" where
  "translate vpi ms fp_addr =
     (case translate_find ms fp_addr of
        None \<Rightarrow> if vpi then Inr 0 else Inl Std_exception
      | Some it \<Rightarrow>
          if ap_fpga_addr it + ap_mapping_length it \<le> fp_addr then Inl Std_exception
          else Inr (ap_cpu_addr it + (fp_addr - ap_fpga_addr it)))"

section \<open>Regions and well-formed tables\<close>

text \<open>The addresses a mapping covers, in exact arithmetic; \<open>no_wrap\<close>: its end is a 64-bit address.\<close>

definition covers :: "addr_pair \<Rightarrow> u64 \<Rightarrow> bool" where
  "covers p a \<longleftrightarrow> unat (ap_fpga_addr p) \<le> unat a
     \<and> unat a < unat (ap_fpga_addr p) + unat (ap_mapping_length p)"

definition no_wrap :: "addr_pair \<Rightarrow> bool" where
  "no_wrap p \<longleftrightarrow> 0 < ap_mapping_length p
     \<and> unat (ap_fpga_addr p) + unat (ap_mapping_length p) < 2 ^ 64"

definition precedes :: "addr_pair \<Rightarrow> addr_pair \<Rightarrow> bool" where
  "precedes p q \<longleftrightarrow>
     unat (ap_fpga_addr p) + unat (ap_mapping_length p) \<le> unat (ap_fpga_addr q)"

definition set_sorted :: "mappings \<Rightarrow> bool" where
  "set_sorted ms \<longleftrightarrow> sorted_wrt addr_pair_less ms"

definition wf_mappings :: "mappings \<Rightarrow> bool" where
  "wf_mappings ms \<longleftrightarrow> list_all no_wrap ms \<and> sorted_wrt precedes ms"

definition fits :: "addr_pair \<Rightarrow> mappings \<Rightarrow> bool" where
  "fits p ms \<longleftrightarrow> no_wrap p \<and> list_all (\<lambda>q. precedes p q \<or> precedes q p) ms"

definition mapping_region :: "addr_pair \<Rightarrow> u64 \<times> u64 \<times> u64" where
  "mapping_region p = (ap_fpga_addr p, ap_mapping_length p, ap_cpu_addr p)"

definition regions :: "mappings \<Rightarrow> (u64 \<times> u64 \<times> u64) set" where
  "regions ms = mapping_region ` set ms"

text \<open>The abstract table: base address to length and host address.\<close>

definition abs_table :: "mappings \<Rightarrow> (u64 \<rightharpoonup> u64 \<times> u64)" where
  "abs_table ms = map_of (map (\<lambda>p. (ap_fpga_addr p, (ap_cpu_addr p, ap_mapping_length p))) ms)"

lemmas mapping_defs = covers_def no_wrap_def precedes_def addr_pair_less_def

lemma addr_pair_less_trans: "addr_pair_less p q \<Longrightarrow> addr_pair_less q r \<Longrightarrow> addr_pair_less p r"
  by (simp add: addr_pair_less_def)

lemma precedes_less: "no_wrap p \<Longrightarrow> precedes p q \<Longrightarrow> addr_pair_less p q"
  by (simp add: mapping_defs word_less_nat_alt)

lemma wf_mappings_sorted: "wf_mappings ms \<Longrightarrow> set_sorted ms"
  unfolding wf_mappings_def set_sorted_def
  by (induction ms) (auto simp: list_all_iff intro: precedes_less)

lemma wf_mappings_Cons:
  "wf_mappings (p # ms) \<longleftrightarrow> no_wrap p \<and> (\<forall>q \<in> set ms. precedes p q) \<and> wf_mappings ms"
  by (auto simp: wf_mappings_def)

lemma wf_mappings_Nil [simp]: "wf_mappings []"
  by (simp add: wf_mappings_def)

lemma unat_end: "no_wrap p \<Longrightarrow>
  unat (ap_fpga_addr p + ap_mapping_length p) = unat (ap_fpga_addr p) + unat (ap_mapping_length p)"
  by (simp add: no_wrap_def unat_word_ariths)

text \<open>Where the end does not wrap, the code's test is exact coverage.\<close>

lemma test_iff_covers:
  assumes "no_wrap p"
  shows "ap_fpga_addr p \<le> a \<and> ap_fpga_addr p + ap_mapping_length p > a \<longleftrightarrow> covers p a"
  using unat_end [OF assms] by (simp add: covers_def word_le_nat_alt word_less_nat_alt)

lemma covers_unique:
  assumes "covers p a" and "covers q a"
  shows "\<not> precedes p q" and "\<not> precedes q p"
  using assms by (auto simp: mapping_defs)

lemma translate_find_covers:
  assumes "wf_mappings ms" and "p \<in> set ms" and "covers p a"
  shows "translate_find ms a = Some p"
  using assms
proof (induction ms)
  case Nil
  then show ?case by simp
next
  case (Cons q ms)
  from Cons.prems(1) have q: "no_wrap q" and before: "\<forall>r \<in> set ms. precedes q r" and ms: "wf_mappings ms"
    by (auto simp: wf_mappings_Cons)
  show ?case
  proof (cases "p = q")
    case True
    with Cons.prems(3) test_iff_covers [OF q, of a] show ?thesis by simp
  next
    case False
    with Cons.prems(2) have p: "p \<in> set ms" by simp
    with before have "precedes q p" by simp
    with covers_unique [OF Cons.prems(3), of q] have "\<not> covers q a" by blast
    with test_iff_covers [OF q, of a] Cons.IH [OF ms p Cons.prems(3)] show ?thesis by auto
  qed
qed

lemma translate_find_Some:
  "translate_find ms a = Some p \<Longrightarrow>
     p \<in> set ms \<and> ap_fpga_addr p \<le> a \<and> a < ap_fpga_addr p + ap_mapping_length p"
  by (induction ms) (auto split: if_splits)

lemma translate_find_None:
  assumes "wf_mappings ms"
  shows "translate_find ms a = None \<longleftrightarrow> (\<forall>p \<in> set ms. \<not> covers p a)"
  using assms
proof (induction ms)
  case Nil
  then show ?case by simp
next
  case (Cons q ms)
  then have q: "no_wrap q" and ms: "wf_mappings ms" by (auto simp: wf_mappings_Cons)
  show ?case using Cons.IH [OF ms] test_iff_covers [OF q, of a] by auto
qed

lemma translate_covers:
  assumes "wf_mappings ms" and "p \<in> set ms" and "covers p a"
  shows "translate vpi ms a = Inr (ap_cpu_addr p + (a - ap_fpga_addr p))"
proof -
  have f: "translate_find ms a = Some p" by (rule translate_find_covers [OF assms])
  from translate_find_Some [OF this]
  have "\<not> ap_fpga_addr p + ap_mapping_length p \<le> a" by auto
  with f show ?thesis by (simp add: translate_def)
qed

lemma translate_miss:
  assumes "wf_mappings ms" and "\<forall>p \<in> set ms. \<not> covers p a"
  shows "translate vpi ms a = (if vpi then Inr 0 else Inl Std_exception)"
  using translate_find_None [OF assms(1), of a] assms(2) by (simp add: translate_def)

section \<open>Updates\<close>

lemma set_set_emplace: "set (set_emplace p ms) \<subseteq> insert p (set ms)"
  by (induction ms) auto

lemma set_emplace_sorted: "set_sorted ms \<Longrightarrow> set_sorted (set_emplace p ms)"
  unfolding set_sorted_def
proof (induction ms)
  case (Cons q ms)
  then have gt: "\<forall>r \<in> set ms. addr_pair_less q r" and IH: "sorted_wrt addr_pair_less (set_emplace p ms)"
    by auto
  have "addr_pair_less q p \<Longrightarrow> \<forall>r \<in> set (set_emplace p ms). addr_pair_less q r"
    using gt set_set_emplace [of p ms] by auto
  moreover have "addr_pair_less p q \<Longrightarrow> \<forall>r \<in> set ms. addr_pair_less p r"
    using gt by (blast intro: addr_pair_less_trans)
  ultimately show ?case using Cons.prems IH by simp
qed simp

lemma less_precedes:
  "no_wrap q \<Longrightarrow> precedes p q \<or> precedes q p \<Longrightarrow> addr_pair_less p q \<Longrightarrow> precedes p q"
  by (auto simp: mapping_defs word_less_nat_alt)

lemma fits_Cons: "fits p (q # ms) \<longleftrightarrow> (precedes p q \<or> precedes q p) \<and> fits p ms"
  by (auto simp: fits_def)

lemma precedes_trans: "precedes p q \<Longrightarrow> precedes q r \<Longrightarrow> precedes p r"
  by (simp add: precedes_def)

lemma set_emplace_fits:
  assumes "wf_mappings ms" and "fits p ms"
  shows "wf_mappings (set_emplace p ms) \<and> set (set_emplace p ms) = insert p (set ms)"
  using assms
proof (induction ms)
  case Nil
  then show ?case by (simp add: wf_mappings_Cons fits_def)
next
  case (Cons q ms)
  from Cons.prems have q: "no_wrap q" and before: "\<forall>r \<in> set ms. precedes q r"
    and ms: "wf_mappings ms" and p: "no_wrap p" and pq: "precedes p q \<or> precedes q p"
    and fit: "fits p ms"
    by (auto simp: wf_mappings_Cons fits_Cons fits_def)
  note IH = Cons.IH [OF ms fit]
  from pq show ?case
  proof
    assume "precedes p q"
    with p q before ms show ?thesis
      by (auto simp: wf_mappings_Cons dest: precedes_less intro: precedes_trans)
  next
    assume qp: "precedes q p"
    with precedes_less [OF q this] have "\<not> addr_pair_less p q"
      by (auto simp: addr_pair_less_def)
    with precedes_less [OF q qp] qp q before IH show ?thesis
      by (auto simp: wf_mappings_Cons)
  qed
qed

lemma set_find_key: "set_find p ms = find (\<lambda>q. ap_fpga_addr q = ap_fpga_addr p) ms"
  by (induction ms) (auto simp: addr_pair_less_def)

lemma set_erase_key:
  "set_sorted ms \<Longrightarrow> set_erase p ms = filter (\<lambda>q. ap_fpga_addr q \<noteq> ap_fpga_addr p) ms"
proof (induction ms)
  case (Cons q ms)
  then have IH: "set_erase p ms = filter (\<lambda>q. ap_fpga_addr q \<noteq> ap_fpga_addr p) ms"
    and gt: "\<forall>r \<in> set ms. ap_fpga_addr q < ap_fpga_addr r"
    by (auto simp: set_sorted_def addr_pair_less_def)
  from gt have "ap_fpga_addr q = ap_fpga_addr p \<Longrightarrow>
      filter (\<lambda>q. ap_fpga_addr q \<noteq> ap_fpga_addr p) ms = ms"
    by (auto simp: filter_id_conv)
  with IH show ?case by (auto simp: addr_pair_less_def)
qed simp

lemma remove_mapping_eq:
  assumes "set_sorted ms"
  shows "remove_mapping a ms =
    (if a \<in> ap_fpga_addr ` set ms then Inr (filter (\<lambda>q. ap_fpga_addr q \<noteq> a) ms)
     else Inl Std_exception)"
proof (cases "find (\<lambda>q. ap_fpga_addr q = a) ms")
  case None
  then have "a \<notin> ap_fpga_addr ` set ms" by (auto simp: find_None_iff)
  with None show ?thesis by (simp add: remove_mapping_def set_find_key)
next
  case (Some q)
  then have "ap_fpga_addr q = a" and "a \<in> ap_fpga_addr ` set ms"
    by (auto simp: find_Some_iff)
  with Some show ?thesis
    by (simp add: remove_mapping_def set_find_key set_erase_key [OF assms])
qed

lemma wf_mappings_filter: "wf_mappings ms \<Longrightarrow> wf_mappings (filter P ms)"
  by (auto simp: wf_mappings_def list_all_iff sorted_wrt_filter)

lemma wf_key_inj: "wf_mappings ms \<Longrightarrow> inj_on ap_fpga_addr (set ms)"
proof (induction ms)
  case (Cons q ms)
  then have "inj_on ap_fpga_addr (set ms)" and "\<forall>r \<in> set ms. addr_pair_less q r"
    by (auto simp: wf_mappings_Cons intro: precedes_less)
  then show ?case by (auto simp: addr_pair_less_def)
qed simp

lemma get_mapping_abs: "get_mapping ms a =
    (case abs_table ms a of None \<Rightarrow> Inl Std_exception | Some v \<Rightarrow> Inr v)"
  by (induction ms) (auto simp: abs_table_def)

lemma dom_abs_table: "dom (abs_table ms) = ap_fpga_addr ` set ms"
  by (auto simp: abs_table_def dom_map_of_conv_image_fst image_image)

lemma abs_table_Cons: "abs_table (p # ms) =
    (abs_table ms)(ap_fpga_addr p \<mapsto> (ap_cpu_addr p, ap_mapping_length p))"
  by (simp add: abs_table_def)

lemma abs_table_emplace:
  assumes "set_sorted ms"
  shows "abs_table (set_emplace p ms) =
    (if ap_fpga_addr p \<in> dom (abs_table ms) then abs_table ms
     else (abs_table ms)(ap_fpga_addr p \<mapsto> (ap_cpu_addr p, ap_mapping_length p)))"
  using assms
proof (induction ms)
  case Nil
  then show ?case by (simp add: abs_table_def)
next
  case (Cons q ms)
  then have IH: "abs_table (set_emplace p ms) =
      (if ap_fpga_addr p \<in> dom (abs_table ms) then abs_table ms
       else (abs_table ms)(ap_fpga_addr p \<mapsto> (ap_cpu_addr p, ap_mapping_length p)))"
    and gt: "\<forall>r \<in> set ms. ap_fpga_addr q < ap_fpga_addr r"
    by (auto simp: set_sorted_def addr_pair_less_def)
  have new: "ap_fpga_addr p < ap_fpga_addr q \<Longrightarrow> ap_fpga_addr p \<notin> dom (abs_table (q # ms))"
    using gt by (auto simp: dom_abs_table)
  consider "ap_fpga_addr p < ap_fpga_addr q" | "ap_fpga_addr p = ap_fpga_addr q"
    | "ap_fpga_addr q < ap_fpga_addr p"
    by (rule linorder_cases)
  then show ?case
  proof cases
    case 1
    with new have "set_emplace p (q # ms) = p # q # ms" and "ap_fpga_addr p \<notin> dom (abs_table (q # ms))"
      by (auto simp: addr_pair_less_def)
    then show ?thesis by (simp only: abs_table_Cons if_False)
  next
    case 2
    then show ?thesis by (auto simp: addr_pair_less_def abs_table_Cons)
  next
    case 3
    then have e: "set_emplace p (q # ms) = q # set_emplace p ms" and ne: "ap_fpga_addr p \<noteq> ap_fpga_addr q"
      by (auto simp: addr_pair_less_def)
    show ?thesis
      unfolding e abs_table_Cons IH using ne by (auto simp: fun_eq_iff)
  qed
qed

lemma abs_table_remove:
  assumes "set_sorted ms"
  shows "abs_table (filter (\<lambda>q. ap_fpga_addr q \<noteq> a) ms) = (abs_table ms)(a := None)"
  by (induction ms) (auto simp: abs_table_def fun_eq_iff)

section \<open>The contract of the table\<close>

text \<open>
  \<open>address_space\<close>: what a reader of the table may rely on. A region is a triple of base address,
  length and host address; inside a region translation is an offset.
\<close>

locale address_space =
  fixes tr :: "'m \<Rightarrow> u64 \<Rightarrow> u64 res"
    and regs :: "'m \<Rightarrow> (u64 \<times> u64 \<times> u64) set"
    and inv :: "'m \<Rightarrow> bool"
  assumes region_no_wrap: "inv m \<Longrightarrow> (f, l, c) \<in> regs m \<Longrightarrow> unat f + unat l < 2 ^ 64"
    and tr_region: "inv m \<Longrightarrow> (f, l, c) \<in> regs m \<Longrightarrow> unat f \<le> unat a \<Longrightarrow>
          unat a < unat f + unat l \<Longrightarrow> tr m a = Inr (c + (a - f))"
begin

lemma unat_in_region:
  assumes "inv m" and "(f, l, c) \<in> regs m" and "unat a + i < unat f + unat l"
  shows "unat (a + of_nat i :: u64) = unat a + i"
proof -
  from region_no_wrap [OF assms(1,2)] assms(3) have lt: "unat a + i < 2 ^ 64" by simp
  then have "unat (of_nat i :: u64) = i" by (simp add: unat_of_nat)
  with lt show ?thesis by (simp add: unat_word_ariths)
qed

text \<open>A burst that stays inside one region is contiguous on the host side.\<close>

lemma tr_burst:
  assumes m: "inv m" "(f, l, c) \<in> regs m" and "unat f \<le> unat a" and "unat a + i < unat f + unat l"
  shows "tr m (a + of_nat i) = Inr (c + (a - f) + of_nat i)"
proof -
  have u: "unat (a + of_nat i) = unat a + i" by (rule unat_in_region [OF m assms(4)])
  have "tr m (a + of_nat i) = Inr (c + (a + of_nat i - f))"
    by (rule tr_region [OF m]) (use u assms(3,4) in simp_all)
  then show ?thesis by (simp add: algebra_simps)
qed

end

text \<open>\<open>address_table\<close>: the updates, for a base and length that do not meet any present region.\<close>

locale address_table = address_space tr regs inv
  for tr :: "'m \<Rightarrow> u64 \<Rightarrow> u64 res" and regs and inv +
  fixes add :: "u64 \<Rightarrow> u64 \<Rightarrow> u64 \<Rightarrow> 'm \<Rightarrow> 'm"
    and rem :: "u64 \<Rightarrow> 'm \<Rightarrow> 'm res"
    and fresh :: "u64 \<Rightarrow> u64 \<Rightarrow> 'm \<Rightarrow> bool"
  assumes inv_add: "inv m \<Longrightarrow> fresh f l m \<Longrightarrow> inv (add f l c m)"
    and regs_add: "inv m \<Longrightarrow> fresh f l m \<Longrightarrow> regs (add f l c m) = insert (f, l, c) (regs m)"
    and fresh_base: "inv m \<Longrightarrow> fresh f l m \<Longrightarrow> (f, l', c') \<notin> regs m"
    and rem_region: "inv m \<Longrightarrow> (f, l, c) \<in> regs m \<Longrightarrow>
          \<exists>m'. rem f m = Inr m' \<and> inv m' \<and> regs m' = regs m - {(f, l, c)}"
    and rem_missing: "inv m \<Longrightarrow> (\<And>l c. (f, l, c) \<notin> regs m) \<Longrightarrow> rem f m = Inl Std_exception"
begin

lemma tr_after_add:
  assumes "inv m" and "fresh f l m" and "unat f \<le> unat a" and "unat a < unat f + unat l"
  shows "tr (add f l c m) a = Inr (c + (a - f))"
  using assms by (intro tr_region [where l = l] inv_add) (auto simp: regs_add)

lemma tr_frame:
  assumes "inv m" and "fresh f l m" and "(f', l', c') \<in> regs m"
    and "unat f' \<le> unat a" and "unat a < unat f' + unat l'"
  shows "tr (add f l c m) a = tr m a"
proof -
  have "tr (add f l c m) a = Inr (c' + (a - f'))"
    using assms by (intro tr_region [where l = l'] inv_add) (auto simp: regs_add)
  moreover have "tr m a = Inr (c' + (a - f'))"
    using assms by (intro tr_region [where l = l'])
  ultimately show ?thesis by simp
qed

lemma add_rem:
  assumes "inv m" and "fresh f l m"
  obtains m' where "rem f (add f l c m) = Inr m'" and "inv m'" and "regs m' = regs m"
proof -
  have "inv (add f l c m)" and "(f, l, c) \<in> regs (add f l c m)"
    using assms by (auto simp: inv_add regs_add)
  from rem_region [OF this] obtain m' where "rem f (add f l c m) = Inr m'" "inv m'"
    and "regs m' = regs (add f l c m) - {(f, l, c)}" by auto
  moreover have "regs (add f l c m) - {(f, l, c)} = regs m"
    using assms fresh_base [OF assms, of l c] by (auto simp: regs_add)
  ultimately show ?thesis using that by simp
qed

lemma rem_twice:
  assumes m: "inv m" "(f, l, c) \<in> regs m" and uniq: "\<And>l' c'. (f, l', c') \<in> regs m \<Longrightarrow> l' = l \<and> c' = c"
    and "rem f m = Inr m'"
  shows "rem f m' = Inl Std_exception"
proof -
  from rem_region [OF m] assms(4) have "inv m'" and "regs m' = regs m - {(f, l, c)}" by auto
  with uniq show ?thesis by (intro rem_missing) auto
qed

end

definition base_fits :: "u64 \<Rightarrow> u64 \<Rightarrow> mappings \<Rightarrow> bool" where
  "base_fits f l ms \<longleftrightarrow>
     fits \<lparr>ap_fpga_addr = f, ap_mapping_length = l, ap_cpu_addr = 0\<rparr> ms"

lemma fits_cpu: "fits \<lparr>ap_fpga_addr = f, ap_mapping_length = l, ap_cpu_addr = c\<rparr> ms \<longleftrightarrow> base_fits f l ms"
  by (simp add: base_fits_def fits_def precedes_def no_wrap_def)

lemma region_iff: "(f, l, c) \<in> regions ms \<longleftrightarrow>
    \<lparr>ap_fpga_addr = f, ap_mapping_length = l, ap_cpu_addr = c\<rparr> \<in> set ms"
proof
  assume "(f, l, c) \<in> regions ms"
  then obtain p where "p \<in> set ms" and "mapping_region p = (f, l, c)"
    by (auto simp: regions_def)
  moreover from this(2) have "p = \<lparr>ap_fpga_addr = f, ap_mapping_length = l, ap_cpu_addr = c\<rparr>"
    by (cases p) (simp add: mapping_region_def)
  ultimately show "\<lparr>ap_fpga_addr = f, ap_mapping_length = l, ap_cpu_addr = c\<rparr> \<in> set ms" by simp
next
  assume "\<lparr>ap_fpga_addr = f, ap_mapping_length = l, ap_cpu_addr = c\<rparr> \<in> set ms"
  then have "mapping_region \<lparr>ap_fpga_addr = f, ap_mapping_length = l, ap_cpu_addr = c\<rparr> \<in> regions ms"
    unfolding regions_def by (rule imageI)
  then show "(f, l, c) \<in> regions ms" by (simp add: mapping_region_def)
qed

lemma region_of: "p \<in> set ms \<Longrightarrow> (ap_fpga_addr p, ap_mapping_length p, ap_cpu_addr p) \<in> regions ms"
  by (force simp: regions_def mapping_region_def)

lemma wf_no_wrap: "wf_mappings ms \<Longrightarrow> p \<in> set ms \<Longrightarrow> no_wrap p"
  by (simp add: wf_mappings_def list_all_iff)

lemma fits_new_base: "wf_mappings ms \<Longrightarrow> base_fits f l ms \<Longrightarrow> p \<in> set ms \<Longrightarrow> ap_fpga_addr p \<noteq> f"
  using wf_no_wrap [of ms p] by (auto simp: base_fits_def fits_def list_all_iff mapping_defs word_less_nat_alt)

interpretation at_space: address_space "translate vpi" regions wf_mappings for vpi
proof
  fix m f l c assume "wf_mappings m" and "(f, l, c) \<in> regions m"
  then show "unat f + unat l < 2 ^ 64" by (auto simp: region_iff no_wrap_def dest: wf_no_wrap)
next
  fix m f l c and a :: u64
  assume "wf_mappings m" and "(f, l, c) \<in> regions m" and "unat f \<le> unat a" and "unat a < unat f + unat l"
  then show "translate vpi m a = Inr (c + (a - f))"
    by (auto simp: region_iff covers_def dest: translate_covers [where a = a and vpi = vpi])
qed

interpretation at_table: address_table "translate vpi" regions wf_mappings
    add_mapping remove_mapping base_fits for vpi
proof
  fix m f l c assume wf: "wf_mappings m" and new: "base_fits f l m"
  let ?p = "\<lparr>ap_fpga_addr = f, ap_mapping_length = l, ap_cpu_addr = c\<rparr>"
  have "fits ?p m" using new by (simp add: fits_cpu)
  from set_emplace_fits [OF wf this]
  show "wf_mappings (add_mapping f l c m)"
    and "regions (add_mapping f l c m) = insert (f, l, c) (regions m)"
    by (auto simp: add_mapping_def regions_def mapping_region_def)
next
  fix m f l l' c' assume "wf_mappings m" and "base_fits f l m"
  then show "(f, l', c') \<notin> regions m" by (auto simp: region_iff dest: fits_new_base)
next
  fix m f l c assume wf: "wf_mappings m" and reg: "(f, l, c) \<in> regions m"
  let ?p = "\<lparr>ap_fpga_addr = f, ap_mapping_length = l, ap_cpu_addr = c\<rparr>"
  let ?m = "filter (\<lambda>q. ap_fpga_addr q \<noteq> f) m"
  have p: "?p \<in> set m" using reg by (simp add: region_iff)
  then have "ap_fpga_addr ?p \<in> ap_fpga_addr ` set m" by (rule imageI)
  then have "remove_mapping f m = Inr ?m"
    by (simp add: remove_mapping_eq [OF wf_mappings_sorted [OF wf]])
  moreover have key: "ap_fpga_addr q = f \<longleftrightarrow> q = ?p" if "q \<in> set m" for q
    using that p inj_onD [OF wf_key_inj [OF wf], of q ?p] by auto
  have sm: "set ?m = set m - {?p}" using key by (simp add: set_eq_iff) blast
  have "x \<in> regions ?m \<longleftrightarrow> x \<in> regions m - {(f, l, c)}" for x
    by (cases x) (simp only: region_iff sm Diff_iff singleton_iff prod.inject addr_pair.ext_inject simp_thms)
  then have "regions ?m = regions m - {(f, l, c)}" by (rule set_eqI)
  ultimately show "\<exists>m'. remove_mapping f m = Inr m' \<and> wf_mappings m' \<and> regions m' = regions m - {(f, l, c)}"
    using wf_mappings_filter [OF wf] by auto
next
  fix m f assume "wf_mappings m" and "\<And>l c. (f, l, c) \<notin> regions m"
  then show "remove_mapping f m = Inl Std_exception"
    by (fastforce simp: remove_mapping_eq [OF wf_mappings_sorted] regions_def mapping_region_def)
qed

lemma in_region_diff:
  fixes f l a :: u64
  assumes "f \<le> a" and "a < f + l"
  shows "a - f < l"
proof -
  have "unat (a - f) = unat a - unat f" using assms(1) by (simp add: unat_sub)
  moreover have "unat (f + l) \<le> unat f + unat l" by (simp add: unat_word_ariths)
  ultimately show ?thesis using assms by (simp add: word_le_nat_alt word_less_nat_alt)
qed

lemma emplace_filter:
  assumes "set_sorted ms" and "\<forall>q \<in> set ms. ap_fpga_addr q \<noteq> ap_fpga_addr p"
  shows "filter (\<lambda>q. ap_fpga_addr q \<noteq> ap_fpga_addr p) (set_emplace p ms) = ms"
  using assms
proof (induction ms)
  case (Cons q ms)
  then have "filter (\<lambda>q. ap_fpga_addr q \<noteq> ap_fpga_addr p) ms = ms"
    by (auto simp: filter_id_conv)
  with Cons show ?case by (auto simp: set_sorted_def addr_pair_less_def)
qed simp

lemma remove_add:
  assumes wf: "wf_mappings ms" and new: "base_fits f l ms"
  shows "remove_mapping f (add_mapping f l c ms) = Inr ms"
proof -
  let ?p = "\<lparr>ap_fpga_addr = f, ap_mapping_length = l, ap_cpu_addr = c\<rparr>"
  have so: "set_sorted (set_emplace ?p ms)"
    by (rule set_emplace_sorted [OF wf_mappings_sorted [OF wf]])
  have "fits ?p ms" using new by (simp add: fits_cpu)
  then have "?p \<in> set (set_emplace ?p ms)" using set_emplace_fits [OF wf, of ?p] by simp
  then have "ap_fpga_addr ?p \<in> ap_fpga_addr ` set (set_emplace ?p ms)" by (rule imageI)
  moreover have "filter (\<lambda>q. ap_fpga_addr q \<noteq> f) (set_emplace ?p ms) = ms"
    using emplace_filter [OF wf_mappings_sorted [OF wf], of ?p] fits_new_base [OF wf new] by simp
  ultimately show ?thesis
    by (simp add: remove_mapping_eq [OF so] add_mapping_def)
qed

section \<open>Properties\<close>

definition example_table :: mappings where
  "example_table =
     add_mapping 0x1000 0x100 0x70000 (add_mapping 0x4000 0x40 0x90000 [])"

lemma example_table_eq: "example_table =
    [\<lparr>ap_fpga_addr = 0x1000, ap_mapping_length = 0x100, ap_cpu_addr = 0x70000\<rparr>,
     \<lparr>ap_fpga_addr = 0x4000, ap_mapping_length = 0x40, ap_cpu_addr = 0x90000\<rparr>]"
  by (simp add: example_table_def add_mapping_def addr_pair_less_def)

lemma example_table_wf: "wf_mappings example_table"
  by (simp add: example_table_eq wf_mappings_def no_wrap_def precedes_def)

text \<open>C9: a burst that stays inside one mapping of a well-formed table is translated to a contiguous
  range of host memory: byte \<open>i\<close> of the burst goes to the translation of its first byte plus \<open>i\<close>.\<close>

theorem translate_burst:
  assumes "wf_mappings ms" and "p \<in> set ms" and "ap_fpga_addr p \<le> a"
    and "unat a + n \<le> unat (ap_fpga_addr p) + unat (ap_mapping_length p)" and "i < n"
  shows "translate vpi ms a = Inr (ap_cpu_addr p + (a - ap_fpga_addr p))
    \<and> translate vpi ms (a + of_nat i) = Inr (ap_cpu_addr p + (a - ap_fpga_addr p) + of_nat i)"
proof -
  have r: "(ap_fpga_addr p, ap_mapping_length p, ap_cpu_addr p) \<in> regions ms"
    using assms(2) by (rule region_of)
  have "translate vpi ms (a + of_nat 0) = Inr (ap_cpu_addr p + (a - ap_fpga_addr p) + of_nat 0)"
    by (rule at_space.tr_burst [OF assms(1) r]) (use assms in \<open>auto simp: word_le_nat_alt\<close>)
  moreover have "translate vpi ms (a + of_nat i) = Inr (ap_cpu_addr p + (a - ap_fpga_addr p) + of_nat i)"
    by (rule at_space.tr_burst [OF assms(1) r]) (use assms in \<open>auto simp: word_le_nat_alt\<close>)
  ultimately show ?thesis by simp
qed

theorem translate_burst_witness:
  "translate False example_table 0x1020 = Inr 0x70020
   \<and> translate False example_table (0x1020 + of_nat 5) = Inr 0x70025"
proof -
  let ?p = "\<lparr>ap_fpga_addr = 0x1000, ap_mapping_length = 0x100, ap_cpu_addr = 0x70000\<rparr>"
  have p: "?p \<in> set example_table" by (simp add: example_table_eq)
  show ?thesis
    using translate_burst [OF example_table_wf p, of "0x1020" 64 5 False] by simp
qed

text \<open>C11: whatever the table holds, also one with overlapping or wrapping entries, a translation that
  does not fail points inside some mapping: the offset added to the host address is below that
  mapping's length, so the second bound test of \<open>translate\<close> never rejects.\<close>

theorem translate_in_bounds:
  assumes "translate False ms a = Inr h"
  shows "\<exists>p. p \<in> set ms \<and> a - ap_fpga_addr p < ap_mapping_length p
    \<and> h = ap_cpu_addr p + (a - ap_fpga_addr p)"
proof -
  from assms obtain p where f: "translate_find ms a = Some p"
    and h: "h = ap_cpu_addr p + (a - ap_fpga_addr p)"
    by (auto simp: translate_def split: option.splits if_splits)
  from translate_find_Some [OF f] h show ?thesis by (blast intro: in_region_diff)
qed

theorem translate_in_bounds_witness:
  "\<exists>p. p \<in> set example_table \<and> 0x4010 - ap_fpga_addr p < ap_mapping_length p
    \<and> 0x90010 = ap_cpu_addr p + (0x4010 - ap_fpga_addr p)"
proof -
  have "translate False example_table 0x4010 = Inr 0x90010"
    by (simp add: translate_def example_table_eq)
  from translate_in_bounds [OF this] show ?thesis .
qed

text \<open>An address outside every mapping of a well-formed table is an error: an exception, or the
  null pointer in the builds that stop the simulator instead.\<close>

theorem translate_unmapped:
  assumes "wf_mappings ms" and "\<forall>p \<in> set ms. \<not> covers p a"
  shows "translate vpi ms a = (if vpi then Inr 0 else Inl Std_exception)"
  by (rule translate_miss [OF assms])

theorem translate_unmapped_witness:
  "translate False example_table 0x1100 = Inl Std_exception
   \<and> translate True example_table 0x1100 = Inr 0"
proof -
  have m: "\<forall>p \<in> set example_table. \<not> covers p 0x1100"
    by (simp add: example_table_eq covers_def)
  show ?thesis using translate_unmapped [OF example_table_wf m] by simp
qed

text \<open>C12: freeing undoes allocating. Adding a region that meets no present one makes its addresses
  translate to its host range and keeps every other translation; removing it gives back exactly the
  table of before, and removing it again throws.\<close>

theorem add_remove_roundtrip:
  assumes wf: "wf_mappings ms" and new: "base_fits f l ms"
  shows "remove_mapping f (add_mapping f l c ms) = Inr ms
    \<and> remove_mapping f ms = Inl Std_exception
    \<and> (\<forall>a. unat f \<le> unat a \<and> unat a < unat f + unat l
          \<longrightarrow> translate vpi (add_mapping f l c ms) a = Inr (c + (a - f)))
    \<and> (\<forall>p \<in> set ms. \<forall>a. covers p a \<longrightarrow> translate vpi (add_mapping f l c ms) a = translate vpi ms a)"
proof (intro conjI allI ballI impI)
  show "remove_mapping f (add_mapping f l c ms) = Inr ms" by (rule remove_add [OF wf new])
  show "remove_mapping f ms = Inl Std_exception"
    using at_table.fresh_base [OF wf new] by (rule at_table.rem_missing [OF wf])
  show "translate vpi (add_mapping f l c ms) a = Inr (c + (a - f))"
    if "unat f \<le> unat a \<and> unat a < unat f + unat l" for a
    using that by (blast intro: at_table.tr_after_add [OF wf new])
  show "translate vpi (add_mapping f l c ms) a = translate vpi ms a"
    if p: "p \<in> set ms" and cov: "covers p a" for p a
    by (rule at_table.tr_frame [OF wf new, of "ap_fpga_addr p" "ap_mapping_length p" "ap_cpu_addr p"])
      (use p cov in \<open>auto simp: region_of covers_def\<close>)
qed

theorem add_remove_roundtrip_witness:
  "remove_mapping 0x2000 (add_mapping 0x2000 0x800 0xA0000 example_table) = Inr example_table
   \<and> translate False (add_mapping 0x2000 0x800 0xA0000 example_table) 0x27FF = Inr 0xA07FF"
proof -
  have n: "base_fits 0x2000 0x800 example_table"
    by (simp add: base_fits_def fits_def example_table_eq no_wrap_def precedes_def)
  from add_remove_roundtrip [OF example_table_wf n, of "0xA0000" False] show ?thesis by force
qed

text \<open>C35: the sorted set of mappings implements a finite map from base address to host address and
  length. A lookup reads the map, an insertion at a base that is already present changes nothing (the
  older mapping wins), any other insertion is a map update, and a removal deletes the key or throws
  when there is none.\<close>

theorem table_refines_map:
  assumes "set_sorted ms"
  shows "get_mapping ms a = (case abs_table ms a of None \<Rightarrow> Inl Std_exception | Some v \<Rightarrow> Inr v)
    \<and> set_sorted (add_mapping f l c ms)
    \<and> abs_table (add_mapping f l c ms) =
        (if f \<in> dom (abs_table ms) then abs_table ms else (abs_table ms)(f \<mapsto> (c, l)))
    \<and> (case remove_mapping f ms of
          Inl e \<Rightarrow> e = Std_exception \<and> f \<notin> dom (abs_table ms)
        | Inr ms' \<Rightarrow> set_sorted ms' \<and> f \<in> dom (abs_table ms) \<and> abs_table ms' = (abs_table ms)(f := None))"
proof (intro conjI)
  show "get_mapping ms a = (case abs_table ms a of None \<Rightarrow> Inl Std_exception | Some v \<Rightarrow> Inr v)"
    by (rule get_mapping_abs)
  show "set_sorted (add_mapping f l c ms)"
    unfolding add_mapping_def by (rule set_emplace_sorted [OF assms])
  show "abs_table (add_mapping f l c ms) =
        (if f \<in> dom (abs_table ms) then abs_table ms else (abs_table ms)(f \<mapsto> (c, l)))"
    unfolding add_mapping_def abs_table_emplace [OF assms] by simp
  show "case remove_mapping f ms of
          Inl e \<Rightarrow> e = Std_exception \<and> f \<notin> dom (abs_table ms)
        | Inr ms' \<Rightarrow> set_sorted ms' \<and> f \<in> dom (abs_table ms) \<and> abs_table ms' = (abs_table ms)(f := None)"
    using assms
    by (simp add: remove_mapping_eq [OF assms] dom_abs_table abs_table_remove [OF assms]
        set_sorted_def sorted_wrt_filter)
qed

theorem table_refines_map_witness:
  "get_mapping example_table 0x4000 = Inr (0x90000, 0x40)
   \<and> abs_table (add_mapping 0x4000 0x999 0x5 example_table) = abs_table example_table"
proof -
  have d: "0x4000 \<in> dom (abs_table example_table)"
    by (simp add: dom_abs_table example_table_eq)
  have v: "abs_table example_table 0x4000 = Some (0x90000, 0x40)"
    by (simp add: abs_table_def example_table_eq)
  from table_refines_map [OF wf_mappings_sorted [OF example_table_wf], of "0x4000" "0x4000" "0x999" "0x5"]
  show ?thesis using d v by simp
qed

end
