(* ===== verification/Mmio_Backend.thy ===== *)
theory Mmio_Backend
  imports Complex_Main Runtime_Prelude
begin

text \<open>
  The FPGA side of the runtime: the memory-mapped registers (src/mmio.cc), the delivery of a command
  over them (the loop of \<open>cmd_server_f\<close> in src/cmd_server.cc), the response poller
  (src/response_poller.cc) and \<open>roundUp\<close> of include/util.h, which fixes the number of beats.

  The device is not part of the repository: it is the parameter \<open>dev\<close>, a pair of functions on a
  device state, and so are the register addresses and opcodes, which are generated into
  beethoven_hardware.h. A polling loop takes a bound on its polls; the theorems show that a bound
  above the number of polls the device needs gives the result.
\<close>

section \<open>Build targets, registers, device\<close>

datatype target = Target_sim | Target_F1 | Target_F2 | Target_Kria

text \<open>
  The targets are those that the build files can select. The macro \<open>VSIM\<close> is defined by none of them: it stands for an F1 or F2 build that is linked with the
  vendor's simulation library. Where it changes code is the header that is included (include/fpga_utils.h) and the name of the main function (src/fpga_main.cc);
  the delivery of a command in cmd_server.cc, which is compiled for \<open>FPGA\<close> or \<open>VSIM\<close>, is then the one of \<open>Target_F1\<close> and \<open>Target_F2\<close>. With \<open>VSIM\<close>
  alone \<open>peek_mmio\<close> has no statement that returns a value, so that such a build has no meaning to model.
\<close>

text \<open>The macro \<open>AWS\<close> of include/fpga_utils.h.\<close>

fun is_AWS :: "target \<Rightarrow> bool" where
  "is_AWS Target_F1 = True"
| "is_AWS Target_F2 = True"
| "is_AWS t = False"

fun use_XDMA :: "target \<Rightarrow> bool" where
  "use_XDMA Target_F1 = True"
| "use_XDMA t = False"

record hw_map =
  CMD_BITS :: u32
  CMD_VALID :: u32
  CMD_READY :: u32
  RESP_BITS :: u32
  RESP_VALID :: u32
  RESP_READY :: u32
  COHERENCE_BITS :: u32
  COHERENCE_VALID :: u32
  COHERENCE_READY :: u32

record 'd mmio_device =
  dev_peek :: "u32 \<Rightarrow> 'd \<Rightarrow> int \<times> u32 \<times> 'd"
  dev_poke :: "u64 \<Rightarrow> u32 \<Rightarrow> 'd \<Rightarrow> int \<times> 'd"

section \<open>Register access\<close>

text \<open>Opening the register window; \<open>fd\<close>, \<open>dvm\<close> and \<open>errno\<close> are what the system calls give.\<close>

definition setup_mmio :: "target \<Rightarrow> int \<Rightarrow> u64 \<Rightarrow> int \<Rightarrow> u64 res" where
  "setup_mmio tgt fd dvm errno =
     (if tgt = Target_Kria then
        (if fd < 0 then Inl (Exit errno)
         else if dvm = MAP_FAILED then Inl (Exit errno)
         else Inr dvm)
      else Inr 0)"

definition poke_mmio :: "target \<Rightarrow> 'd mmio_device \<Rightarrow> u64 \<Rightarrow> u32 \<Rightarrow> 'd \<Rightarrow> 'd res" where
  "poke_mmio tgt dev addr val d =
     (if is_AWS tgt then
        (let (rc, d') = dev_poke dev addr val d
         in if rc \<noteq> 0 then Inl Std_exception else Inr d')
      else if tgt = Target_Kria then Inr (snd (dev_poke dev addr val d))
      else Inr d)"

definition peek_mmio :: "target \<Rightarrow> 'd mmio_device \<Rightarrow> u32 \<Rightarrow> 'd \<Rightarrow> (u32 \<times> 'd) res" where
  "peek_mmio tgt dev addr d =
     (if is_AWS tgt then
        (let (rc, v, d') = dev_peek dev addr d
         in if rc \<noteq> 0 then Inl Std_exception else Inr (v, d'))
      else if tgt = Target_Kria then Inr (snd (dev_peek dev addr d))
      else Inl No_value)"

text \<open>\<open>while (!peek_mmio(addr)) {}\<close>\<close>

fun spin_ready :: "nat \<Rightarrow> target \<Rightarrow> 'd mmio_device \<Rightarrow> u32 \<Rightarrow> 'd \<Rightarrow> 'd res" where
  "spin_ready 0 tgt dev addr d = Inl Diverges"
| "spin_ready (Suc n) tgt dev addr d =
     rbind (peek_mmio tgt dev addr d) (\<lambda>(v, d').
       if v \<noteq> 0 then Inr d' else spin_ready n tgt dev addr d')"

section \<open>Command delivery\<close>

text \<open>\<open>roundUp\<close> on exact fractions; a conversion of a \<open>float\<close> to \<open>int\<close> truncates.\<close>

definition float_to_int :: "rat \<Rightarrow> int" where
  "float_to_int q = (if q < 0 then ceiling q else floor q)"

definition roundUp :: "rat \<Rightarrow> int" where
  "roundUp q = (let d = q - of_int (float_to_int q)
                in if q < 0 then float_to_int (q - d) else float_to_int (q + d))"

definition num_cmd_beats :: "int \<Rightarrow> int" where
  "num_cmd_beats axil_bus_width = roundUp (of_int (32 * 5) / of_int axil_bus_width)"

text \<open>One iteration of the delivery loop: wait for \<open>CMD_READY\<close>, write the word, raise \<open>CMD_VALID\<close>.\<close>

definition send_beat ::
  "nat \<Rightarrow> target \<Rightarrow> hw_map \<Rightarrow> 'd mmio_device \<Rightarrow> u32 list \<Rightarrow> int \<Rightarrow> 'd \<Rightarrow> 'd res" where
  "send_beat polls tgt hw dev pack i d =
     rbind (spin_ready polls tgt dev (CMD_READY hw) d) (\<lambda>d.
     rbind (nth_res pack i) (\<lambda>w.
     rbind (poke_mmio tgt dev (ucast (CMD_BITS hw)) w d) (\<lambda>d.
     poke_mmio tgt dev (ucast (CMD_VALID hw)) 1 d)))"

fun send_beats ::
  "nat \<Rightarrow> target \<Rightarrow> hw_map \<Rightarrow> 'd mmio_device \<Rightarrow> u32 list \<Rightarrow> nat \<Rightarrow> nat \<Rightarrow> 'd \<Rightarrow> 'd res" where
  "send_beats polls tgt hw dev pack i 0 d = Inr d"
| "send_beats polls tgt hw dev pack i (Suc n) d =
     rbind (send_beat polls tgt hw dev pack (int i) d) (\<lambda>d.
     send_beats polls tgt hw dev pack (Suc i) n d)"

section \<open>Response poller\<close>

definition poll_word ::
  "nat \<Rightarrow> target \<Rightarrow> hw_map \<Rightarrow> 'd mmio_device \<Rightarrow> 'd \<Rightarrow> (u32 \<times> 'd) res" where
  "poll_word polls tgt hw dev d =
     rbind (spin_ready polls tgt dev (RESP_VALID hw) d) (\<lambda>d.
     rbind (peek_mmio tgt dev (RESP_BITS hw) d) (\<lambda>(i, d).
     rbind (poke_mmio tgt dev (ucast (RESP_READY hw)) 1 d) (\<lambda>d. Inr (i, d))))"

fun poll_words ::
  "nat \<Rightarrow> nat \<Rightarrow> target \<Rightarrow> hw_map \<Rightarrow> 'd mmio_device \<Rightarrow> 'd \<Rightarrow> (u32 list \<times> 'd) res" where
  "poll_words 0 polls tgt hw dev d = Inr ([], d)"
| "poll_words (Suc n) polls tgt hw dev d =
     rbind (poll_word polls tgt hw dev d) (\<lambda>(w, d).
     rbind (poll_words n polls tgt hw dev d) (\<lambda>(ws, d). Inr (w # ws, d)))"

definition poll_response ::
  "nat \<Rightarrow> target \<Rightarrow> hw_map \<Rightarrow> 'd mmio_device \<Rightarrow> 'd \<Rightarrow> (u32 list \<times> 'd) res" where
  "poll_response polls tgt hw dev d = poll_words 3 polls tgt hw dev d"

section \<open>Polling terminates on a responsive device\<close>

text \<open>The device answers register \<open>addr\<close> with a non-zero value within \<open>n\<close> polls and no access fails.\<close>

fun ready_within :: "'d mmio_device \<Rightarrow> u32 \<Rightarrow> nat \<Rightarrow> 'd \<Rightarrow> bool" where
  "ready_within dev addr 0 d = False"
| "ready_within dev addr (Suc n) d =
     (case dev_peek dev addr d of (rc, v, d') \<Rightarrow> rc = 0 \<and> (v \<noteq> 0 \<or> ready_within dev addr n d'))"

text \<open>A device that records every write in front of the wrapped one.\<close>

definition logged :: "'d mmio_device \<Rightarrow> ('d \<times> (u64 \<times> u32) list) mmio_device" where
  "logged dev =
     \<lparr>dev_peek = (\<lambda>a (d, tr). case dev_peek dev a d of (rc, v, d') \<Rightarrow> (rc, v, (d', tr))),
      dev_poke = (\<lambda>a v (d, tr). case dev_poke dev a v d of (rc, d') \<Rightarrow> (rc, (d', tr @ [(a, v)])))\<rparr>"

definition polls_bounded :: "'d mmio_device \<Rightarrow> u32 \<Rightarrow> nat \<Rightarrow> bool" where
  "polls_bounded dev addr n \<longleftrightarrow> (\<forall>d. ready_within dev addr n d)"

definition pokes_succeed :: "'d mmio_device \<Rightarrow> bool" where
  "pokes_succeed dev \<longleftrightarrow> (\<forall>a v d. fst (dev_poke dev a v d) = 0)"

lemma spin_ready_enough:
  assumes "tgt \<noteq> Target_sim" and "ready_within dev addr n d"
  shows "\<exists>d'. spin_ready n tgt (logged dev) addr (d, tr) = Inr (d', tr)"
  using assms(2)
proof (induction n arbitrary: d)
  case 0
  then show ?case by simp
next
  case (Suc n)
  obtain rc v d' where p: "dev_peek dev addr d = (rc, v, d')" by (cases "dev_peek dev addr d") auto
  have "peek_mmio tgt (logged dev) addr (d, tr) = Inr (v, d', tr)"
    using assms(1) Suc.prems p by (cases tgt) (auto simp: peek_mmio_def logged_def)
  with Suc p show ?case by auto
qed

lemma poke_logged:
  assumes "tgt \<noteq> Target_sim" and "pokes_succeed dev"
  shows "\<exists>d'. poke_mmio tgt (logged dev) a v (d, tr) = Inr (d', tr @ [(a, v)])"
proof (cases "dev_poke dev a v d")
  case (Pair rc d')
  with assms have "rc = 0" unfolding pokes_succeed_def by (metis fst_conv)
  with assms(1) Pair show ?thesis by (cases tgt) (auto simp: poke_mmio_def logged_def)
qed

lemma send_beat_log:
  assumes t: "tgt \<noteq> Target_sim" and dev: "polls_bounded dev (CMD_READY hw) n" "pokes_succeed dev"
    and i: "i < length pack"
  shows "\<exists>d'. send_beat n tgt hw (logged dev) pack (int i) (d, tr) =
    Inr (d', tr @ [(ucast (CMD_BITS hw), pack ! i), (ucast (CMD_VALID hw), 1)])"
proof -
  from spin_ready_enough [OF t, of dev "CMD_READY hw" n d tr] dev(1)
  obtain d1 where 1: "spin_ready n tgt (logged dev) (CMD_READY hw) (d, tr) = Inr (d1, tr)"
    by (auto simp: polls_bounded_def)
  from poke_logged [OF t dev(2)]
  obtain d2 where 2: "poke_mmio tgt (logged dev) (ucast (CMD_BITS hw)) (pack ! i) (d1, tr) =
      Inr (d2, tr @ [(ucast (CMD_BITS hw), pack ! i)])" by blast
  from poke_logged [OF t dev(2)]
  obtain d3 where 3: "poke_mmio tgt (logged dev) (ucast (CMD_VALID hw)) 1
      (d2, tr @ [(ucast (CMD_BITS hw), pack ! i)]) =
      Inr (d3, (tr @ [(ucast (CMD_BITS hw), pack ! i)]) @ [(ucast (CMD_VALID hw), 1)])" by blast
  show ?thesis using i by (simp add: send_beat_def 1 2 3 nth_res_def)
qed

lemma send_beats_log:
  assumes t: "tgt \<noteq> Target_sim" and dev: "polls_bounded dev (CMD_READY hw) n" "pokes_succeed dev"
    and "i + k \<le> length pack"
  shows "\<exists>d'. send_beats n tgt hw (logged dev) pack i k (d, tr) =
    Inr (d', tr @ concat (map (\<lambda>w. [(ucast (CMD_BITS hw), w), (ucast (CMD_VALID hw), 1)])
                              (take k (drop i pack))))"
  using assms(4)
proof (induction k arbitrary: i d tr)
  case 0
  then show ?case by simp
next
  case (Suc k)
  let ?tr = "tr @ [(ucast (CMD_BITS hw), pack ! i), (ucast (CMD_VALID hw), 1)]"
  from Suc.prems have i: "i < length pack" by simp
  from send_beat_log [OF t dev i] obtain d1
    where 1: "send_beat n tgt hw (logged dev) pack (int i) (d, tr) = Inr (d1, ?tr)" by blast
  from Suc.IH [of "Suc i" d1 ?tr] Suc.prems obtain d2
    where 2: "send_beats n tgt hw (logged dev) pack (Suc i) k (d1, ?tr) =
      Inr (d2, ?tr @ concat (map (\<lambda>w. [(ucast (CMD_BITS hw), w), (ucast (CMD_VALID hw), 1)])
                                  (take k (drop (Suc i) pack))))" by auto
  have "drop i pack = pack ! i # drop (Suc i) pack" using i by (simp add: Cons_nth_drop_Suc)
  then show ?case by (simp add: 1 2)
qed

section \<open>The response registers\<close>

text \<open>
  What the poller relies on about the response registers: \<open>pend d\<close> is the words the device still has
  to give. While there is one, \<open>RESP_VALID\<close> turns non-zero within \<open>n\<close> polls; \<open>RESP_BITS\<close> shows the
  first one; writing \<open>RESP_READY\<close> consumes it.
\<close>

definition response_registers ::
  "'d mmio_device \<Rightarrow> hw_map \<Rightarrow> nat \<Rightarrow> ('d \<Rightarrow> u32 list) \<Rightarrow> bool" where
  "response_registers dev hw n pend \<longleftrightarrow>
     (\<forall>d. pend (snd (snd (dev_peek dev (RESP_VALID hw) d))) = pend d)
     \<and> (\<forall>d. pend d \<noteq> [] \<longrightarrow> ready_within dev (RESP_VALID hw) n d)
     \<and> (\<forall>d. pend d \<noteq> [] \<longrightarrow> (case dev_peek dev (RESP_BITS hw) d of
            (rc, v, d') \<Rightarrow> rc = 0 \<and> v = hd (pend d) \<and> pend d' = pend d))
     \<and> (\<forall>d. case dev_poke dev (ucast (RESP_READY hw)) 1 d of (rc, d') \<Rightarrow> rc = 0 \<and> pend d' = tl (pend d))"

lemma spin_pend:
  assumes t: "tgt \<noteq> Target_sim" and keep: "\<And>d. pend (snd (snd (dev_peek dev addr d))) = pend d"
    and "ready_within dev addr n d"
  shows "\<exists>d'. spin_ready n tgt dev addr d = Inr d' \<and> pend d' = pend d"
  using assms(3)
proof (induction n arbitrary: d)
  case 0
  then show ?case by simp
next
  case (Suc n)
  obtain rc v d' where p: "dev_peek dev addr d = (rc, v, d')" by (cases "dev_peek dev addr d") auto
  have "peek_mmio tgt dev addr d = Inr (v, d')"
    using t Suc.prems p by (cases tgt) (auto simp: peek_mmio_def)
  moreover have "pend d' = pend d" using keep [of d] p by simp
  ultimately show ?case using Suc.IH [of d'] Suc.prems p by (cases "v = 0") auto
qed

lemma poll_word_pend:
  assumes t: "tgt \<noteq> Target_sim" and dev: "response_registers dev hw n pend" and w: "pend d = w # ws"
  shows "\<exists>d'. poll_word n tgt hw dev d = Inr (w, d') \<and> pend d' = ws"
proof -
  have keep: "\<And>d. pend (snd (snd (dev_peek dev (RESP_VALID hw) d))) = pend d"
    and rdy: "ready_within dev (RESP_VALID hw) n d"
    using dev w by (auto simp: response_registers_def)
  obtain d1 where 1: "spin_ready n tgt dev (RESP_VALID hw) d = Inr d1" "pend d1 = w # ws"
    using spin_pend [where pend = pend, OF t keep rdy] w by auto
  have "case dev_peek dev (RESP_BITS hw) d1 of
      (rc, v, d') \<Rightarrow> rc = 0 \<and> v = hd (pend d1) \<and> pend d' = pend d1"
    using dev 1(2) unfolding response_registers_def by (metis list.distinct(1))
  then obtain d2 where "dev_peek dev (RESP_BITS hw) d1 = (0, w, d2)" and p2: "pend d2 = w # ws"
    using 1(2) by (auto split: prod.splits)
  then have 2: "peek_mmio tgt dev (RESP_BITS hw) d1 = Inr (w, d2)"
    using t by (cases tgt) (auto simp: peek_mmio_def)
  have "case dev_poke dev (ucast (RESP_READY hw)) 1 d2 of (rc, d') \<Rightarrow> rc = 0 \<and> pend d' = tl (pend d2)"
    using dev unfolding response_registers_def by simp
  then obtain d3 where "dev_poke dev (ucast (RESP_READY hw)) 1 d2 = (0, d3)" and p3: "pend d3 = ws"
    using p2 by (auto split: prod.splits)
  then have 3: "poke_mmio tgt dev (ucast (RESP_READY hw)) 1 d2 = Inr d3"
    using t by (cases tgt) (auto simp: poke_mmio_def)
  show ?thesis using p3 by (simp add: poll_word_def 1 2 3)
qed

lemma poll_words_pend:
  assumes t: "tgt \<noteq> Target_sim" and dev: "response_registers dev hw n pend" and "k \<le> length (pend d)"
  shows "\<exists>d'. poll_words k n tgt hw dev d = Inr (take k (pend d), d') \<and> pend d' = drop k (pend d)"
  using assms(3)
proof (induction k arbitrary: d)
  case 0
  then show ?case by simp
next
  case (Suc k)
  then obtain w ws where w: "pend d = w # ws" by (cases "pend d") auto
  from poll_word_pend [OF t dev w] obtain d1
    where 1: "poll_word n tgt hw dev d = Inr (w, d1)" "pend d1 = ws" by blast
  with Suc.IH [of d1] Suc.prems w obtain d2
    where "poll_words k n tgt hw dev d1 = Inr (take k ws, d2)" "pend d2 = drop k ws" by auto
  with 1 w show ?case by simp
qed

section \<open>Properties\<close>

lemma floor_fractions:
  "floor (5 / 2 :: rat) = 2" "floor (5 / 4 :: rat) = 1" "floor (3 / 2 :: rat) = 1"
  by (simp_all add: floor_eq_iff)

text \<open>A concrete device: not ready on the first poll after every write, recording nothing.\<close>

definition demo_hw :: hw_map where
  "demo_hw = \<lparr>CMD_BITS = 0x10, CMD_VALID = 0x14, CMD_READY = 0x18, RESP_BITS = 0x20,
     RESP_VALID = 0x24, RESP_READY = 0x28, COHERENCE_BITS = 0x30, COHERENCE_VALID = 0x34,
     COHERENCE_READY = 0x38\<rparr>"

definition demo_device :: "(bool \<times> u32 list) mmio_device" where
  "demo_device =
     \<lparr>dev_peek = (\<lambda>a (rdy, ws). if a = 0x20 then (0, (if ws = [] then 0 else hd ws), (rdy, ws))
                  else (0, (if rdy then 1 else 0), (True, ws))),
      dev_poke = (\<lambda>a v (rdy, ws). (0, (False, if a = 0x28 then tl ws else ws)))\<rparr>"

lemma ready_within_2: "ready_within dev a 2 d =
    (case dev_peek dev a d of (rc, v, d') \<Rightarrow>
       rc = 0 \<and> (v \<noteq> 0 \<or> (case dev_peek dev a d' of (rc', v', d'') \<Rightarrow> rc' = 0 \<and> v' \<noteq> 0)))"
  by (simp only: numeral_2_eq_2 ready_within.simps simp_thms)

lemma demo_device_polls: "polls_bounded demo_device (CMD_READY demo_hw) 2"
  by (auto simp: polls_bounded_def demo_device_def demo_hw_def ready_within_2)

lemma demo_device_pokes: "pokes_succeed demo_device"
  by (auto simp: pokes_succeed_def demo_device_def)

lemma demo_device_responses: "response_registers demo_device demo_hw 2 snd"
  by (auto simp: response_registers_def demo_device_def demo_hw_def ready_within_2 split: prod.splits)

text \<open>On an FPGA build, with a device that raises \<open>CMD_READY\<close> within \<open>n\<close> polls, delivering a packed
  command returns and writes exactly, in order, each of the first \<open>num_cmd_beats\<close> words to \<open>CMD_BITS\<close>
  followed by a one to \<open>CMD_VALID\<close>, and nothing else.\<close>

theorem command_delivery:
  assumes "tgt \<noteq> Target_sim" and "polls_bounded dev (CMD_READY hw) n" and "pokes_succeed dev"
    and "nat (num_cmd_beats w) \<le> length pack"
  shows "\<exists>d'. send_beats n tgt hw (logged dev) pack 0 (nat (num_cmd_beats w)) (d, []) =
    Inr (d', concat (map (\<lambda>x. [(ucast (CMD_BITS hw), x), (ucast (CMD_VALID hw), 1)])
                         (take (nat (num_cmd_beats w)) pack)))"
  using send_beats_log [OF assms(1-3), of 0 "nat (num_cmd_beats w)" pack d "[]"] assms(4) by simp

theorem command_delivery_witness:
  "\<exists>d'. send_beats 2 Target_F1 demo_hw (logged demo_device) [1, 2, 3, 4, 5] 0 (nat (num_cmd_beats 32))
        ((False, []), []) =
    Inr (d', concat (map (\<lambda>x. [(0x10, x), (0x14, 1)]) [1, 2, 3, 4, 5]))"
proof -
  have b: "nat (num_cmd_beats 32) = 5"
    by (simp add: num_cmd_beats_def roundUp_def float_to_int_def)
  show ?thesis
    using command_delivery [of Target_F1 demo_device demo_hw 2 32 "[1, 2, 3, 4, 5]" "(False, [])"]
      demo_device_polls demo_device_pokes unfolding b by (simp add: demo_hw_def)
qed

text \<open>One round of the response poller returns. It collects exactly the next three response words
  of the device, in order, and consumes them.\<close>

theorem poll_response_words:
  assumes "tgt \<noteq> Target_sim" and "response_registers dev hw n pend" and "3 \<le> length (pend d)"
  shows "\<exists>d'. poll_response n tgt hw dev d = Inr (take 3 (pend d), d') \<and> pend d' = drop 3 (pend d)"
  unfolding poll_response_def by (rule poll_words_pend [OF assms])

theorem poll_response_words_witness:
  "\<exists>d'. poll_response 2 Target_Kria demo_hw demo_device (False, [7, 8, 9, 10]) = Inr ([7, 8, 9], d')
     \<and> snd d' = [10]"
  using poll_response_words [OF _ demo_device_responses, of Target_Kria "(False, [7, 8, 9, 10])"] by simp

text \<open>\<open>roundUp\<close> does not round up. It rounds a non-negative number to the nearest integer (halves
  up), so a fraction below one half is dropped. For the command length the result is exact on a 32-bit
  bus (five beats); on a 64-bit bus it is three, although every beat carries 32 bits.\<close>

theorem roundUp_is_nearest:
  "(\<forall>q \<ge> 0. roundUp q = (if frac q < 1 / 2 then floor q else floor q + 1))
   \<and> num_cmd_beats 32 = 5 \<and> num_cmd_beats 64 = 3 \<and> num_cmd_beats 128 = 1"
proof (intro conjI allI impI)
  fix q :: rat assume q: "0 \<le> q"
  have f: "float_to_int q = floor q" using q by (simp add: float_to_int_def)
  have e: "q + (q - of_int (floor q)) = of_int (floor q) + 2 * frac q" by (simp add: frac_def)
  have nonneg: "0 \<le> of_int (floor q) + 2 * frac q"
    using q frac_ge_0 [of q] by (intro add_nonneg_nonneg) auto
  have n: "(of_int (floor q) + 2 * frac q < 0) = False" "(q < 0) = False"
    using nonneg q by (simp_all only: not_less [symmetric] eq_False not_False_eq_True)
  have r: "roundUp q = floor (of_int (floor q) + 2 * frac q)"
    unfolding roundUp_def Let_def f e n if_False unfolding float_to_int_def n if_False by (rule refl)
  have "0 \<le> 2 * frac q" and "2 * frac q < 2" using frac_ge_0 [of q] frac_lt_1 [of q] by auto
  then have "floor (2 * frac q) = (if frac q < 1 / 2 then 0 else 1)"
    by (auto simp: floor_eq_iff)
  then show "roundUp q = (if frac q < 1 / 2 then floor q else floor q + 1)"
    unfolding r by (simp only: floor_add_int [symmetric] add.commute) auto
qed (simp_all add: num_cmd_beats_def roundUp_def float_to_int_def Let_def floor_fractions)

theorem roundUp_is_nearest_witness: "roundUp (9 / 4) = 2"
proof -
  have f: "floor (9 / 4 :: rat) = 2" by (simp add: floor_eq_iff)
  moreover have "frac (9 / 4 :: rat) = 1 / 4" unfolding frac_def f by simp
  ultimately show ?thesis using conjunct1 [OF roundUp_is_nearest, rule_format, of "9 / 4"] by simp
qed

end
