(* ===== verification/Cmd_Server.thy ===== *)
theory Cmd_Server
  imports Mmio_Backend
begin

text \<open>
  The command server (src/cmd_server.cc, include/cmd_server.h) and the poller thread that feeds it on
  FPGA builds (src/response_poller.cc).

  Commands and responses are the types \<open>rocc_cmd\<close> and \<open>rocc_response\<close> of the Beethoven library, which
  is not part of the repository: they are the type parameters \<open>'cmd\<close> and \<open>'resp\<close>, and the accessors
  the runtime calls are the fields of the parameter \<open>ops\<close>. The record \<open>cmd_state\<close> holds the shared
  file \<open>csf\<close> (fields \<open>csf_...\<close>), the globals \<open>cmds\<close> and \<open>in_flight\<close> and the mutexes that survive one
  operation. One wake-up of the server thread (one turn of the \<open>while\<close> loop of \<open>cmd_server_f\<close>) and one
  call of \<open>register_reponse\<close> are atomic: both hold \<open>cmdserverlock\<close>. Log output and timing are left out.

  The table \<open>in_flight\<close> meets the contract \<open>keyed_fifo\<close>, so that slots are taken per core in the order they were queued;
  with the invariant of the slots this gives the routing of the responses to the arrays that the clients read.
\<close>

section \<open>Model\<close>

record system_core_pair =
  scp_system :: int
  scp_core :: int

record ('cmd, 'resp) rocc_ops =
  getXd :: "'cmd \<Rightarrow> int"
  getSystemId :: "'cmd \<Rightarrow> int"
  getCoreId :: "'cmd \<Rightarrow> int"
  getOpcode :: "'cmd \<Rightarrow> int"
  pack :: "'cmd \<Rightarrow> u32 list"
  unpack :: "u32 list \<Rightarrow> 'resp"
  resp_system_id :: "'resp \<Rightarrow> int"
  resp_core_id :: "'resp \<Rightarrow> int"

record ('cmd, 'resp) cmd_state =
  csf_cmd :: 'cmd
  csf_quit :: bool
  csf_free_list :: "int list"
  csf_free_list_idx :: int
  csf_pthread_wait_id :: int
  csf_responses :: "'resp list"
  csf_wait_for_response :: "bool list"
  csf_processes_waiting :: nat
  csf_cmd_recieve_server_resp_lock :: bool
  cmdserverlock :: bool
  main_lock :: bool
  bus_lock :: bool
  kill_sig :: bool
  cmds :: "'cmd list"
  in_flight :: "system_core_pair \<rightharpoonup> int list"

text \<open>Opening and sizing the shared file at start-up: \<open>fd\<close>, \<open>errno\<close>, \<open>st_size\<close> and \<open>tr_rc\<close> are what the
  system calls return, the result is the size of the file that is then mapped.\<close>

definition cmd_server_open :: "int \<Rightarrow> int \<Rightarrow> nat \<Rightarrow> nat \<Rightarrow> int \<Rightarrow> nat res" where
  "cmd_server_open fd errno st_size file_size tr_rc =
     (if fd < 0 then Inl (Exit errno)
      else if st_size < file_size then
        (if tr_rc \<noteq> 0 then Inl Std_exception else Inr file_size)
      else Inr st_size)"

text \<open>A response slot is taken from the top of the free list when the command expects a response. The
  index is not tested.\<close>

definition alloc_response_slot ::
  "('cmd, 'resp) rocc_ops \<Rightarrow> ('cmd, 'resp) cmd_state \<Rightarrow> (int \<times> ('cmd, 'resp) cmd_state) res" where
  "alloc_response_slot ops s =
     (if getXd ops (csf_cmd s) \<noteq> 0 then
        rbind (nth_res (csf_free_list s) (csf_free_list_idx s)) (\<lambda>rid.
        Inr (rid, s\<lparr>csf_free_list_idx := csf_free_list_idx s - 1, csf_pthread_wait_id := rid\<rparr>))
      else Inr (0xffff, s\<lparr>csf_pthread_wait_id := 0xffff\<rparr>))"

text \<open>Shutdown returns from the thread with \<open>cmdserverlock\<close> still held.\<close>

definition cmd_server_quit :: "target \<Rightarrow> ('cmd, 'resp) cmd_state \<Rightarrow> ('cmd, 'resp) cmd_state" where
  "cmd_server_quit tgt s =
     s\<lparr>main_lock := False, kill_sig := (if tgt = Target_sim then True else kill_sig s)\<rparr>"

text \<open>Simulation builds queue the command for the main thread; FPGA builds wake the poller and write the
  packed command to the device.\<close>

definition deliver_command ::
  "nat \<Rightarrow> target \<Rightarrow> hw_map \<Rightarrow> int \<Rightarrow> 'd mmio_device \<Rightarrow> ('cmd, 'resp) rocc_ops
     \<Rightarrow> 'd \<Rightarrow> ('cmd, 'resp) cmd_state \<Rightarrow> ('d \<times> ('cmd, 'resp) cmd_state) res" where
  "deliver_command polls tgt hw axil_bus_width dev ops d s =
     (if tgt = Target_sim then Inr (d, s\<lparr>cmds := q_push (cmds s) (csf_cmd s)\<rparr>)
      else
        (let s = (if getXd ops (csf_cmd s) \<noteq> 0
                  then s\<lparr>csf_processes_waiting := Suc (csf_processes_waiting s)\<rparr> else s)
         in rbind (mutex_lock (bus_lock s)) (\<lambda>_.
            rbind (send_beats polls tgt hw dev (pack ops (csf_cmd s)) 0
                     (nat (num_cmd_beats axil_bus_width)) d) (\<lambda>d.
            Inr (d, s\<lparr>bus_lock := False\<rparr>)))))"

text \<open>The queue of a core is created on its first command.\<close>

definition in_flight_push ::
  "system_core_pair \<Rightarrow> int \<Rightarrow> (system_core_pair \<rightharpoonup> int list) \<Rightarrow> (system_core_pair \<rightharpoonup> int list)" where
  "in_flight_push key rid m =
     (case m key of
        None \<Rightarrow> m(key \<mapsto> q_push [] rid)
      | Some q \<Rightarrow> m(key \<mapsto> q_push q rid))"

definition register_in_flight ::
  "('cmd, 'resp) rocc_ops \<Rightarrow> int \<Rightarrow> ('cmd, 'resp) cmd_state \<Rightarrow> ('cmd, 'resp) cmd_state res" where
  "register_in_flight ops rid s =
     (if getXd ops (csf_cmd s) \<noteq> 0 then
        (let key = \<lparr>scp_system = getSystemId ops (csf_cmd s), scp_core = getCoreId ops (csf_cmd s)\<rparr>
         in if rid = 0xffff then Inl Assert_failed
            else Inr (s\<lparr>in_flight := in_flight_push key rid (in_flight s)\<rparr>))
      else Inr s)"

datatype server_status = Running | Exited

text \<open>One turn of the server loop.\<close>

definition cmd_server_iteration ::
  "nat \<Rightarrow> target \<Rightarrow> hw_map \<Rightarrow> int \<Rightarrow> 'd mmio_device \<Rightarrow> ('cmd, 'resp) rocc_ops
     \<Rightarrow> 'd \<Rightarrow> ('cmd, 'resp) cmd_state \<Rightarrow> ('d \<times> server_status \<times> ('cmd, 'resp) cmd_state) res" where
  "cmd_server_iteration polls tgt hw axil_bus_width dev ops d s =
     rbind (alloc_response_slot ops s) (\<lambda>(rid, s).
     rbind (mutex_lock (cmdserverlock s)) (\<lambda>l.
     (let s = s\<lparr>cmdserverlock := l\<rparr>
      in if csf_quit s then Inr (d, Exited, cmd_server_quit tgt s)
         else
           rbind (deliver_command polls tgt hw axil_bus_width dev ops d s) (\<lambda>(d, s).
           rbind (register_in_flight ops rid s) (\<lambda>s.
           Inr (d, Running,
                s\<lparr>csf_cmd_recieve_server_resp_lock := False, cmdserverlock := False\<rparr>))))))"

text \<open>A response from the hardware goes to the oldest outstanding command of its core. A response of a core
  that never had a command releases \<open>main_lock\<close>, which ends the program.\<close>

definition register_reponse ::
  "('cmd, 'resp) rocc_ops \<Rightarrow> u32 list \<Rightarrow> ('cmd, 'resp) cmd_state \<Rightarrow> ('cmd, 'resp) cmd_state res" where
  "register_reponse ops r_buffer s =
     (let r = unpack ops r_buffer;
          pr = \<lparr>scp_system = resp_system_id ops r, scp_core = resp_core_id ops r\<rparr>
      in rbind (mutex_lock (cmdserverlock s)) (\<lambda>_.
         case in_flight s pr of
           None \<Rightarrow> Inr (s\<lparr>cmdserverlock := False, main_lock := False\<rparr>)
         | Some q \<Rightarrow>
             rbind (q_front q) (\<lambda>rid.
             rbind (upd_res (csf_responses s) rid r) (\<lambda>responses.
             rbind (upd_res (csf_wait_for_response s) rid False) (\<lambda>waits.
             rbind (q_pop q) (\<lambda>q.
             Inr (s\<lparr>csf_responses := responses, csf_wait_for_response := waits,
                    in_flight := (in_flight s)(pr \<mapsto> q), cmdserverlock := False\<rparr>)))))))"

text \<open>One round of the poller thread: it waits on the semaphore, reads three words and registers them.\<close>

definition poll_thread_round ::
  "nat \<Rightarrow> target \<Rightarrow> hw_map \<Rightarrow> 'd mmio_device \<Rightarrow> ('cmd, 'resp) rocc_ops
     \<Rightarrow> 'd \<Rightarrow> ('cmd, 'resp) cmd_state \<Rightarrow> ('d \<times> ('cmd, 'resp) cmd_state) res" where
  "poll_thread_round polls tgt hw dev ops d s =
     (if csf_processes_waiting s = 0 then Inl Blocked
      else
        (let s = s\<lparr>csf_processes_waiting := csf_processes_waiting s - 1\<rparr>
         in rbind (poll_response polls tgt hw dev d) (\<lambda>(buf, d).
            rbind (register_reponse ops buf s) (\<lambda>s. Inr (d, s)))))"

section \<open>Runs of a simulation build\<close>

text \<open>
  A client submits a command by writing it to the shared file and waking the server; the main thread
  hands in a response. A run interleaves the two freely and keeps a trace of the slots assigned and a
  list of the slots completed, with their cores.
\<close>

datatype 'cmd cs_event = Submit 'cmd | Respond "u32 list"

text \<open>The device arguments are not used on a simulation build.\<close>

definition sim_submit ::
  "('cmd, 'resp) rocc_ops \<Rightarrow> 'cmd \<Rightarrow> ('cmd, 'resp) cmd_state \<Rightarrow> ('cmd, 'resp) cmd_state res" where
  "sim_submit ops c s =
     rbind (cmd_server_iteration 0 Target_sim demo_hw 32 demo_device ops (False, []) (s\<lparr>csf_cmd := c\<rparr>))
       (\<lambda>(_, _, s). Inr s)"

definition cmd_key :: "('cmd, 'resp) rocc_ops \<Rightarrow> 'cmd \<Rightarrow> system_core_pair" where
  "cmd_key ops c = \<lparr>scp_system = getSystemId ops c, scp_core = getCoreId ops c\<rparr>"

definition resp_key :: "('cmd, 'resp) rocc_ops \<Rightarrow> u32 list \<Rightarrow> system_core_pair" where
  "resp_key ops b = \<lparr>scp_system = resp_system_id ops (unpack ops b),
                     scp_core = resp_core_id ops (unpack ops b)\<rparr>"

definition in_flight_contents :: "(system_core_pair \<rightharpoonup> int list) \<Rightarrow> system_core_pair \<Rightarrow> int list" where
  "in_flight_contents m k = (case m k of None \<Rightarrow> [] | Some q \<Rightarrow> q)"

definition in_flight_take ::
  "system_core_pair \<Rightarrow> (system_core_pair \<rightharpoonup> int list) \<Rightarrow> (int \<times> (system_core_pair \<rightharpoonup> int list)) res" where
  "in_flight_take k m =
     rbind (q_front (in_flight_contents m k)) (\<lambda>rid.
     rbind (q_pop (in_flight_contents m k)) (\<lambda>q. Inr (rid, m(k \<mapsto> q))))"

interpretation resp_fifo: keyed_fifo in_flight_push in_flight_take in_flight_contents
proof
  fix k v m
  show "in_flight_contents (in_flight_push k v m) =
      (in_flight_contents m)(k := in_flight_contents m k @ [v])"
    by (rule ext) (simp add: in_flight_contents_def in_flight_push_def q_push_def split: option.split)
next
  fix m k v vs assume "in_flight_contents m k = v # vs"
  then have "in_flight_take k m = Inr (v, m(k \<mapsto> vs))" by (simp add: in_flight_take_def)
  moreover have "in_flight_contents (m(k \<mapsto> vs)) = (in_flight_contents m)(k := vs)"
    by (rule ext) (simp add: in_flight_contents_def)
  ultimately show "\<exists>m'. in_flight_take k m = Inr (v, m') \<and>
      in_flight_contents m' = (in_flight_contents m)(k := vs)" by blast
next
  fix m k assume "in_flight_contents m k = []"
  then show "\<exists>e. in_flight_take k m = Inl e" by (simp add: in_flight_take_def)
qed

fun cs_run :: "('cmd, 'resp) rocc_ops \<Rightarrow> 'cmd cs_event list \<Rightarrow> ('cmd, 'resp) cmd_state
    \<Rightarrow> ((system_core_pair, int) kq_event list \<times> (system_core_pair \<times> int) list
        \<times> ('cmd, 'resp) cmd_state) res" where
  "cs_run ops [] s = Inr ([], [], s)"
| "cs_run ops (Submit c # es) s =
     rbind (sim_submit ops c s) (\<lambda>s1.
     rbind (cs_run ops es s1) (\<lambda>(tr, fin, s2).
     Inr (if getXd ops c \<noteq> 0 then KPush (cmd_key ops c) (csf_pthread_wait_id s1) # tr else tr, fin, s2)))"
| "cs_run ops (Respond b # es) s =
     rbind (register_reponse ops b s) (\<lambda>s1.
     rbind (cs_run ops es s1) (\<lambda>(tr, fin, s2).
     case in_flight s (resp_key ops b) of
       None \<Rightarrow> Inr (tr, fin, s2)
     | Some q \<Rightarrow> Inr (KPop (resp_key ops b) # tr, (resp_key ops b, hd q) # fin, s2)))"

lemmas cmd_server_defs [model_defs] =
  sim_submit_def cmd_server_iteration_def alloc_response_slot_def deliver_command_def
  register_in_flight_def cmd_server_quit_def cmd_key_def resp_key_def

lemma sim_submit_Inr:
  assumes "sim_submit ops c s = Inr s'" and "\<not> csf_quit s"
  shows "cmds s' = cmds s @ [c]" and "csf_quit s' = csf_quit s" and "\<not> cmdserverlock s'"
    and "getXd ops c = 0 \<Longrightarrow> in_flight s' = in_flight s
           \<and> csf_free_list_idx s' = csf_free_list_idx s \<and> csf_pthread_wait_id s' = 0xffff"
    and "getXd ops c \<noteq> 0 \<Longrightarrow>
           in_flight s' = in_flight_push (cmd_key ops c) (csf_pthread_wait_id s') (in_flight s)
           \<and> csf_free_list_idx s' = csf_free_list_idx s - 1
           \<and> csf_pthread_wait_id s' = csf_free_list s ! nat (csf_free_list_idx s)
           \<and> csf_pthread_wait_id s' \<noteq> 0xffff
           \<and> 0 \<le> csf_free_list_idx s \<and> csf_free_list_idx s < int (length (csf_free_list s))"
    and "csf_free_list s' = csf_free_list s" and "csf_responses s' = csf_responses s"
    and "csf_wait_for_response s' = csf_wait_for_response s"
  using assms
  by (auto simp: cmd_server_defs Let_def res_simps q_push_def split: if_splits)

lemma register_reponse_Inr:
  assumes "register_reponse ops b s = Inr s'"
  shows "csf_quit s' = csf_quit s" and "\<not> cmdserverlock s'" and "cmds s' = cmds s"
    and "csf_free_list_idx s' = csf_free_list_idx s" and "csf_free_list s' = csf_free_list s"
    and "in_flight s (resp_key ops b) = None \<Longrightarrow>
           s' = s\<lparr>cmdserverlock := False, main_lock := False\<rparr>"
    and "in_flight s (resp_key ops b) = Some q \<Longrightarrow>
           \<exists>i q'. q = i # q' \<and> 0 \<le> i \<and> i < int (length (csf_responses s))
             \<and> i < int (length (csf_wait_for_response s))
             \<and> csf_responses s' = (csf_responses s)[nat i := unpack ops b]
             \<and> csf_wait_for_response s' = (csf_wait_for_response s)[nat i := False]
             \<and> in_flight s' = (in_flight s)(resp_key ops b \<mapsto> q')"
  using assms
  by (auto simp: register_reponse_def Let_def resp_key_def res_simps split: option.splits)

lemma cs_run_kq_run:
  assumes "cs_run ops es s = Inr (tr, fin, s')" and "\<not> csf_quit s"
  shows "kq_run in_flight_push in_flight_take tr (in_flight s) = Inr (fin, in_flight s')"
  using assms
proof (induction es arbitrary: s tr fin)
  case Nil
  then show ?case by simp
next
  case (Cons e es)
  show ?case
  proof (cases e)
    case (Submit c)
    with Cons.prems(1) obtain s1 tr1 where s1: "sim_submit ops c s = Inr s1"
      and r: "cs_run ops es s1 = Inr (tr1, fin, s')"
      and tr: "tr = (if getXd ops c \<noteq> 0 then KPush (cmd_key ops c) (csf_pthread_wait_id s1) # tr1 else tr1)"
      by (auto simp: res_simps)
    note eff = sim_submit_Inr [OF s1 Cons.prems(2)]
    from Cons.IH [OF r] eff(2) Cons.prems(2)
    have "kq_run in_flight_push in_flight_take tr1 (in_flight s1) = Inr (fin, in_flight s')" by simp
    with eff(4,5) tr show ?thesis by (cases "getXd ops c = 0") simp_all
  next
    case (Respond b)
    with Cons.prems(1) obtain s1 tr1 fin1 where s1: "register_reponse ops b s = Inr s1"
      and r: "cs_run ops es s1 = Inr (tr1, fin1, s')"
      and ld: "(case in_flight s (resp_key ops b) of None \<Rightarrow> (tr1, fin1)
        | Some q \<Rightarrow> (KPop (resp_key ops b) # tr1, (resp_key ops b, hd q) # fin1)) = (tr, fin)"
      by (auto simp: res_simps split: option.splits)
    note eff = register_reponse_Inr [OF s1]
    from Cons.IH [OF r] eff(1) Cons.prems(2)
    have IH: "kq_run in_flight_push in_flight_take tr1 (in_flight s1) = Inr (fin1, in_flight s')" by simp
    show ?thesis
    proof (cases "in_flight s (resp_key ops b)")
      case None
      with eff(6) ld IH show ?thesis by simp
    next
      case (Some q)
      from eff(7) [OF Some] obtain i q' where q: "q = i # q'"
        and s1': "in_flight s1 = (in_flight s)(resp_key ops b \<mapsto> q')" by blast
      have "in_flight_take (resp_key ops b) (in_flight s) = Inr (i, in_flight s1)"
        by (simp add: in_flight_take_def in_flight_contents_def Some q s1')
      with ld IH Some q show ?thesis by auto
    qed
  qed
qed

section \<open>Response slots\<close>

text \<open>
  The slots that are free, and the invariant: the free slots and the slots of all outstanding commands
  are pairwise different, and every one indexes the response arrays.
\<close>

definition free_slots :: "('cmd, 'resp) cmd_state \<Rightarrow> int list" where
  "free_slots s = take (nat (csf_free_list_idx s + 1)) (csf_free_list s)"

definition slot_ok :: "('cmd, 'resp) cmd_state \<Rightarrow> int \<Rightarrow> bool" where
  "slot_ok s i \<longleftrightarrow> 0 \<le> i \<and> i < int (length (csf_responses s)) \<and> i \<noteq> 0xffff"

definition slots_inv :: "('cmd, 'resp) cmd_state \<Rightarrow> bool" where
  "slots_inv s \<longleftrightarrow>
     length (csf_wait_for_response s) = length (csf_responses s)
     \<and> -1 \<le> csf_free_list_idx s \<and> csf_free_list_idx s < int (length (csf_free_list s))
     \<and> distinct (free_slots s) \<and> (\<forall>i \<in> set (free_slots s). slot_ok s i)
     \<and> (\<forall>k. distinct (in_flight_contents (in_flight s) k)
            \<and> (\<forall>i \<in> set (in_flight_contents (in_flight s) k). slot_ok s i \<and> i \<notin> set (free_slots s)))
     \<and> (\<forall>k k'. k \<noteq> k' \<longrightarrow>
            set (in_flight_contents (in_flight s) k) \<inter> set (in_flight_contents (in_flight s) k') = {})"

lemma free_slots_pop:
  assumes "0 \<le> csf_free_list_idx s" and "csf_free_list_idx s < int (length (csf_free_list s))"
    and "csf_free_list s' = csf_free_list s" and "csf_free_list_idx s' = csf_free_list_idx s - 1"
  shows "free_slots s = free_slots s' @ [csf_free_list s ! nat (csf_free_list_idx s)]"
proof -
  have "nat (csf_free_list_idx s + 1) = Suc (nat (csf_free_list_idx s))" using assms(1) by simp
  moreover have "nat (csf_free_list_idx s) < length (csf_free_list s)" using assms(1,2) by simp
  ultimately show ?thesis
    using assms(3,4) by (simp add: free_slots_def take_Suc_conv_app_nth)
qed

lemma slots_inv_submit:
  assumes "slots_inv s" and s': "sim_submit ops c s = Inr s'" and nq: "\<not> csf_quit s"
  shows "slots_inv s'"
proof -
  note eff = sim_submit_Inr [OF s' nq]
  show ?thesis
  proof (cases "getXd ops c = 0")
    case True
    with eff assms(1) show ?thesis by (simp add: slots_inv_def slot_ok_def free_slots_def)
  next
    case False
    let ?i = "csf_pthread_wait_id s'"
    let ?C = "in_flight_contents (in_flight s)"
    note e = eff(5) [OF False]
    have free: "free_slots s = free_slots s' @ [?i]"
      using free_slots_pop [of s s'] e eff(6) by simp
    have C': "in_flight_contents (in_flight s') = ?C(cmd_key ops c := ?C (cmd_key ops c) @ [?i])"
      using e resp_fifo.contents_push by simp
    have ok: "slot_ok s' = slot_ok s" using eff(7) by (simp add: slot_ok_def fun_eq_iff)
    show ?thesis
      using assms(1) e eff(6-8) unfolding slots_inv_def free C' ok
      by (auto simp: disjoint_iff)
  qed
qed

lemma slots_inv_respond:
  assumes "slots_inv s" and s': "register_reponse ops b s = Inr s'"
  shows "slots_inv s'"
proof (cases "in_flight s (resp_key ops b)")
  case None
  with register_reponse_Inr(6) [OF s'] assms(1) show ?thesis
    by (simp add: slots_inv_def slot_ok_def free_slots_def)
next
  case (Some q)
  note eff = register_reponse_Inr [OF s']
  let ?C = "in_flight_contents (in_flight s)"
  from eff(7) [OF Some] obtain i q' where q: "q = i # q'"
    and len: "length (csf_responses s') = length (csf_responses s)"
      "length (csf_wait_for_response s') = length (csf_wait_for_response s)"
    and m: "in_flight s' = (in_flight s)(resp_key ops b \<mapsto> q')" by auto
  have C: "?C (resp_key ops b) = i # q'" by (simp add: in_flight_contents_def Some q)
  have C': "in_flight_contents (in_flight s') = ?C(resp_key ops b := q')"
    by (rule ext) (simp add: in_flight_contents_def m)
  have fr: "free_slots s' = free_slots s" and ok: "slot_ok s' = slot_ok s"
    using eff(4,5) len by (simp_all add: free_slots_def slot_ok_def fun_eq_iff)
  have sub: "set (in_flight_contents (in_flight s') k) \<subseteq> set (?C k)
      \<and> distinct (in_flight_contents (in_flight s') k)" for k
    using assms(1) C unfolding C' slots_inv_def by (cases "k = resp_key ops b") (auto dest: spec [of _ k])
  show ?thesis unfolding slots_inv_def fr ok
  proof (intro conjI allI impI)
    fix k
    show "distinct (in_flight_contents (in_flight s') k)" using sub [of k] by blast
    show "\<forall>i \<in> set (in_flight_contents (in_flight s') k). slot_ok s i \<and> i \<notin> set (free_slots s)"
      using sub [of k] assms(1) unfolding slots_inv_def by blast
  next
    fix k k' :: system_core_pair assume "k \<noteq> k'"
    then have "set (?C k) \<inter> set (?C k') = {}" using assms(1) unfolding slots_inv_def by blast
    then show "set (in_flight_contents (in_flight s') k) \<inter> set (in_flight_contents (in_flight s') k') = {}"
      using sub [of k] sub [of k'] by blast
  qed (use assms(1) len eff(4,5) in \<open>simp_all add: slots_inv_def\<close>)
qed

lemma slots_inv_run:
  assumes "cs_run ops es s = Inr (tr, fin, s')" and "slots_inv s" and "\<not> csf_quit s"
  shows "slots_inv s'"
  using assms
proof (induction es arbitrary: s tr fin)
  case Nil
  then show ?case by simp
next
  case (Cons e es)
  show ?case
  proof (cases e)
    case (Submit c)
    with Cons.prems(1) obtain s1 tr1 where s1: "sim_submit ops c s = Inr s1"
      and r: "cs_run ops es s1 = Inr (tr1, fin, s')"
      by (auto simp: res_simps)
    show ?thesis
      using Cons.IH [OF r slots_inv_submit [OF Cons.prems(2) s1 Cons.prems(3)]]
        sim_submit_Inr(2) [OF s1 Cons.prems(3)] Cons.prems(3) by simp
  next
    case (Respond b)
    with Cons.prems(1) obtain s1 tr1 fin1 where s1: "register_reponse ops b s = Inr s1"
      and r: "cs_run ops es s1 = Inr (tr1, fin1, s')"
      by (auto simp: res_simps split: option.splits)
    show ?thesis
      using Cons.IH [OF r slots_inv_respond [OF Cons.prems(2) s1]]
        register_reponse_Inr(1) [OF s1] Cons.prems(3) by simp
  qed
qed

section \<open>Delivery of responses\<close>

text \<open>The responses the hardware sends for core \<open>k\<close>, but for those that come before the core's first command (\<open>known\<close>: it has had one).\<close>

fun core_answers :: "('cmd, 'resp) rocc_ops \<Rightarrow> system_core_pair \<Rightarrow> bool \<Rightarrow> 'cmd cs_event list \<Rightarrow> 'resp list" where
  "core_answers ops k known [] = []"
| "core_answers ops k known (Submit c # es) = core_answers ops k (known \<or> getXd ops c \<noteq> 0 \<and> cmd_key ops c = k) es"
| "core_answers ops k known (Respond b # es) =
     (if known \<and> resp_key ops b = k then unpack ops b # core_answers ops k known es else core_answers ops k known es)"

lemma handed_out_free:
  assumes "cs_run ops es s = Inr (tr, fin, s')" and "\<not> csf_quit s"
  shows "set (kq_pushed k tr) \<subseteq> set (free_slots s)"
  using assms
proof (induction es arbitrary: s tr fin)
  case Nil
  then show ?case by simp
next
  case (Cons e es)
  show ?case
  proof (cases e)
    case (Submit c)
    with Cons.prems(1) obtain s1 tr1 where s1: "sim_submit ops c s = Inr s1" and r: "cs_run ops es s1 = Inr (tr1, fin, s')"
      and tr: "tr = (if getXd ops c \<noteq> 0 then KPush (cmd_key ops c) (csf_pthread_wait_id s1) # tr1 else tr1)"
      by (auto simp: res_simps)
    note eff = sim_submit_Inr [OF s1 Cons.prems(2)]
    have IH: "set (kq_pushed k tr1) \<subseteq> set (free_slots s1)" using Cons.IH [OF r] eff(2) Cons.prems(2) by simp
    show ?thesis
    proof (cases "getXd ops c = 0")
      case True
      with IH eff(4,6) tr show ?thesis by (simp add: free_slots_def)
    next
      case False
      have "free_slots s = free_slots s1 @ [csf_pthread_wait_id s1]"
        using free_slots_pop [of s s1] eff(5) [OF False] eff(6) by simp
      with IH tr False show ?thesis by auto
    qed
  next
    case (Respond b)
    with Cons.prems(1) obtain s1 tr1 fin1 where s1: "register_reponse ops b s = Inr s1" and r: "cs_run ops es s1 = Inr (tr1, fin1, s')"
      and "tr = tr1 \<or> tr = KPop (resp_key ops b) # tr1"
      by (auto simp: res_simps split: option.splits)
    moreover note eff = register_reponse_Inr [OF s1]
    moreover have "set (kq_pushed k tr1) \<subseteq> set (free_slots s1)" using Cons.IH [OF r] eff(1) Cons.prems(2) by simp
    ultimately show ?thesis by (auto simp: free_slots_def)
  qed
qed

text \<open>Where responses go: \<open>Q k\<close> are the slots of core \<open>k\<close> in order, \<open>R k\<close> its responses.\<close>

definition delivered ::
  "(system_core_pair \<Rightarrow> int list) \<Rightarrow> (system_core_pair \<Rightarrow> 'resp list) \<Rightarrow> ('cmd, 'resp) cmd_state \<Rightarrow> ('cmd, 'resp) cmd_state \<Rightarrow> bool" where
  "delivered Q R s s' \<longleftrightarrow>
     (\<forall>k. length (R k) \<le> length (Q k) \<and> in_flight_contents (in_flight s') k = drop (length (R k)) (Q k)
        \<and> (\<forall>j < length (R k). csf_responses s' ! nat (Q k ! j) = R k ! j \<and> \<not> csf_wait_for_response s' ! nat (Q k ! j)))
     \<and> (\<forall>i < length (csf_responses s). (\<forall>k. int i \<notin> set (take (length (R k)) (Q k))) \<longrightarrow>
          csf_responses s' ! i = csf_responses s ! i \<and> csf_wait_for_response s' ! i = csf_wait_for_response s ! i)"

lemma delivered_step:
  assumes d: "delivered Q R s1 s'" and i: "0 \<le> i" "i < int (length (csf_responses s))" "i < int (length (csf_wait_for_response s))"
    and rs: "csf_responses s1 = (csf_responses s)[nat i := r]" and ws: "csf_wait_for_response s1 = (csf_wait_for_response s)[nat i := False]"
    and fresh: "\<And>k. i \<notin> set (Q k)"
  shows "delivered (Q(h := i # Q h)) (R(h := r # R h)) s s'"
proof -
  have old: "csf_responses s' ! j = csf_responses s1 ! j \<and> csf_wait_for_response s' ! j = csf_wait_for_response s1 ! j"
    if "j < length (csf_responses s)" "\<forall>k. int j \<notin> set (take (length (R k)) (Q k))" for j
    using d that unfolding delivered_def by (simp add: rs)
  have "\<forall>k. int (nat i) \<notin> set (take (length (R k)) (Q k))" using fresh i(1) by (auto dest: in_set_takeD)
  with old [of "nat i"] i have this_one: "csf_responses s' ! nat i = r" "\<not> csf_wait_for_response s' ! nat i"
    by (simp_all add: rs ws)
  have k: "length (R k) \<le> length (Q k)" "in_flight_contents (in_flight s') k = drop (length (R k)) (Q k)"
    "j < length (R k) \<Longrightarrow> csf_responses s' ! nat (Q k ! j) = R k ! j \<and> \<not> csf_wait_for_response s' ! nat (Q k ! j)" for k j
    using d unfolding delivered_def by blast+
  show ?thesis unfolding delivered_def
  proof (intro conjI allI impI)
    fix k
    show "length ((R(h := r # R h)) k) \<le> length ((Q(h := i # Q h)) k)"
      "in_flight_contents (in_flight s') k = drop (length ((R(h := r # R h)) k)) ((Q(h := i # Q h)) k)" using k(1,2) by simp_all
    fix j assume j: "j < length ((R(h := r # R h)) k)"
    have "csf_responses s' ! nat ((Q(h := i # Q h)) k ! j) = (R(h := r # R h)) k ! j \<and> \<not> csf_wait_for_response s' ! nat ((Q(h := i # Q h)) k ! j)"
      using j k(3) this_one by (cases j; cases "k = h") simp_all
    then show "csf_responses s' ! nat ((Q(h := i # Q h)) k ! j) = (R(h := r # R h)) k ! j"
      "\<not> csf_wait_for_response s' ! nat ((Q(h := i # Q h)) k ! j)" by simp_all
  next
    fix j assume j: "j < length (csf_responses s)" "\<forall>k. int j \<notin> set (take (length ((R(h := r # R h)) k)) ((Q(h := i # Q h)) k))"
    have n: "int j \<notin> set (take (length (R k)) (Q k))" for k using spec [OF j(2), of k] by (cases "k = h") simp_all
    have "nat i \<noteq> j" using spec [OF j(2), of h] i(1) by auto
    with old [of j] n j(1) show "csf_responses s' ! j = csf_responses s ! j" "csf_wait_for_response s' ! j = csf_wait_for_response s ! j"
      by (simp_all add: rs ws)
  qed
qed

lemma run_delivers:
  assumes "cs_run ops es s = Inr (tr, fin, s')" and "slots_inv s" and "\<not> csf_quit s"
  shows "delivered (\<lambda>k. in_flight_contents (in_flight s) k @ kq_pushed k tr)
    (\<lambda>k. core_answers ops k (in_flight s k \<noteq> None) es) s s'"
  using assms
proof (induction es arbitrary: s tr fin)
  case Nil
  then show ?case by (simp add: delivered_def)
next
  case (Cons e es)
  show ?case
  proof (cases e)
    case (Submit c)
    with Cons.prems(1) obtain s1 tr1 where s1: "sim_submit ops c s = Inr s1" and r: "cs_run ops es s1 = Inr (tr1, fin, s')"
      and tr: "tr = (if getXd ops c \<noteq> 0 then KPush (cmd_key ops c) (csf_pthread_wait_id s1) # tr1 else tr1)"
      by (auto simp: res_simps)
    note eff = sim_submit_Inr [OF s1 Cons.prems(3)]
    have IH: "delivered (\<lambda>k. in_flight_contents (in_flight s1) k @ kq_pushed k tr1)
        (\<lambda>k. core_answers ops k (in_flight s1 k \<noteq> None) es) s1 s'"
      using Cons.IH [OF r slots_inv_submit [OF Cons.prems(2) s1 Cons.prems(3)]] eff(2) Cons.prems(3) by simp
    have m: "in_flight s1 = (if getXd ops c \<noteq> 0 then in_flight_push (cmd_key ops c) (csf_pthread_wait_id s1) (in_flight s) else in_flight s)"
      using eff(4,5) by (cases "getXd ops c = 0") (simp_all only: if_True if_False not_True_eq_False not_False_eq_True simp_thms)
    have q: "in_flight_contents (in_flight s1) k @ kq_pushed k tr1 = in_flight_contents (in_flight s) k @ kq_pushed k tr" for k
      unfolding m tr by (simp add: resp_fifo.contents_push)
    have "in_flight s1 k \<noteq> None \<longleftrightarrow> in_flight s k \<noteq> None \<or> getXd ops c \<noteq> 0 \<and> cmd_key ops c = k" for k
      unfolding m by (simp add: in_flight_push_def split: option.split)
    then have a: "core_answers ops k (in_flight s1 k \<noteq> None) es = core_answers ops k (in_flight s k \<noteq> None) (e # es)" for k
      by (simp only: Submit core_answers.simps)
    show ?thesis using IH eff(7,8) unfolding q a by (simp add: delivered_def)
  next
    case (Respond b)
    with Cons.prems(1) obtain s1 tr1 fin1 where s1: "register_reponse ops b s = Inr s1"
      and r: "cs_run ops es s1 = Inr (tr1, fin1, s')"
      and ld: "(case in_flight s (resp_key ops b) of None \<Rightarrow> tr1 | Some q \<Rightarrow> KPop (resp_key ops b) # tr1) = tr"
      by (auto simp: res_simps split: option.splits)
    note eff = register_reponse_Inr [OF s1]
    let ?h = "resp_key ops b"
    have inv1: "slots_inv s1" by (rule slots_inv_respond [OF Cons.prems(2) s1])
    have nq: "\<not> csf_quit s1" using eff(1) Cons.prems(3) by simp
    note IH = Cons.IH [OF r inv1 nq]
    show ?thesis
    proof (cases "in_flight s ?h")
      case None
      have "core_answers ops k (in_flight s1 k \<noteq> None) es = core_answers ops k (in_flight s k \<noteq> None) (e # es)" for k
        using eff(6) [OF None] None by (auto simp: Respond)
      with IH eff(6) [OF None] ld None show ?thesis by (simp add: delivered_def)
    next
      case (Some q)
      from eff(7) [OF Some] obtain i q' where q: "q = i # q'" and i: "0 \<le> i" "i < int (length (csf_responses s))"
        "i < int (length (csf_wait_for_response s))"
        and rs: "csf_responses s1 = (csf_responses s)[nat i := unpack ops b]"
        and ws: "csf_wait_for_response s1 = (csf_wait_for_response s)[nat i := False]"
        and fl: "in_flight s1 = (in_flight s)(?h \<mapsto> q')" by blast
      let ?C = "in_flight_contents (in_flight s)" and ?Q1 = "\<lambda>k. in_flight_contents (in_flight s1) k @ kq_pushed k tr1"
      let ?R1 = "\<lambda>k. core_answers ops k (in_flight s1 k \<noteq> None) es"
      have tr: "kq_pushed k tr = kq_pushed k tr1" for k using ld Some by auto
      have C: "?C ?h = i # q'" by (simp add: in_flight_contents_def Some q)
      have C1: "in_flight_contents (in_flight s1) k = (if k = ?h then q' else ?C k)" for k by (simp add: in_flight_contents_def fl)
      have Q: "?C k @ kq_pushed k tr = (if k = ?h then i # ?Q1 k else ?Q1 k)" for k by (simp add: C C1 tr)
      have R: "core_answers ops k (in_flight s k \<noteq> None) (e # es) = (if k = ?h then unpack ops b # ?R1 k else ?R1 k)" for k
        using Some by (auto simp: Respond fl)
      have fresh: "i \<notin> set (?Q1 k)" for k
      proof -
        have inv: "distinct (?C ?h)" "\<forall>j \<in> set (?C ?h). j \<notin> set (free_slots s)"
          "k \<noteq> ?h \<Longrightarrow> set (?C k) \<inter> set (?C ?h) = {}"
          using Cons.prems(2) unfolding slots_inv_def by blast+
        have "set (kq_pushed k tr1) \<subseteq> set (free_slots s)"
          using handed_out_free [OF r nq, of k] eff(4,5) by (simp add: free_slots_def)
        with inv show ?thesis by (auto simp: C C1)
      qed
      have "(\<lambda>k. ?C k @ kq_pushed k tr) = ?Q1(?h := i # ?Q1 ?h)"
        "(\<lambda>k. core_answers ops k (in_flight s k \<noteq> None) (e # es)) = ?R1(?h := unpack ops b # ?R1 ?h)"
        by (rule ext; subst Q; simp) (rule ext; subst R; simp)
      then show ?thesis using delivered_step [OF IH i rs ws fresh] by (simp only:)
    qed
  qed
qed

section \<open>Properties\<close>

text \<open>A concrete command set: a command is its expects-a-response flag, system, core and a word.\<close>

definition demo_ops :: "(int \<times> int \<times> int \<times> u32, u32 list) rocc_ops" where
  "demo_ops = \<lparr>getXd = fst, getSystemId = (\<lambda>c. fst (snd c)), getCoreId = (\<lambda>c. fst (snd (snd c))),
     getOpcode = (\<lambda>c. 0), pack = (\<lambda>c. [snd (snd (snd c)), 2, 3, 4, 5]), unpack = (\<lambda>b. b),
     resp_system_id = (\<lambda>b. uint (b ! 0)), resp_core_id = (\<lambda>b. uint (b ! 1))\<rparr>"

definition demo_cs :: "(int \<times> int \<times> int \<times> u32, u32 list) cmd_state" where
  "demo_cs = \<lparr>csf_cmd = (0, 0, 0, 0), csf_quit = False, csf_free_list = [0, 1, 2],
     csf_free_list_idx = 2, csf_pthread_wait_id = 0, csf_responses = [[], [], []],
     csf_wait_for_response = [True, True, True], csf_processes_waiting = 0,
     csf_cmd_recieve_server_resp_lock = True, cmdserverlock = False, main_lock = True,
     bus_lock = False, kill_sig = False, cmds = [], in_flight = Map.empty\<rparr>"

definition demo_events :: "(int \<times> int \<times> int \<times> u32) cs_event list" where
  "demo_events = [Submit (1, 0, 4, 0xa), Submit (1, 0, 5, 0xb), Submit (1, 0, 4, 0xc),
     Respond [0, 4, 7], Respond [0, 5, 8], Respond [0, 4, 9]]"

lemmas demo_defs = demo_ops_def demo_cs_def demo_events_def demo_hw_def

lemma demo_run:
  "\<exists>s'. cs_run demo_ops demo_events demo_cs =
     Inr ([KPush \<lparr>scp_system = 0, scp_core = 4\<rparr> 2, KPush \<lparr>scp_system = 0, scp_core = 5\<rparr> 1,
           KPush \<lparr>scp_system = 0, scp_core = 4\<rparr> 0, KPop \<lparr>scp_system = 0, scp_core = 4\<rparr>,
           KPop \<lparr>scp_system = 0, scp_core = 5\<rparr>, KPop \<lparr>scp_system = 0, scp_core = 4\<rparr>],
          [(\<lparr>scp_system = 0, scp_core = 4\<rparr>, 2), (\<lparr>scp_system = 0, scp_core = 5\<rparr>, 1),
           (\<lparr>scp_system = 0, scp_core = 4\<rparr>, 0)], s')
     \<and> csf_responses s' = [[0, 4, 9], [0, 5, 8], [0, 4, 7]] \<and> csf_wait_for_response s' = [False, False, False]
     \<and> in_flight_contents (in_flight s') \<lparr>scp_system = 0, scp_core = 4\<rparr> = []"
  by (simp add: demo_defs cmd_server_defs register_reponse_def nth_res_def upd_res_def mutex_lock_def
      in_flight_push_def in_flight_contents_def q_push_def)

lemma demo_cs_inv: "slots_inv demo_cs"
  by (simp add: slots_inv_def demo_cs_def free_slots_def slot_ok_def in_flight_contents_def
      numeral_3_eq_3)

text \<open>C1: responses are routed to the slots of their commands. Take any interleaving of submissions and hardware responses, from a state with
  well-formed slots, in which no call fails. For every core, let its slots be those outstanding at the start, oldest first, and then those the
  server hands out to clients (\<open>pthread_wait_id\<close>), and its responses those the hardware sends for it once it has had a command. Then the \<open>j\<close>-th
  response of a core is at the end in \<open>responses\<close> at the core's \<open>j\<close>-th slot, whose waiting client is released; the slots left over are
  still outstanding, in order; and every other slot of both arrays holds what it held, so that no response goes to another command.
  Clients give slots back between such runs.\<close>

theorem response_routing:
  assumes "cs_run ops es s = Inr (tr, fin, s')" and "slots_inv s" and "\<not> csf_quit s"
  shows "delivered (\<lambda>k. in_flight_contents (in_flight s) k @ kq_pushed k tr) (\<lambda>k. core_answers ops k (in_flight s k \<noteq> None) es) s s'"
  by (rule run_delivers [OF assms])

theorem response_routing_witness:
  "\<exists>tr fin s'. cs_run demo_ops demo_events demo_cs = Inr (tr, fin, s')
     \<and> csf_responses s' ! 2 = [0, 4, 7] \<and> csf_responses s' ! 0 = [0, 4, 9] \<and> \<not> csf_wait_for_response s' ! 2"
proof -
  let ?k = "\<lparr>scp_system = 0, scp_core = 4\<rparr>"
  have nq: "\<not> csf_quit demo_cs" and e: "in_flight_contents (in_flight demo_cs) ?k = []" "in_flight demo_cs ?k = None"
    by (simp_all add: demo_cs_def in_flight_contents_def)
  from demo_run obtain tr fin s' where r: "cs_run demo_ops demo_events demo_cs = Inr (tr, fin, s')" and p: "kq_pushed ?k tr = [2, 0]"
    by auto
  have a: "core_answers demo_ops ?k False demo_events = [[0, 4, 7], [0, 4, 9]]"
    by (simp add: demo_defs cmd_key_def resp_key_def)
  from response_routing [OF r demo_cs_inv nq, unfolded delivered_def, THEN conjunct1, THEN spec, of ?k]
  have "\<forall>j < 2. csf_responses s' ! nat ([2, 0] ! j) = [[0, 4, 7], [0, 4, 9]] ! j \<and> \<not> csf_wait_for_response s' ! nat ([2, 0] ! j)"
    by (simp add: e p a numeral_2_eq_2)
  from this [THEN spec, of 0] this [THEN spec, of 1] r show ?thesis by auto
qed

text \<open>No two commands share a response slot. Along every run, the slots of all outstanding commands
  and the slots still free are pairwise different and index the response arrays.\<close>

theorem response_slots_exclusive:
  assumes "slots_inv s" and "\<not> csf_quit s" and "cs_run ops es s = Inr (tr, fin, s')"
  shows "slots_inv s'"
  by (rule slots_inv_run [OF assms(3,1,2)])

theorem response_slots_exclusive_witness:
  "\<exists>tr fin s'. cs_run demo_ops demo_events demo_cs = Inr (tr, fin, s') \<and> slots_inv s'"
proof -
  have "\<not> csf_quit demo_cs" by (simp add: demo_cs_def)
  with demo_run response_slots_exclusive [OF demo_cs_inv] show ?thesis by blast
qed

text \<open>What makes a submission fail. With the mutex free and the slots well-formed, a turn of the
  server completes exactly when the command needs no response or a slot is free; with no slot left it
  reads \<open>free_list[-1]\<close>.\<close>

theorem submit_needs_slot:
  assumes "slots_inv s" and "\<not> csf_quit s" and "\<not> cmdserverlock s"
  shows "(is_ok (sim_submit ops c s) \<longleftrightarrow> getXd ops c = 0 \<or> free_slots s \<noteq> [])
    \<and> (getXd ops c \<noteq> 0 \<and> free_slots s = [] \<longrightarrow> sim_submit ops c s = Inl Out_of_range)"
proof -
  note [simp] = cmd_server_defs Let_def mutex_lock_def
  have len: "- 1 \<le> csf_free_list_idx s" "csf_free_list_idx s < int (length (csf_free_list s))"
    using assms(1) by (simp_all add: slots_inv_def)
  then have empty: "free_slots s = [] \<longleftrightarrow> csf_free_list_idx s = -1"
    by (auto simp: free_slots_def)
  have none: "getXd ops c \<noteq> 0 \<Longrightarrow> free_slots s = [] \<Longrightarrow> sim_submit ops c s = Inl Out_of_range"
    using empty by (simp add: nth_res_def)
  have some: "is_ok (sim_submit ops c s)" if "getXd ops c \<noteq> 0" "free_slots s \<noteq> []"
  proof -
    have idx: "0 \<le> csf_free_list_idx s" using len(1) empty that(2) by linarith
    let ?i = "csf_free_list s ! nat (csf_free_list_idx s)"
    have "?i \<in> set (free_slots s)"
      using free_slots_pop [of s "s\<lparr>csf_free_list_idx := csf_free_list_idx s - 1\<rparr>"] idx len(2) by simp
    then have "?i \<noteq> 0xffff" using assms(1) by (auto simp: slots_inv_def slot_ok_def)
    then show ?thesis using that(1) idx len(2) assms(2,3) by (simp add: nth_res_def)
  qed
  have "is_ok (sim_submit ops c s)" if "getXd ops c = 0"
    using that assms(2,3) by simp
  with some none show ?thesis by (metis is_ok.simps(1))
qed

theorem submit_needs_slot_witness:
  "is_ok (sim_submit demo_ops (1, 0, 4, 7) demo_cs)
   \<and> sim_submit demo_ops (1, 0, 4, 7) (demo_cs\<lparr>csf_free_list_idx := -1\<rparr>) = Inl Out_of_range"
proof -
  have "slots_inv (demo_cs\<lparr>csf_free_list_idx := -1\<rparr>)"
    by (simp add: slots_inv_def demo_cs_def free_slots_def in_flight_contents_def)
  then have "sim_submit demo_ops (1, 0, 4, 7) (demo_cs\<lparr>csf_free_list_idx := -1\<rparr>) = Inl Out_of_range"
    by (rule submit_needs_slot [THEN conjunct2, THEN mp]) (simp_all add: demo_defs free_slots_def)
  moreover have "is_ok (sim_submit demo_ops (1, 0, 4, 7) demo_cs)"
    by (subst submit_needs_slot [OF demo_cs_inv, THEN conjunct1]) (simp_all add: demo_defs free_slots_def)
  ultimately show ?thesis by blast
qed

text \<open>The branches of \<open>register_reponse\<close>. With well-formed slots, a response of a core that has an
  outstanding command completes its oldest one and no other; a response of a core that never had a
  command writes nothing and releases \<open>main_lock\<close>, which ends the program; one more response than a
  core has commands is a \<open>front\<close> of an empty queue.\<close>

theorem register_reponse_branches:
  assumes "slots_inv s" and "\<not> cmdserverlock s"
  shows "case in_flight s (resp_key ops b) of
      None \<Rightarrow> register_reponse ops b s = Inr (s\<lparr>main_lock := False\<rparr>)
    | Some [] \<Rightarrow> register_reponse ops b s = Inl Empty_queue
    | Some (i # q) \<Rightarrow> register_reponse ops b s =
        Inr (s\<lparr>csf_responses := (csf_responses s)[nat i := unpack ops b],
               csf_wait_for_response := (csf_wait_for_response s)[nat i := False],
               in_flight := (in_flight s)(resp_key ops b \<mapsto> q)\<rparr>)"
proof (cases "in_flight s (resp_key ops b)")
  case None
  with assms(2) show ?thesis
    by (simp add: register_reponse_def resp_key_def Let_def mutex_lock_def)
next
  case (Some q)
  show ?thesis
  proof (cases q)
    case Nil
    with Some assms(2) show ?thesis
      by (simp add: register_reponse_def resp_key_def Let_def mutex_lock_def)
  next
    case (Cons i q')
    with Some have "i \<in> set (in_flight_contents (in_flight s) (resp_key ops b))"
      by (simp add: in_flight_contents_def)
    with assms(1) have "slot_ok s i" and "length (csf_wait_for_response s) = length (csf_responses s)"
      unfolding slots_inv_def by blast+
    with Some Cons assms(2) show ?thesis
      by (simp add: register_reponse_def resp_key_def Let_def mutex_lock_def upd_res_def slot_ok_def)
  qed
qed

theorem register_reponse_branches_witness:
  "register_reponse demo_ops [3, 3, 0] demo_cs = Inr (demo_cs\<lparr>main_lock := False\<rparr>)"
  using register_reponse_branches [OF demo_cs_inv, of demo_ops "[3, 3, 0]"]
  by (simp add: demo_defs resp_key_def)

text \<open>C36: shutdown leaves \<open>cmdserverlock\<close> locked. When a turn of the server sees \<open>quit\<close> it returns with
  the mutex held, and every later response blocks in \<open>register_reponse\<close>.\<close>

theorem quit_blocks_responses:
  assumes "cmd_server_iteration n tgt hw w dev ops d s = Inr (d', Exited, s')"
  shows "csf_quit s \<and> \<not> main_lock s' \<and> register_reponse ops b s' = Inl Blocked"
  using assms
  by (auto simp: cmd_server_defs register_reponse_def Let_def res_simps mutex_lock_def split: if_splits)

theorem quit_blocks_responses_witness:
  "register_reponse demo_ops [0, 4, 1] (cmd_server_quit Target_sim
      (demo_cs\<lparr>csf_quit := True, csf_pthread_wait_id := 0xffff, cmdserverlock := True\<rparr>)) = Inl Blocked"
  using quit_blocks_responses [of 0 Target_sim demo_hw 32 demo_device demo_ops "(False, [])" "demo_cs\<lparr>csf_quit := True\<rparr>"
      "(False, [])" "cmd_server_quit Target_sim
      (demo_cs\<lparr>csf_quit := True, csf_pthread_wait_id := 0xffff, cmdserverlock := True\<rparr>)" "[0, 4, 1]"]
  by (simp add: demo_defs cmd_server_defs mutex_lock_def)

text \<open>C32: one turn of the server on an FPGA build. With a responsive device, the turn returns; the device
  receives exactly the words of the packed command, in order; the poller is woken exactly when the
  command expects a response, and then the command's slot is queued behind the others of its core.\<close>

theorem fpga_command_turn:
  assumes "tgt \<noteq> Target_sim" and dev: "polls_bounded dev (CMD_READY hw) n" "pokes_succeed dev"
    and "nat (num_cmd_beats w) \<le> length (pack ops (csf_cmd s))"
    and "slots_inv s" and "\<not> csf_quit s" and "\<not> cmdserverlock s" and "\<not> bus_lock s"
    and "getXd ops (csf_cmd s) \<noteq> 0" and "free_slots s \<noteq> []"
  shows "\<exists>d' s'. cmd_server_iteration n tgt hw w (logged dev) ops (d, []) s =
      Inr ((d', concat (map (\<lambda>x. [(ucast (CMD_BITS hw), x), (ucast (CMD_VALID hw), 1)])
                         (take (nat (num_cmd_beats w)) (pack ops (csf_cmd s))))), Running, s')
    \<and> csf_processes_waiting s' = Suc (csf_processes_waiting s)
    \<and> csf_pthread_wait_id s' = last (free_slots s)
    \<and> in_flight s' = in_flight_push (cmd_key ops (csf_cmd s)) (last (free_slots s)) (in_flight s)
    \<and> \<not> bus_lock s' \<and> \<not> cmdserverlock s'"
proof -
  have idx: "0 \<le> csf_free_list_idx s" "csf_free_list_idx s < int (length (csf_free_list s))"
    using assms(5,10) by (auto simp: slots_inv_def free_slots_def)
  let ?i = "csf_free_list s ! nat (csf_free_list_idx s)"
  have i: "last (free_slots s) = ?i" and mem: "?i \<in> set (free_slots s)"
    using free_slots_pop [of s "s\<lparr>csf_free_list_idx := csf_free_list_idx s - 1\<rparr>"] idx by simp_all
  from mem have ne: "?i \<noteq> 0xffff" using assms(5) by (auto simp: slots_inv_def slot_ok_def)
  from send_beats_log [OF assms(1) dev, of 0 "nat (num_cmd_beats w)" "pack ops (csf_cmd s)" d "[]"] assms(4)
  obtain d' where sb: "send_beats n tgt hw (logged dev) (pack ops (csf_cmd s)) 0 (nat (num_cmd_beats w)) (d, []) =
      Inr (d', concat (map (\<lambda>x. [(ucast (CMD_BITS hw), x), (ucast (CMD_VALID hw), 1)])
                         (take (nat (num_cmd_beats w)) (pack ops (csf_cmd s)))))" by auto
  show ?thesis
    using assms(1,6-9) idx ne
    by (simp add: cmd_server_iteration_def alloc_response_slot_def deliver_command_def
        register_in_flight_def Let_def mutex_lock_def nth_res_def sb i cmd_key_def)
qed

theorem fpga_command_turn_witness:
  "\<exists>d' s'. cmd_server_iteration 2 Target_F2 demo_hw 32 (logged demo_device) demo_ops ((False, []), [])
        (demo_cs\<lparr>csf_cmd := (1, 0, 4, 0xa)\<rparr>) =
      Inr ((d', concat (map (\<lambda>x. [(0x10, x), (0x14, 1)]) [0xa, 2, 3, 4, 5])), Running, s')
    \<and> csf_processes_waiting s' = 1 \<and> csf_pthread_wait_id s' = 2"
proof -
  have b: "nat (num_cmd_beats 32) = 5"
    by (simp add: num_cmd_beats_def roundUp_def float_to_int_def)
  have inv: "slots_inv (demo_cs\<lparr>csf_cmd := (1, 0, 4, 0xa)\<rparr>)"
    using demo_cs_inv by (simp add: slots_inv_def slot_ok_def free_slots_def)
  show ?thesis
    using fpga_command_turn [of Target_F2 demo_device demo_hw 2 32 demo_ops
        "demo_cs\<lparr>csf_cmd := (1, 0, 4, 0xa)\<rparr>" "(False, [])", OF _ demo_device_polls demo_device_pokes _ inv]
    unfolding b by (simp add: demo_defs free_slots_def) blast
qed

end
