(* ===== verification/Data_Server.thy ===== *)
theory Data_Server
  imports Address_Translator Mmio_Backend
begin

text \<open>
  The data server (src/data_server.cc, include/data_server.h): the thread that allocates, frees and
  moves client memory and, on Kria, forwards cache coherence commands.

  One turn of the \<open>while\<close> loop of \<open>data_server_f\<close> is \<open>data_server_iteration\<close>. The record \<open>data_state\<close>
  holds the shared file \<open>dsf\<close> (fields \<open>dsf_...\<close>), the translator \<open>at\<close>, the host memory and the
  globals. The results of the system calls are inputs (\<open>os_results\<close>), as is the sequence of values of
  \<open>rand\<close>; the device allocator and the XDMA driver are not part of the repository and are the
  parameters \<open>allocator_ops\<close> and \<open>xdma_device\<close>. The preprocessor symbols that select code are the
  record \<open>build\<close>. A block of DMA work handed to the simulation is appended to \<open>dma_posts\<close>; the server
  then waits until the simulation has finished it. Logging and cache maintenance instructions are
  left out.
\<close>

section \<open>Model\<close>

datatype data_server_op =
    ALLOC | FREE | MOVE_TO_FPGA | MOVE_FROM_FPGA
  | INVALIDATE_REGION | CLEAN_INVALIDATE_REGION | RELEASE_COHERENCE_BARRIER | ADD_TO_COHERENCE_MANAGER

record build =
  bld_target :: target
  bld_vpi :: bool                     \<comment> \<open>\<open>SIM\<close> without \<open>USE_VERILATOR\<close>\<close>
  bld_has_dma :: bool                 \<comment> \<open>\<open>BEETHOVEN_HAS_DMA\<close>\<close>
  bld_has_coherence :: bool           \<comment> \<open>\<open>HAS_COHERENCE\<close>\<close>
  COHERENCE_OP_INVALIDATE :: u32
  COHERENCE_OP_CLEAN_INVALIDATE :: u32
  COHERENCE_OP_ADD :: u32
  COHERENCE_OP_BARRIER_RELEASE :: u32

record 'a allocator_ops =
  allocator_malloc :: "u64 \<Rightarrow> 'a \<Rightarrow> u64 \<times> 'a"
  allocator_free :: "u64 \<Rightarrow> 'a \<Rightarrow> 'a"

text \<open>A burst read fills a buffer, which it is given with its old contents.\<close>

record 'x xdma_device =
  fpga_dma_burst_write :: "u8 list \<Rightarrow> u64 \<Rightarrow> 'x \<Rightarrow> int \<times> 'x"
  fpga_dma_burst_read :: "u8 list \<Rightarrow> u64 \<Rightarrow> 'x \<Rightarrow> int \<times> u8 list \<times> 'x"

text \<open>What the system calls of one turn return; \<open>os_malloc\<close> is the contents of fresh \<open>malloc\<close> memory.\<close>

record os_results =
  os_nfd :: int
  os_ftruncate :: int
  os_mmap :: u64
  os_malloc :: "nat \<Rightarrow> u8"
  os_rand :: "nat \<Rightarrow> nat"

record dma_chunk =
  dma_len :: u64
  dma_ptr :: u64
  dma_fpga_addr :: u64
  dma_write :: bool

record ('a, 'd, 'x) data_state =
  dsf_operation :: data_server_op
  dsf_op_argument :: u64
  dsf_op2_argument :: u64
  dsf_op3_argument :: u64
  dsf_resp_id :: int
  dsf_fname :: string
  dsf_data_cmd_recieve_resp_lock :: bool
  at_mappings :: mappings
  host_mem :: bytes
  available_ids :: "u16 list"
  allocator_state :: 'a
  mmio_state :: 'd
  xdma_state :: 'x
  ds_bus_lock :: bool
  dma_posts :: "dma_chunk list"

definition data_server_open :: "int \<Rightarrow> nat \<Rightarrow> nat \<Rightarrow> int \<Rightarrow> nat res" where
  "data_server_open fd st_size file_size tr_rc =
     (if fd < 0 then Inl Std_exception
      else if st_size < file_size then
        (if tr_rc \<noteq> 0 then Inl Std_exception else Inr file_size)
      else Inr st_size)"

text \<open>The coherence segment ids that are free at start-up.\<close>

definition initial_available_ids :: "nat \<Rightarrow> u16 list" where
  "initial_available_ids has_coherence = map of_nat [0..<has_coherence]"

subsection \<open>Allocation\<close>

definition memset :: "bytes \<Rightarrow> u64 \<Rightarrow> u8 \<Rightarrow> u64 \<Rightarrow> bytes res" where
  "memset mem p v n =
     (if n = 0 then Inr mem
      else if p = 0 \<or> p = MAP_FAILED then Inl Null_pointer
      else Inr (mem_write mem p (replicate (unat n) v)))"

fun to_string :: "nat \<Rightarrow> string" where
  "to_string n = (if n < 10 then [''0123456789'' ! n] else to_string (n div 10) @ [''0123456789'' ! (n mod 10)])"

declare to_string.simps [simp del]

definition ds_alloc ::
  "build \<Rightarrow> 'a allocator_ops option \<Rightarrow> os_results \<Rightarrow> ('a, 'd, 'x) data_state \<Rightarrow> ('a, 'd, 'x) data_state res" where
  "ds_alloc bld al os s =
     (if bld_target bld = Target_Kria then Inr s
      else
        (let fname = ''/beethoven_file_'' @ to_string (os_rand os 0)
         in if os_nfd os < 0 then Inl Std_exception
            else if os_ftruncate os \<noteq> 0 then Inl Std_exception
            else
              (let naddr = os_mmap os
               in if naddr = 0 then Inl Std_exception
                  else
                    rbind (memset (host_mem s) naddr 0 (dsf_op_argument s)) (\<lambda>mem.
                    (let s = s\<lparr>host_mem := mem, dsf_fname := fname\<rparr>;
                         (fpga_addr, as) =
                           (case al of
                              Some ops \<Rightarrow> allocator_malloc ops (dsf_op_argument s) (allocator_state s)
                            | None \<Rightarrow> (naddr, allocator_state s))
                     in Inr (s\<lparr>allocator_state := as,
                               at_mappings := add_mapping fpga_addr (dsf_op_argument s) naddr (at_mappings s),
                               dsf_op_argument := fpga_addr\<rparr>))))))"

definition ds_free ::
  "'a allocator_ops option \<Rightarrow> ('a, 'd, 'x) data_state \<Rightarrow> ('a, 'd, 'x) data_state res" where
  "ds_free al s =
     (let s = (case al of
                 Some ops \<Rightarrow> s\<lparr>allocator_state := allocator_free ops (dsf_op_argument s) (allocator_state s)\<rparr>
               | None \<Rightarrow> s)
      in rbind (get_mapping (at_mappings s) (dsf_op_argument s)) (\<lambda>_.
         rbind (remove_mapping (dsf_op_argument s) (at_mappings s)) (\<lambda>ms.
         Inr (s\<lparr>at_mappings := ms\<rparr>))))"

subsection \<open>Transfers of a simulation build\<close>

text \<open>The DMA loop. \<open>rnd i\<close> is the \<open>i\<close>-th value of \<open>rand\<close>. A remaining amount below 64 makes the divisor of
  the remainder zero.\<close>

function dma_loop ::
  "(nat \<Rightarrow> nat) \<Rightarrow> nat \<Rightarrow> bool \<Rightarrow> u64 \<Rightarrow> u64 \<Rightarrow> u64 \<Rightarrow> dma_chunk list res" where
  "dma_loop rnd i wr amt_left ptr1 ptr2 =
     (if amt_left = 0 then Inr []
      else
        (let m = min 64 (drop_bit 6 amt_left)
         in if m = 0 then Inl Div_by_zero
            else
              (let n_beats_here = max 1 (of_nat (rnd i) mod m);
                   chunk = \<lparr>dma_len = 64 * n_beats_here, dma_ptr = ptr1, dma_fpga_addr = ptr2, dma_write = wr\<rparr>
               in rbind (dma_loop rnd (Suc i) wr (amt_left - n_beats_here * 64)
                           (ptr1 + 64 * n_beats_here) (ptr2 + 64 * n_beats_here)) (\<lambda>cs.
                  Inr (chunk # cs)))))"
  by pat_completeness auto

lemma dma_beats_bounds:
  fixes amt :: u64
  assumes "drop_bit 6 amt \<noteq> 0"
  shows "1 \<le> unat (max 1 (w mod min 64 (drop_bit 6 amt)))"
    and "unat (max 1 (w mod min 64 (drop_bit 6 amt))) \<le> 63 \<or> unat (max 1 (w mod min 64 (drop_bit 6 amt))) = 1"
    and "64 * unat (max 1 (w mod min 64 (drop_bit 6 amt))) \<le> unat amt"
proof -
  let ?m = "min 64 (drop_bit 6 amt)"
  have q: "unat (drop_bit 6 amt) = unat amt div 64"
    by (simp add: drop_bit_eq_div unat_div_distrib)
  have m: "?m \<noteq> 0" "unat ?m \<le> 64" "unat ?m \<le> unat amt div 64"
    using assms q by (auto simp: min_def word_le_nat_alt)
  have r: "unat (w mod ?m) < unat ?m" using m(1) by (simp add: unat_mod_distrib unat_gt_0)
  have x: "unat (max 1 (w mod ?m)) = max 1 (unat (w mod ?m))"
    by (auto simp: max_def word_le_nat_alt)
  show "1 \<le> unat (max 1 (w mod ?m))" using x by simp
  show "unat (max 1 (w mod ?m)) \<le> 63 \<or> unat (max 1 (w mod ?m)) = 1" using x r m(2) by linarith
  have "1 \<le> unat ?m" using m(1) by (simp add: Suc_leI unat_gt_0)
  then have "unat (max 1 (w mod ?m)) \<le> unat amt div 64" using x r m(3) by linarith
  then show "64 * unat (max 1 (w mod ?m)) \<le> unat amt" by linarith
qed

lemma unat_sub_beats:
  fixes amt n :: u64
  assumes "64 * unat n \<le> unat amt"
  shows "unat (64 * n) = 64 * unat n" and "unat (amt - n * 64) = unat amt - 64 * unat n"
proof -
  have "unat amt < 2 ^ 64" using unsigned_less [of amt] by simp
  with assms show 1: "unat (64 * n) = 64 * unat n" by (simp add: unat_word_ariths)
  with assms show "unat (amt - n * 64) = unat amt - 64 * unat n"
    by (simp add: unat_sub word_le_nat_alt mult.commute)
qed

termination dma_loop
proof (relation "measure (\<lambda>(rnd, i, wr, amt, p, q). unat amt)", goal_cases)
  case 1
  show ?case by simp
next
  case (2 rnd i wr amt p q m n c)
  then have ne: "drop_bit 6 amt \<noteq> 0" by (auto simp: min_def split: if_splits)
  from dma_beats_bounds [OF ne, of "of_nat (rnd i)"] unat_sub_beats(2) [of n amt] 2
  show ?case by simp
qed

declare dma_loop.simps [simp del]

definition ds_move_to_sim ::
  "build \<Rightarrow> os_results \<Rightarrow> ('a, 'd, 'x) data_state \<Rightarrow> ('a, 'd, 'x) data_state res" where
  "ds_move_to_sim bld os s =
     rbind (get_mapping (at_mappings s) (dsf_op_argument s)) (\<lambda>_.
     if bld_has_dma bld then
       rbind (translate (bld_vpi bld) (at_mappings s) (dsf_op_argument s)) (\<lambda>ptr1.
       rbind (dma_loop (os_rand os) 0 True (dsf_op3_argument s) ptr1 (dsf_op_argument s)) (\<lambda>cs.
       Inr (s\<lparr>dma_posts := dma_posts s @ cs\<rparr>)))
     else Inr s)"

definition ds_move_from_sim ::
  "build \<Rightarrow> os_results \<Rightarrow> ('a, 'd, 'x) data_state \<Rightarrow> ('a, 'd, 'x) data_state res" where
  "ds_move_from_sim bld os s =
     rbind (get_mapping (at_mappings s) (dsf_op2_argument s)) (\<lambda>_.
     if bld_has_dma bld then
       rbind (translate (bld_vpi bld) (at_mappings s) (dsf_op2_argument s)) (\<lambda>ptr1.
       rbind (dma_loop (os_rand os) 0 False (dsf_op3_argument s) ptr1 (dsf_op2_argument s)) (\<lambda>cs.
       Inr (s\<lparr>dma_posts := dma_posts s @ cs\<rparr>)))
     else Inr s)"

subsection \<open>Transfers of a discrete FPGA build\<close>

text \<open>The wrappers of src/fpga_utils.c: without XDMA they report success and transfer nothing.\<close>

definition wrapper_fpga_dma_burst_write ::
  "target \<Rightarrow> 'x xdma_device \<Rightarrow> u8 list \<Rightarrow> u64 \<Rightarrow> 'x \<Rightarrow> int \<times> 'x" where
  "wrapper_fpga_dma_burst_write tgt xd buffer address x =
     (if use_XDMA tgt then fpga_dma_burst_write xd buffer address x else (0, x))"

definition wrapper_fpga_dma_burst_read ::
  "target \<Rightarrow> 'x xdma_device \<Rightarrow> u8 list \<Rightarrow> u64 \<Rightarrow> 'x \<Rightarrow> int \<times> u8 list \<times> 'x" where
  "wrapper_fpga_dma_burst_read tgt xd buffer address x =
     (if use_XDMA tgt then fpga_dma_burst_read xd buffer address x else (0, buffer, x))"

definition ds_move_from_fpga ::
  "build \<Rightarrow> 'x xdma_device \<Rightarrow> os_results \<Rightarrow> ('a, 'd, 'x) data_state \<Rightarrow> ('a, 'd, 'x) data_state res" where
  "ds_move_from_fpga bld xd os s =
     rbind (translate (bld_vpi bld) (at_mappings s) (dsf_op2_argument s)) (\<lambda>shaddr.
     (let n = unat (dsf_op3_argument s);
          mem = map (os_malloc os) [0..<n];
          (rc, mem, x) = wrapper_fpga_dma_burst_read (bld_target bld) xd mem (dsf_op2_argument s) (xdma_state s);
          s = s\<lparr>xdma_state := x, host_mem := mem_write (host_mem s) shaddr (take n mem)\<rparr>
      in if rc \<noteq> 0 then Inl (Exit 1) else Inr s))"

definition ds_move_to_fpga ::
  "build \<Rightarrow> 'x xdma_device \<Rightarrow> ('a, 'd, 'x) data_state \<Rightarrow> ('a, 'd, 'x) data_state res" where
  "ds_move_to_fpga bld xd s =
     rbind (translate (bld_vpi bld) (at_mappings s) (dsf_op_argument s)) (\<lambda>shaddr.
     (let n = unat (dsf_op3_argument s);
          (rc, x) = wrapper_fpga_dma_burst_write (bld_target bld) xd
                      (mem_read (host_mem s) shaddr n) (dsf_op_argument s) (xdma_state s)
      in if rc \<noteq> 0 then Inl (Exit 1) else Inr (s\<lparr>xdma_state := x\<rparr>)))"

text \<open>The self test at start-up: 256 words \<open>0xCAFEBEEF\<close> (little endian) are written and read back into a
  cleared buffer.\<close>

definition sanity_bytes :: "u8 list" where
  "sanity_bytes = concat (replicate 256 [0xEF, 0xBE, 0xFE, 0xCA])"

definition xdma_sanity_check :: "target \<Rightarrow> 'x xdma_device \<Rightarrow> 'x \<Rightarrow> 'x res" where
  "xdma_sanity_check tgt xd x =
     (let (rc, x) = wrapper_fpga_dma_burst_write tgt xd sanity_bytes 0xDEAD0000 x
      in if rc \<noteq> 0 then Inl Std_exception
         else
           (let (rc, buf, x) = wrapper_fpga_dma_burst_read tgt xd (replicate 1024 0) 0xDEAD0000 x
            in if rc \<noteq> 0 then Inl Std_exception
               else if buf \<noteq> sanity_bytes then Inl Std_exception
               else Inr x))"

subsection \<open>Coherence commands (Kria)\<close>

definition coherence_beat ::
  "nat \<Rightarrow> target \<Rightarrow> hw_map \<Rightarrow> 'd mmio_device \<Rightarrow> u32 \<Rightarrow> 'd \<Rightarrow> 'd res" where
  "coherence_beat polls tgt hw dev w d =
     rbind (spin_ready polls tgt dev (COHERENCE_READY hw) d) (\<lambda>d.
     rbind (poke_mmio tgt dev (ucast (COHERENCE_BITS hw)) w d) (\<lambda>d.
     poke_mmio tgt dev (ucast (COHERENCE_VALID hw)) 1 d))"

fun coherence_beats ::
  "nat \<Rightarrow> target \<Rightarrow> hw_map \<Rightarrow> 'd mmio_device \<Rightarrow> u32 list \<Rightarrow> 'd \<Rightarrow> 'd res" where
  "coherence_beats polls tgt hw dev [] d = Inr d"
| "coherence_beats polls tgt hw dev (w # ws) d =
     rbind (coherence_beat polls tgt hw dev w d) (\<lambda>d. coherence_beats polls tgt hw dev ws d)"

definition coherence_command :: "build \<Rightarrow> data_server_op \<Rightarrow> u16 \<Rightarrow> u32" where
  "coherence_command bld operation rid =
     (let command = (case operation of
            INVALIDATE_REGION \<Rightarrow> COHERENCE_OP_INVALIDATE bld
          | CLEAN_INVALIDATE_REGION \<Rightarrow> COHERENCE_OP_CLEAN_INVALIDATE bld
          | ADD_TO_COHERENCE_MANAGER \<Rightarrow> COHERENCE_OP_ADD bld
          | RELEASE_COHERENCE_BARRIER \<Rightarrow> COHERENCE_OP_BARRIER_RELEASE bld
          | _ \<Rightarrow> 0)
      in or command (push_bit 2 (and (ucast rid) 0xFFFF)))"

text \<open>The two halves of a 64-bit argument, low half first.\<close>

definition arg_words :: "u64 \<Rightarrow> u32 list" where
  "arg_words a = [ucast a, ucast (drop_bit 32 a)]"

definition coherence_id :: "('a, 'd, 'x) data_state \<Rightarrow> (u16 \<times> ('a, 'd, 'x) data_state) res" where
  "coherence_id s =
     (if dsf_operation s = ADD_TO_COHERENCE_MANAGER then
        (if available_ids s = [] then Inl Empty_queue
         else Inr (last (available_ids s), s\<lparr>available_ids := butlast (available_ids s)\<rparr>))
      else Inr (ucast (dsf_op_argument s), s))"

definition ds_coherence ::
  "nat \<Rightarrow> build \<Rightarrow> hw_map \<Rightarrow> 'd mmio_device \<Rightarrow> ('a, 'd, 'x) data_state \<Rightarrow> ('a, 'd, 'x) data_state res" where
  "ds_coherence polls bld hw dev s =
     rbind (coherence_id s) (\<lambda>(rid, s).
     if uint rid < 0 \<and> dsf_operation s \<noteq> RELEASE_COHERENCE_BARRIER then Inr (s\<lparr>dsf_resp_id := -1\<rparr>)
     else
       rbind (mutex_lock (ds_bus_lock s)) (\<lambda>_.
       rbind (coherence_beats polls (bld_target bld) hw dev
                (arg_words (dsf_op_argument s) @ arg_words (dsf_op2_argument s) @
                 [coherence_command bld (dsf_operation s) rid]) (mmio_state s)) (\<lambda>d.
       Inr (s\<lparr>mmio_state := d, ds_bus_lock := False, dsf_resp_id := uint rid\<rparr>))))"

subsection \<open>The server loop\<close>

record ('a, 'd, 'x) ds_env =
  env_build :: build
  env_polls :: nat
  env_hw :: hw_map
  env_dev :: "'d mmio_device"
  env_xdma :: "'x xdma_device"
  env_alloc :: "'a allocator_ops option"

text \<open>The \<open>switch\<close>; an operation the build has no \<open>case\<close> for falls out of it.\<close>

definition data_server_switch ::
  "('a, 'd, 'x) ds_env \<Rightarrow> os_results \<Rightarrow> ('a, 'd, 'x) data_state \<Rightarrow> ('a, 'd, 'x) data_state res" where
  "data_server_switch env os s =
     (let bld = env_build env; tgt = bld_target bld
      in case dsf_operation s of
           ALLOC \<Rightarrow> ds_alloc bld (env_alloc env) os s
         | FREE \<Rightarrow> ds_free (env_alloc env) s
         | MOVE_TO_FPGA \<Rightarrow>
             if tgt = Target_sim then ds_move_to_sim bld os s
             else if tgt = Target_Kria then Inr s
             else ds_move_to_fpga bld (env_xdma env) s
         | MOVE_FROM_FPGA \<Rightarrow>
             if tgt = Target_sim then ds_move_from_sim bld os s
             else if tgt = Target_Kria then Inr s
             else ds_move_from_fpga bld (env_xdma env) os s
         | _ \<Rightarrow>
             if tgt = Target_Kria \<and> bld_has_coherence bld
             then ds_coherence (env_polls env) bld (env_hw env) (env_dev env) s
             else Inr s)"

definition data_server_iteration ::
  "('a, 'd, 'x) ds_env \<Rightarrow> os_results \<Rightarrow> ('a, 'd, 'x) data_state \<Rightarrow> ('a, 'd, 'x) data_state res" where
  "data_server_iteration env os s =
     rbind (data_server_switch env os s) (\<lambda>s. Inr (s\<lparr>dsf_data_cmd_recieve_resp_lock := False\<rparr>))"

section \<open>The DMA loop\<close>

text \<open>A list of blocks that covers \<open>n\<close> bytes without gap or overlap, in both address spaces, in blocks of
  at most 63 beats of 64 bytes.\<close>

fun tiles :: "bool \<Rightarrow> dma_chunk list \<Rightarrow> u64 \<Rightarrow> u64 \<Rightarrow> nat \<Rightarrow> bool" where
  "tiles wr [] p q n = (n = 0)"
| "tiles wr (c # cs) p q n =
     (dma_write c = wr \<and> dma_ptr c = p \<and> dma_fpga_addr c = q
      \<and> 0 < dma_len c \<and> 64 dvd unat (dma_len c) \<and> unat (dma_len c) \<le> 63 * 64 \<and> unat (dma_len c) \<le> n
      \<and> tiles wr cs (p + dma_len c) (q + dma_len c) (n - unat (dma_len c)))"

lemma dma_loop_aligned:
  "64 dvd unat amt \<Longrightarrow> \<exists>cs. dma_loop rnd i wr amt p q = Inr cs \<and> tiles wr cs p q (unat amt)"
proof (induction rnd i wr amt p q rule: dma_loop.induct)
  case (1 rnd i wr amt p q)
  show ?case
  proof (cases "amt = 0")
    case True
    then show ?thesis by (simp add: dma_loop.simps)
  next
    case False
    then have "unat amt \<noteq> 0" by (simp add: unat_eq_0)
    with 1(2) have "unat amt div 64 \<noteq> 0" by (auto elim!: dvdE)
    moreover have "unat (drop_bit 6 amt) = unat amt div 64" by (simp add: drop_bit_eq_div unat_div_distrib)
    ultimately have ne: "drop_bit 6 amt \<noteq> 0" by (metis unat_0)
    then have m: "min 64 (drop_bit 6 amt) \<noteq> 0" by (simp add: min_def)
    define n where "n = max 1 (of_nat (rnd i) mod min 64 (drop_bit 6 amt))"
    note b = dma_beats_bounds [OF ne, of "of_nat (rnd i)", folded n_def]
    note u = unat_sub_beats [OF b(3)]
    have "64 dvd unat (amt - n * 64)" using 1(2) by (simp add: u(2) dvd_diff_nat)
    from 1(1) [OF False refl m n_def refl this]
    obtain cs where cs: "dma_loop rnd (Suc i) wr (amt - n * 64) (p + 64 * n) (q + 64 * n) = Inr cs"
      and tl: "tiles wr cs (p + 64 * n) (q + 64 * n) (unat amt - 64 * unat n)"
      unfolding u(2) by blast
    have "dma_loop rnd i wr amt p q =
        Inr (\<lparr>dma_len = 64 * n, dma_ptr = p, dma_fpga_addr = q, dma_write = wr\<rparr> # cs)"
      by (subst dma_loop.simps) (simp add: False m Let_def n_def [symmetric] cs)
    moreover have "0 < 64 * n" using u(1) b(1) by (simp add: word_less_nat_alt)
    ultimately show ?thesis using b u tl by auto
  qed
qed

lemma dma_loop_unaligned:
  "\<not> 64 dvd unat amt \<Longrightarrow> dma_loop rnd i wr amt p q = Inl Div_by_zero"
proof (induction rnd i wr amt p q rule: dma_loop.induct)
  case (1 rnd i wr amt p q)
  then have nz: "amt \<noteq> 0" by auto
  show ?case
  proof (cases "drop_bit 6 amt = 0")
    case True
    then show ?thesis using nz by (subst dma_loop.simps) (simp add: min_def)
  next
    case False
    then have m: "min 64 (drop_bit 6 amt) \<noteq> 0" by (simp add: min_def)
    define n where "n = max 1 (of_nat (rnd i) mod min 64 (drop_bit 6 amt))"
    note b = dma_beats_bounds [OF False, of "of_nat (rnd i)", folded n_def]
    note u = unat_sub_beats [OF b(3)]
    have "\<not> 64 dvd unat (amt - n * 64)"
    proof
      assume "64 dvd unat (amt - n * 64)"
      then have "64 dvd unat amt - 64 * unat n + 64 * unat n" unfolding u(2) by (rule dvd_add) simp
      with b(3) 1(2) show False by simp
    qed
    from 1(1) [OF nz refl m n_def refl this] show ?thesis
      by (subst dma_loop.simps) (simp add: nz m Let_def n_def [symmetric])
  qed
qed

section \<open>Coherence commands\<close>

lemma coherence_beat_log:
  assumes t: "tgt \<noteq> Target_sim" and dev: "polls_bounded dev (COHERENCE_READY hw) n" "pokes_succeed dev"
  shows "\<exists>d'. coherence_beat n tgt hw (logged dev) w (d, tr) =
    Inr (d', tr @ [(ucast (COHERENCE_BITS hw), w), (ucast (COHERENCE_VALID hw), 1)])"
proof -
  from spin_ready_enough [OF t, of dev "COHERENCE_READY hw" n d tr] dev(1)
  obtain d1 where 1: "spin_ready n tgt (logged dev) (COHERENCE_READY hw) (d, tr) = Inr (d1, tr)"
    by (auto simp: polls_bounded_def)
  from poke_logged [OF t dev(2), of "ucast (COHERENCE_BITS hw)" w d1 tr]
  obtain d2 where 2: "poke_mmio tgt (logged dev) (ucast (COHERENCE_BITS hw)) w (d1, tr) =
      Inr (d2, tr @ [(ucast (COHERENCE_BITS hw), w)])" by blast
  from poke_logged [OF t dev(2), of "ucast (COHERENCE_VALID hw)" 1 d2 "tr @ [(ucast (COHERENCE_BITS hw), w)]"]
  show ?thesis by (auto simp: coherence_beat_def 1 2)
qed

lemma coherence_beats_log:
  assumes "tgt \<noteq> Target_sim" and "polls_bounded dev (COHERENCE_READY hw) n" "pokes_succeed dev"
  shows "\<exists>d'. coherence_beats n tgt hw (logged dev) ws (d, tr) =
    Inr (d', tr @ concat (map (\<lambda>w. [(ucast (COHERENCE_BITS hw), w), (ucast (COHERENCE_VALID hw), 1)]) ws))"
proof (induction ws arbitrary: d tr)
  case Nil
  then show ?case by simp
next
  case (Cons w ws)
  from coherence_beat_log [OF assms, of w d tr] obtain d1 where
    1: "coherence_beat n tgt hw (logged dev) w (d, tr) =
      Inr (d1, tr @ [(ucast (COHERENCE_BITS hw), w), (ucast (COHERENCE_VALID hw), 1)])" by blast
  from Cons.IH [of d1 "tr @ [(ucast (COHERENCE_BITS hw), w), (ucast (COHERENCE_VALID hw), 1)]"] 1
  show ?case by auto
qed

text \<open>The operation in the low two bits, the id above it.\<close>

lemma coherence_command_fields:
  assumes "(case operation of
            INVALIDATE_REGION \<Rightarrow> COHERENCE_OP_INVALIDATE bld
          | CLEAN_INVALIDATE_REGION \<Rightarrow> COHERENCE_OP_CLEAN_INVALIDATE bld
          | ADD_TO_COHERENCE_MANAGER \<Rightarrow> COHERENCE_OP_ADD bld
          | RELEASE_COHERENCE_BARRIER \<Rightarrow> COHERENCE_OP_BARRIER_RELEASE bld
          | _ \<Rightarrow> 0) = c" and "c < 4"
  shows "take_bit 2 (coherence_command bld operation rid) = c"
    and "drop_bit 2 (coherence_command bld operation rid) = ucast rid"
proof -
  have c: "take_bit 2 c = c" "drop_bit 2 c = 0"
    using assms(2) by (simp_all add: take_bit_eq_mod drop_bit_eq_div mod_word_less div_word_less)
  have k: "(0xFFFF :: u32) = mask 16" by (simp add: mask_eq_exp_minus_1)
  have r: "and (ucast rid) 0xFFFF = (ucast rid :: u32)"
    unfolding k by (intro bit_word_eqI) (auto simp: bit_simps dest: bit_imp_le_length)
  have cmd: "coherence_command bld operation rid = or c (push_bit 2 (ucast rid))"
    using assms(1) unfolding coherence_command_def r Let_def by simp
  show "take_bit 2 (coherence_command bld operation rid) = c"
    unfolding cmd by (simp add: take_bit_or c take_bit_push_bit)
  show "drop_bit 2 (coherence_command bld operation rid) = ucast rid"
    unfolding cmd by (intro bit_word_eqI) (use c(2) in \<open>auto simp: bit_simps bit_eq_iff dest: bit_imp_le_length\<close>)
qed

section \<open>Properties\<close>

lemma ds_alloc_Inr:
  assumes "ds_alloc bld al os s = Inr s'" and "bld_target bld \<noteq> Target_Kria"
  shows "at_mappings s' = add_mapping (dsf_op_argument s') (dsf_op_argument s) (os_mmap os) (at_mappings s)"
    and "memset (host_mem s) (os_mmap os) 0 (dsf_op_argument s) = Inr (host_mem s')"
    and "os_mmap os \<noteq> 0"
  using assms
  by (auto simp: ds_alloc_def Let_def res_simps case_prod_beta split: if_splits option.splits)

lemma memset_Inr:
  assumes "memset mem p v n = Inr mem'"
  shows "mem' = mem_write mem p (replicate (unat n) v)"
  using assms by (auto simp: memset_def split: if_splits)

lemma translate_base:
  assumes "wf_mappings ms" and "(f, l, c) \<in> regions ms"
  shows "translate vpi ms f = Inr c"
proof -
  have "0 < unat l" using assms by (auto simp: region_iff no_wrap_def word_less_nat_alt dest: wf_no_wrap)
  with at_space.tr_region [OF assms, of f vpi] show ?thesis by simp
qed

lemma get_mapping_region:
  assumes "wf_mappings ms" and "(f, l, c) \<in> regions ms"
  shows "get_mapping ms f = Inr (c, l)"
proof -
  let ?p = "\<lparr>ap_fpga_addr = f, ap_mapping_length = l, ap_cpu_addr = c\<rparr>"
  have p: "?p \<in> set ms" using assms(2) by (simp add: region_iff)
  have "\<exists>q \<in> set ms. ap_fpga_addr q = f \<and> get_mapping ms f = Inr (ap_cpu_addr q, ap_mapping_length q)"
    using p by (induction ms) auto
  then obtain q where "q \<in> set ms" "ap_fpga_addr q = f" "get_mapping ms f = Inr (ap_cpu_addr q, ap_mapping_length q)"
    by blast
  moreover from this have "q = ?p" using inj_onD [OF wf_key_inj [OF assms(1)], of q ?p] p by simp
  ultimately show ?thesis by simp
qed

text \<open>A concrete environment: a bump allocator, an XDMA device that is a byte memory.\<close>

definition demo_bld :: "target \<Rightarrow> build" where
  "demo_bld tgt = \<lparr>bld_target = tgt, bld_vpi = False, bld_has_dma = True, bld_has_coherence = True,
     COHERENCE_OP_INVALIDATE = 0, COHERENCE_OP_CLEAN_INVALIDATE = 1, COHERENCE_OP_ADD = 2,
     COHERENCE_OP_BARRIER_RELEASE = 3\<rparr>"

definition bump_allocator :: "u64 allocator_ops" where
  "bump_allocator = \<lparr>allocator_malloc = (\<lambda>n a. (a, a + n)), allocator_free = (\<lambda>p a. a)\<rparr>"

definition demo_xdma :: "bytes xdma_device" where
  "demo_xdma = \<lparr>fpga_dma_burst_write = (\<lambda>buf a x. (0, mem_write x a buf)),
     fpga_dma_burst_read = (\<lambda>buf a x. (0, mem_read x a (length buf), x))\<rparr>"

definition demo_os :: os_results where
  "demo_os = \<lparr>os_nfd = 3, os_ftruncate = 0, os_mmap = 0xA0000, os_malloc = (\<lambda>i. 0x55), os_rand = (\<lambda>i. 5)\<rparr>"

definition demo_ds :: "data_server_op \<Rightarrow> u64 \<Rightarrow> u64 \<Rightarrow> u64 \<Rightarrow>
    (u64, (bool \<times> u32 list) \<times> (u64 \<times> u32) list, bytes) data_state" where
  "demo_ds oper a b c = \<lparr>dsf_operation = oper, dsf_op_argument = a, dsf_op2_argument = b,
     dsf_op3_argument = c, dsf_resp_id = 0, dsf_fname = [], dsf_data_cmd_recieve_resp_lock = True,
     at_mappings = example_table, host_mem = (\<lambda>x. ucast x), available_ids = [0, 1, 2],
     allocator_state = 0x8000, mmio_state = ((False, []), []), xdma_state = (\<lambda>x. 0),
     ds_bus_lock = False, dma_posts = []\<rparr>"

lemmas demo_ds_defs = demo_bld_def bump_allocator_def demo_os_def demo_ds_def

lemma example_regions: "(0x1000, 0x100, 0x70000) \<in> regions example_table"
  by (simp add: region_iff example_table_eq)

text \<open>C21: an allocation gives the client zeroed memory and a device address for it. When the new device
  range meets no present one, every one of its bytes translates to the host byte at the same offset of
  the mapped file, that byte is zero, every older translation is kept, and freeing the returned
  address restores the table.\<close>

theorem alloc_free_roundtrip:
  assumes "wf_mappings (at_mappings s)" and "bld_target bld \<noteq> Target_Kria"
    and "ds_alloc bld al os s = Inr s'"
    and "base_fits (dsf_op_argument s') (dsf_op_argument s) (at_mappings s)"
  shows "(\<forall>i < unat (dsf_op_argument s).
        translate (bld_vpi bld) (at_mappings s') (dsf_op_argument s' + of_nat i) = Inr (os_mmap os + of_nat i)
        \<and> host_mem s' (os_mmap os + of_nat i) = 0)
    \<and> (\<forall>p \<in> set (at_mappings s). \<forall>a. covers p a \<longrightarrow>
        translate (bld_vpi bld) (at_mappings s') a = translate (bld_vpi bld) (at_mappings s) a)
    \<and> (\<exists>s''. ds_free al s' = Inr s'' \<and> at_mappings s'' = at_mappings s)"
proof (intro conjI allI ballI impI)
  let ?f = "dsf_op_argument s'" and ?n = "dsf_op_argument s" and ?c = "os_mmap os" and ?ms = "at_mappings s"
  note at' = ds_alloc_Inr [OF assms(3,2)]
  note wf = assms(1) and new = assms(4)
  have wf': "wf_mappings (at_mappings s')" and reg: "(?f, ?n, ?c) \<in> regions (at_mappings s')"
    using at_table.inv_add [OF wf new] at_table.regs_add [OF wf new] by (simp_all add: at'(1))
  have n: "unat ?n \<le> 2 ^ 64" by (rule less_imp_le) (rule unat64_less)
  fix i assume i: "i < unat ?n"
  show "translate (bld_vpi bld) (at_mappings s') (?f + of_nat i) = Inr (?c + of_nat i)"
    using at_space.tr_burst [OF wf' reg, of ?f i] i by simp
  show "host_mem s' (?c + of_nat i) = 0"
    using memset_Inr [OF at'(2)] i n by (simp add: mem_write_in)
next
  fix p a assume "p \<in> set (at_mappings s)" and "covers p a"
  then show "translate (bld_vpi bld) (at_mappings s') a = translate (bld_vpi bld) (at_mappings s) a"
    unfolding ds_alloc_Inr(1) [OF assms(3,2)]
    by (intro at_table.tr_frame [OF assms(1,4), of "ap_fpga_addr p" "ap_mapping_length p" "ap_cpu_addr p"])
      (auto simp: region_of covers_def)
next
  let ?t = "case al of Some ops \<Rightarrow> s'\<lparr>allocator_state := allocator_free ops (dsf_op_argument s') (allocator_state s')\<rparr>
      | None \<Rightarrow> s'"
  have eq: "at_mappings ?t = at_mappings s'" "dsf_op_argument ?t = dsf_op_argument s'"
    by (simp_all split: option.split)
  have reg: "wf_mappings (at_mappings s')"
    "(dsf_op_argument s', dsf_op_argument s, os_mmap os) \<in> regions (at_mappings s')"
    using at_table.inv_add [OF assms(1,4)] at_table.regs_add [OF assms(1,4)]
    by (simp_all add: ds_alloc_Inr(1) [OF assms(3,2)])
  have "remove_mapping (dsf_op_argument s') (at_mappings s') = Inr (at_mappings s)"
    unfolding ds_alloc_Inr(1) [OF assms(3,2)] by (rule remove_add [OF assms(1,4)])
  then show "\<exists>s''. ds_free al s' = Inr s'' \<and> at_mappings s'' = at_mappings s"
    using get_mapping_region [OF reg] unfolding ds_free_def Let_def eq by simp
qed

theorem alloc_free_roundtrip_witness:
  "\<exists>s' s''. ds_alloc (demo_bld Target_sim) (Some bump_allocator) demo_os (demo_ds ALLOC 64 0 0) = Inr s'
     \<and> dsf_op_argument s' = 0x8000 \<and> dsf_fname s' = ''/beethoven_file_5''
     \<and> translate False (at_mappings s') (0x8000 + of_nat 9) = Inr (0xA0000 + of_nat 9)
     \<and> host_mem s' (0xA0000 + of_nat 9) = 0
     \<and> ds_free (Some bump_allocator) s' = Inr s'' \<and> at_mappings s'' = example_table"
proof -
  have fit: "base_fits 0x8000 64 example_table"
    by (simp add: base_fits_def fits_def example_table_eq no_wrap_def precedes_def)
  obtain s' where s': "ds_alloc (demo_bld Target_sim) (Some bump_allocator) demo_os (demo_ds ALLOC 64 0 0) = Inr s'"
    and a: "dsf_op_argument s' = 0x8000" "dsf_fname s' = ''/beethoven_file_5''"
    by (auto simp: ds_alloc_def demo_ds_defs memset_def MAP_FAILED_def to_string.simps)
  have "bld_vpi (demo_bld Target_sim) = False" "os_mmap demo_os = 0xA0000"
    "dsf_op_argument (demo_ds ALLOC 64 0 0) = 64" "at_mappings (demo_ds ALLOC 64 0 0) = example_table"
    by (simp_all add: demo_ds_defs)
  with alloc_free_roundtrip [OF _ _ s'] a fit example_table_wf s'
  have all: "\<forall>i < 64. translate False (at_mappings s') (0x8000 + of_nat i) = Inr (0xA0000 + of_nat i)
        \<and> host_mem s' (0xA0000 + of_nat i) = 0"
    and ex: "\<exists>s''. ds_free (Some bump_allocator) s' = Inr s'' \<and> at_mappings s'' = example_table"
    by (simp_all add: demo_bld_def)
  from all have "translate False (at_mappings s') (0x8000 + of_nat 9) = Inr (0xA0000 + of_nat 9)
        \<and> host_mem s' (0xA0000 + of_nat 9) = 0" by (rule allE [of _ 9]) simp
  with s' a ex show ?thesis by blast
qed

text \<open>A failed \<open>mmap\<close> is not noticed. The code compares the result with \<open>nullptr\<close>, but a failure is
  \<open>MAP_FAILED\<close>: clearing the memory then writes through an invalid pointer, and an allocation of
  zero bytes, which \<open>mmap\<close> always refuses, is answered with success and registers a mapping at the
  invalid pointer.\<close>

theorem mmap_failure_unnoticed:
  assumes "bld_target bld \<noteq> Target_Kria" and "0 \<le> os_nfd os" and "os_ftruncate os = 0"
    and "os_mmap os = MAP_FAILED"
  shows "if dsf_op_argument s \<noteq> 0 then ds_alloc bld al os s = Inl Null_pointer
    else \<exists>s'. ds_alloc bld al os s = Inr s'
      \<and> at_mappings s' = add_mapping (dsf_op_argument s') 0 MAP_FAILED (at_mappings s)"
proof (cases "dsf_op_argument s = 0")
  case True
  with assms show ?thesis
    by (cases al) (simp_all add: ds_alloc_def Let_def memset_def MAP_FAILED_def case_prod_beta)
next
  case False
  with assms show ?thesis by (simp add: ds_alloc_def Let_def memset_def MAP_FAILED_def)
qed

theorem mmap_failure_unnoticed_witness:
  "ds_alloc (demo_bld Target_sim) None (demo_os\<lparr>os_mmap := MAP_FAILED\<rparr>) (demo_ds ALLOC 4096 0 0)
     = Inl Null_pointer"
  using mmap_failure_unnoticed [of "demo_bld Target_sim" "demo_os\<lparr>os_mmap := MAP_FAILED\<rparr>" "demo_ds ALLOC 4096 0 0" None]
  by (simp add: demo_ds_defs)

text \<open>C14: what the DMA loop of a simulation build with DMA does with a request at the base of a mapping, in either direction and whatever \<open>rand\<close> returns. If the
  length is a multiple of 64, the loop ends and the blocks it posts tile the range: they follow each other without gap or overlap on both sides,
  each is a whole number of 64-byte beats, at most 63, and together they are the requested length. If the length is not a multiple
  of 64, the turn fails: a remainder below 64 is reached and a value is taken modulo zero. (The length is not compared with that of the mapping.)\<close>

theorem dma_transfer_tiles:
  assumes "wf_mappings (at_mappings s)" and "bld_has_dma bld" and "(a, l, c) \<in> regions (at_mappings s)"
  shows "(dsf_op_argument s = a \<longrightarrow>
      (if 64 dvd unat (dsf_op3_argument s)
       then \<exists>cs. ds_move_to_sim bld os s = Inr (s\<lparr>dma_posts := dma_posts s @ cs\<rparr>) \<and> tiles True cs c a (unat (dsf_op3_argument s))
       else ds_move_to_sim bld os s = Inl Div_by_zero))
    \<and> (dsf_op2_argument s = a \<longrightarrow>
      (if 64 dvd unat (dsf_op3_argument s)
       then \<exists>cs. ds_move_from_sim bld os s = Inr (s\<lparr>dma_posts := dma_posts s @ cs\<rparr>) \<and> tiles False cs c a (unat (dsf_op3_argument s))
       else ds_move_from_sim bld os s = Inl Div_by_zero))"
proof -
  note m = translate_base [OF assms(1,3)] get_mapping_region [OF assms(1,3)]
  show ?thesis
  proof (cases "64 dvd unat (dsf_op3_argument s)")
    case True
    have "\<exists>cs. dma_loop (os_rand os) 0 wr (dsf_op3_argument s) c a = Inr cs \<and> tiles wr cs c a (unat (dsf_op3_argument s))" for wr
      by (rule dma_loop_aligned [OF True])
    from this [of True] this [of False] obtain cs cs' where
      "dma_loop (os_rand os) 0 True (dsf_op3_argument s) c a = Inr cs" "tiles True cs c a (unat (dsf_op3_argument s))"
      "dma_loop (os_rand os) 0 False (dsf_op3_argument s) c a = Inr cs'" "tiles False cs' c a (unat (dsf_op3_argument s))" by blast
    with m True assms(2) show ?thesis by (auto simp: ds_move_to_sim_def ds_move_from_sim_def)
  next
    case False
    with m assms(2) dma_loop_unaligned [OF False] show ?thesis by (simp add: ds_move_to_sim_def ds_move_from_sim_def)
  qed
qed

theorem dma_transfer_tiles_witness:
  "(\<exists>cs. ds_move_to_sim (demo_bld Target_sim) demo_os (demo_ds MOVE_TO_FPGA 0x1000 0 192) =
       Inr ((demo_ds MOVE_TO_FPGA 0x1000 0 192)\<lparr>dma_posts := cs\<rparr>)
     \<and> tiles True cs 0x70000 0x1000 192)
   \<and> ds_move_from_sim (demo_bld Target_sim) demo_os (demo_ds MOVE_FROM_FPGA 0 0x1000 100) = Inl Div_by_zero"
  using dma_transfer_tiles [of "demo_ds MOVE_TO_FPGA 0x1000 0 192" "demo_bld Target_sim" "0x1000" "0x100" "0x70000" demo_os]
    dma_transfer_tiles [of "demo_ds MOVE_FROM_FPGA 0 0x1000 100" "demo_bld Target_sim" "0x1000" "0x100" "0x70000" demo_os]
    example_table_wf example_regions
  by (simp add: demo_bld_def demo_ds_def)

text \<open>A transfer whose length is not a multiple of 64 does not end well. Whatever \<open>rand\<close> returns, the
  loop reaches a remainder below 64 and takes a value modulo zero.\<close>

theorem dma_unaligned_fails:
  assumes "wf_mappings (at_mappings s)" and "bld_has_dma bld"
    and "(dsf_op2_argument s, l, c) \<in> regions (at_mappings s)"
    and "\<not> 64 dvd unat (dsf_op3_argument s)"
  shows "ds_move_from_sim bld os s = Inl Div_by_zero"
  using translate_base [OF assms(1,3)] get_mapping_region [OF assms(1,3)] assms(2)
    dma_loop_unaligned [OF assms(4)] by (simp add: ds_move_from_sim_def)

theorem dma_unaligned_fails_witness:
  "ds_move_from_sim (demo_bld Target_sim) demo_os (demo_ds MOVE_FROM_FPGA 0 0x1000 100) = Inl Div_by_zero"
  using dma_unaligned_fails [of "demo_ds MOVE_FROM_FPGA 0 0x1000 100" "demo_bld Target_sim" "0x100" "0x70000" demo_os]
    example_table_wf example_regions
  by (simp add: demo_bld_def demo_ds_def)

text \<open>What the code relies on about the XDMA driver: a burst that was written is read back.\<close>

definition xdma_stores :: "'x xdma_device \<Rightarrow> bool" where
  "xdma_stores xd \<longleftrightarrow> (\<forall>buf buf' a x. length buf' = length buf \<and> length buf < 2 ^ 64 \<longrightarrow>
     (case fpga_dma_burst_write xd buf a x of (rc, x') \<Rightarrow>
        rc = 0 \<and> (case fpga_dma_burst_read xd buf' a x' of (rc', out, x'') \<Rightarrow> rc' = 0 \<and> out = buf)))"

lemma xdma_storesD:
  "xdma_stores xd \<Longrightarrow> length buf' = length buf \<Longrightarrow> length buf < 2 ^ 64 \<Longrightarrow>
     case fpga_dma_burst_write xd buf a x of (rc, x') \<Rightarrow>
        rc = 0 \<and> (case fpga_dma_burst_read xd buf' a x' of (rc', out, x'') \<Rightarrow> rc' = 0 \<and> out = buf)"
  by (simp add: xdma_stores_def)

text \<open>On a build with XDMA, moving a range to the device and back restores it: whatever happened to
  host memory in between, the range holds the bytes it had, and nothing else is written.\<close>

theorem xdma_move_roundtrip:
  assumes "bld_target bld = Target_F1" and "xdma_stores xd"
    and "translate (bld_vpi bld) (at_mappings s) (dsf_op_argument s) = Inr h"
    and "dsf_op2_argument s = dsf_op_argument s"
  shows "\<exists>s1. ds_move_to_fpga bld xd s = Inr s1 \<and> host_mem s1 = host_mem s
    \<and> (\<forall>m os. \<exists>s2. ds_move_from_fpga bld xd os (s1\<lparr>host_mem := m\<rparr>) = Inr s2
         \<and> host_mem s2 = mem_write m h (mem_read (host_mem s) h (unat (dsf_op3_argument s))))"
proof -
  let ?n = "unat (dsf_op3_argument s)" and ?a = "dsf_op_argument s"
  let ?b = "mem_read (host_mem s) h ?n"
  obtain rc x where w: "fpga_dma_burst_write xd ?b ?a (xdma_state s) = (rc, x)" by fastforce
  have r: "rc = 0 \<and> (case fpga_dma_burst_read xd buf' ?a x of (rc', out, x'') \<Rightarrow> rc' = 0 \<and> out = ?b)"
    if "length buf' = ?n" for buf'
    using xdma_storesD [OF assms(2), of buf' ?b ?a "xdma_state s"] that by (simp add: w unat64_less [simplified])
  have rc: "rc = 0" using r [of "replicate ?n 0"] by simp
  have "ds_move_to_fpga bld xd s = Inr (s\<lparr>xdma_state := x\<rparr>)"
    using assms(1,3) rc by (simp add: ds_move_to_fpga_def wrapper_fpga_dma_burst_write_def w)
  moreover have "\<exists>s2. ds_move_from_fpga bld xd os (s\<lparr>xdma_state := x, host_mem := m\<rparr>) = Inr s2
      \<and> host_mem s2 = mem_write m h ?b" for m os
    using r [of "map (os_malloc os) [0..<?n]"] assms(1,3,4)
    by (auto simp: ds_move_from_fpga_def wrapper_fpga_dma_burst_read_def Let_def)
  ultimately show ?thesis by simp
qed



lemma demo_xdma_stores: "xdma_stores demo_xdma"
  by (simp add: xdma_stores_def demo_xdma_def mem_read_write)

theorem xdma_move_roundtrip_witness:
  "\<exists>s1. ds_move_to_fpga (demo_bld Target_F1) demo_xdma (demo_ds MOVE_TO_FPGA 0x1010 0x1010 4) = Inr s1
    \<and> (\<exists>s2. ds_move_from_fpga (demo_bld Target_F1) demo_xdma demo_os (s1\<lparr>host_mem := \<lambda>x. 0\<rparr>) = Inr s2
         \<and> host_mem s2 = mem_write (\<lambda>x. 0) 0x70010 (mem_read (\<lambda>x. ucast x) 0x70010 4))"
proof -
  have "translate False example_table 0x1010 = Inr 0x70010" by (simp add: translate_def example_table_eq)
  then show ?thesis
    using xdma_move_roundtrip [OF _ demo_xdma_stores, of "demo_bld Target_F1" "demo_ds MOVE_TO_FPGA 0x1010 0x1010 4" "0x70010"]
    by (simp add: demo_bld_def demo_ds_def) blast
qed

text \<open>On a discrete board without XDMA (F2) a move from the device overwrites the client's memory with
  uninitialised bytes and reports success: the wrapper returns 0 without filling the buffer, which is
  then copied. The device is never asked.\<close>

theorem f2_move_copies_garbage:
  assumes "bld_target bld = Target_F2"
    and "translate (bld_vpi bld) (at_mappings s) (dsf_op2_argument s) = Inr h"
  shows "ds_move_from_fpga bld xd os s =
    Inr (s\<lparr>host_mem := mem_write (host_mem s) h (map (os_malloc os) [0..<unat (dsf_op3_argument s)])\<rparr>)"
  using assms by (simp add: ds_move_from_fpga_def wrapper_fpga_dma_burst_read_def Let_def)

theorem f2_move_copies_garbage_witness:
  "\<exists>s'. ds_move_from_fpga (demo_bld Target_F2) demo_xdma demo_os (demo_ds MOVE_FROM_FPGA 0 0x1010 2) = Inr s'
     \<and> host_mem s' 0x70011 = 0x55"
proof -
  have "translate False example_table 0x1010 = Inr 0x70010" by (simp add: translate_def example_table_eq)
  then show ?thesis
    using f2_move_copies_garbage [of "demo_bld Target_F2" "demo_ds MOVE_FROM_FPGA 0 0x1010 2" "0x70010" demo_xdma demo_os]
    by (simp add: demo_ds_defs mem_write_def)
qed

text \<open>The start-up self test accepts a driver that stores what is written, and accepts none that does
  not: when it succeeds, the second burst really returned the 256 words.\<close>

theorem sanity_check_exact:
  "(xdma_stores xd \<longrightarrow> is_ok (xdma_sanity_check Target_F1 xd x))
   \<and> (\<forall>x'. xdma_sanity_check Target_F1 xd x = Inr x' \<longrightarrow>
        (\<exists>x1. fpga_dma_burst_write xd sanity_bytes 0xDEAD0000 x = (0, x1)
           \<and> fpga_dma_burst_read xd (replicate 1024 0) 0xDEAD0000 x1 = (0, sanity_bytes, x')))"
proof (intro conjI impI allI)
  have len: "length sanity_bytes = 1024"
    by (simp add: sanity_bytes_def length_concat sum_list_replicate)
  assume "xdma_stores xd"
  then have "case fpga_dma_burst_write xd sanity_bytes 0xDEAD0000 x of (rc, x') \<Rightarrow>
        rc = 0 \<and> (case fpga_dma_burst_read xd (replicate 1024 0) 0xDEAD0000 x' of
          (rc', out, x'') \<Rightarrow> rc' = 0 \<and> out = sanity_bytes)"
    by (rule xdma_storesD) (simp_all add: len)
  then show "is_ok (xdma_sanity_check Target_F1 xd x)"
    by (auto simp: xdma_sanity_check_def wrapper_fpga_dma_burst_write_def
        wrapper_fpga_dma_burst_read_def split: prod.splits)
next
  fix x' assume "xdma_sanity_check Target_F1 xd x = Inr x'"
  then show "\<exists>x1. fpga_dma_burst_write xd sanity_bytes 0xDEAD0000 x = (0, x1)
           \<and> fpga_dma_burst_read xd (replicate 1024 0) 0xDEAD0000 x1 = (0, sanity_bytes, x')"
    by (auto simp: xdma_sanity_check_def wrapper_fpga_dma_burst_write_def
        wrapper_fpga_dma_burst_read_def split: prod.splits if_splits)
qed

theorem sanity_check_exact_witness: "is_ok (xdma_sanity_check Target_F1 demo_xdma (\<lambda>a. 7))"
  using sanity_check_exact [of demo_xdma "\<lambda>a. 7"] demo_xdma_stores by blast

text \<open>A coherence command on Kria. With a responsive device the turn returns and the device receives
  exactly five words: the two arguments, low half first, and a command word with the operation in its
  low two bits and the segment id above. An id given by the client is never rejected: it is the
  argument cut to 16 bits, so the test for a negative one is dead.\<close>

theorem coherence_words:
  assumes "bld_target bld = Target_Kria" and "polls_bounded dev (COHERENCE_READY hw) n" and "pokes_succeed dev"
    and "\<not> ds_bus_lock s" and "mmio_state s = (d, [])"
    and "dsf_operation s = INVALIDATE_REGION" and "COHERENCE_OP_INVALIDATE bld < 4"
  shows "\<exists>d' cmd. ds_coherence n bld hw (logged dev) s =
      Inr (s\<lparr>mmio_state := (d', concat (map (\<lambda>w. [(ucast (COHERENCE_BITS hw), w), (ucast (COHERENCE_VALID hw), 1)])
            [ucast (dsf_op_argument s), ucast (drop_bit 32 (dsf_op_argument s)),
             ucast (dsf_op2_argument s), ucast (drop_bit 32 (dsf_op2_argument s)), cmd])),
        ds_bus_lock := False, dsf_resp_id := uint (ucast (dsf_op_argument s) :: u16)\<rparr>)
    \<and> take_bit 2 cmd = COHERENCE_OP_INVALIDATE bld
    \<and> drop_bit 2 cmd = ucast (ucast (dsf_op_argument s) :: u16)"
proof -
  let ?id = "ucast (dsf_op_argument s) :: u16"
  let ?cmd = "coherence_command bld INVALIDATE_REGION ?id"
  have t: "bld_target bld \<noteq> Target_sim" using assms(1) by simp
  from coherence_beats_log [OF t assms(2,3),
      of "arg_words (dsf_op_argument s) @ arg_words (dsf_op2_argument s) @ [?cmd]" d "[]"]
  obtain d' where "coherence_beats n (bld_target bld) hw (logged dev)
      (arg_words (dsf_op_argument s) @ arg_words (dsf_op2_argument s) @ [?cmd]) (d, []) =
    Inr (d', concat (map (\<lambda>w. [(ucast (COHERENCE_BITS hw), w), (ucast (COHERENCE_VALID hw), 1)])
            [ucast (dsf_op_argument s), ucast (drop_bit 32 (dsf_op_argument s)),
             ucast (dsf_op2_argument s), ucast (drop_bit 32 (dsf_op2_argument s)), ?cmd]))"
    by (auto simp: arg_words_def)
  moreover have "take_bit 2 ?cmd = COHERENCE_OP_INVALIDATE bld" "drop_bit 2 ?cmd = ucast ?id"
    using coherence_command_fields [where operation = INVALIDATE_REGION and rid = ?id, OF _ assms(7)] by simp_all
  ultimately show ?thesis
    using assms(4-6) by (intro exI [of _ d'] exI [of _ ?cmd]) (simp add: ds_coherence_def coherence_id_def mutex_lock_def)
qed

lemma demo_device_coherence: "polls_bounded demo_device (COHERENCE_READY demo_hw) 2"
  by (auto simp: polls_bounded_def demo_device_def demo_hw_def ready_within_2)

theorem coherence_words_witness:
  "\<exists>d' cmd. ds_coherence 2 (demo_bld Target_Kria) demo_hw (logged demo_device) (demo_ds INVALIDATE_REGION 0x10005 8 0) =
      Inr ((demo_ds INVALIDATE_REGION 0x10005 8 0)\<lparr>mmio_state := (d', concat (map (\<lambda>w. [(0x30, w), (0x34, 1)])
            [0x10005, 0, 8, 0, cmd])), ds_bus_lock := False, dsf_resp_id := 5\<rparr>)
    \<and> take_bit 2 cmd = 0 \<and> drop_bit 2 cmd = 5"
  using coherence_words [of "demo_bld Target_Kria" demo_device demo_hw 2 "demo_ds INVALIDATE_REGION 0x10005 8 0" "(False, [])",
      OF _ demo_device_coherence demo_device_pokes]
  by (simp add: demo_bld_def demo_ds_def demo_hw_def drop_bit_eq_div)

section \<open>Allocators\<close>

text \<open>What the server relies on about a device allocator (\<open>beethoven/allocator/device_allocator.h\<close>, not part of the repository), over the set of blocks it has given out
  and not got back: while there is room for a block, \<open>malloc\<close> returns one inside the address space that overlaps none of these and counts it among them, and \<open>free\<close> gives up
  at most the block at the address it is given. Without a custom allocator the block is the one that \<open>mmap\<close> returns, and the device addresses are
  the host addresses.\<close>

definition ranges_apart :: "u64 \<Rightarrow> u64 \<Rightarrow> u64 \<Rightarrow> u64 \<Rightarrow> bool" where
  "ranges_apart p n q m \<longleftrightarrow> unat p + unat n \<le> unat q \<or> unat q + unat m \<le> unat p"

definition allocator_contract :: "'a allocator_ops \<Rightarrow> ('a \<Rightarrow> (u64 \<times> u64) set) \<Rightarrow> (u64 \<Rightarrow> 'a \<Rightarrow> bool) \<Rightarrow> bool" where
  "allocator_contract ops live room \<longleftrightarrow>
     (\<forall>n a. 0 < n \<and> room n a \<longrightarrow>
        (case allocator_malloc ops n a of (p, a') \<Rightarrow> unat p + unat n < 2 ^ 64 \<and> (\<forall>(q, m) \<in> live a. ranges_apart p n q m)
           \<and> insert (p, n) (live a) \<subseteq> live a'))
     \<and> (\<forall>p a. {b \<in> live a. fst b \<noteq> p} \<subseteq> live (allocator_free ops p a))"

text \<open>Every mapping of the table is a block of the allocator; without one, device and host addresses agree.\<close>

definition table_backed :: "'a allocator_ops option \<Rightarrow> ('a \<Rightarrow> (u64 \<times> u64) set) \<Rightarrow> ('a, 'd, 'x) data_state \<Rightarrow> bool" where
  "table_backed al live s \<longleftrightarrow>
     (\<forall>(f, l, c) \<in> regions (at_mappings s). case al of Some ops \<Rightarrow> (f, l) \<in> live (allocator_state s) | None \<Rightarrow> c = f)"

text \<open>The memory \<open>mmap\<close> returns, if it does not fail, overlaps no memory the server has mapped.\<close>

definition mmap_fresh :: "os_results \<Rightarrow> ('a, 'd, 'x) data_state \<Rightarrow> bool" where
  "mmap_fresh os s \<longleftrightarrow> os_mmap os = MAP_FAILED
     \<or> unat (os_mmap os) + unat (dsf_op_argument s) < 2 ^ 64
       \<and> (\<forall>(f, l, c) \<in> regions (at_mappings s). ranges_apart (os_mmap os) (dsf_op_argument s) c l)"

lemma allocator_contract_malloc:
  assumes "allocator_contract ops live room" and "0 < n" and "room n a" and "allocator_malloc ops n a = (p, a')"
  shows "unat p + unat n < 2 ^ 64" and "\<forall>(q, m) \<in> live a. ranges_apart p n q m" and "insert (p, n) (live a) \<subseteq> live a'"
  using assms(1) [unfolded allocator_contract_def, THEN conjunct1, THEN spec, THEN spec, of n a] assms(2-4) by simp_all

lemma base_fitsI:
  assumes "0 < n" and "unat p + unat n < 2 ^ 64" and "\<forall>(f, l, c) \<in> regions ms. ranges_apart p n f l"
  shows "base_fits p n ms"
  using assms region_of [of _ ms] by (fastforce simp: base_fits_def fits_def no_wrap_def list_all_iff precedes_def ranges_apart_def)

lemma ds_alloc_keeps:
  assumes wf: "wf_mappings (at_mappings s)" and bk: "table_backed al live s"
    and al: "ds_alloc bld al os s = Inr s'" "bld_target bld \<noteq> Target_Kria" and n: "0 < dsf_op_argument s"
    and fresh: "case al of Some ops \<Rightarrow> allocator_contract ops live room \<and> room (dsf_op_argument s) (allocator_state s) | None \<Rightarrow> mmap_fresh os s"
  shows "wf_mappings (at_mappings s') \<and> table_backed al live s'"
proof -
  let ?n = "dsf_op_argument s" and ?p = "dsf_op_argument s'" and ?c = "os_mmap os"
  note at' = ds_alloc_Inr [OF al]
  have "base_fits ?p ?n (at_mappings s) \<and> (\<forall>(f, l, c) \<in> insert (?p, ?n, ?c) (regions (at_mappings s)).
      case al of Some ops \<Rightarrow> (f, l) \<in> live (allocator_state s') | None \<Rightarrow> c = f)"
  proof (cases al)
    case None
    have "?p = ?c" using al None by (auto simp: ds_alloc_def Let_def res_simps split: if_splits)
    moreover have "?c \<noteq> MAP_FAILED" using at'(2) n by (auto simp: memset_def split: if_splits)
    ultimately show ?thesis
      using fresh bk None by (auto intro!: base_fitsI [OF n] simp: mmap_fresh_def table_backed_def)
  next
    case (Some ops)
    obtain p a' where m: "allocator_malloc ops ?n (allocator_state s) = (p, a')" by fastforce
    have pa: "?p = p" "allocator_state s' = a'"
      using al Some m by (auto simp: ds_alloc_def Let_def res_simps split: if_splits)
    have c: "unat p + unat ?n < 2 ^ 64" "\<forall>(q, m) \<in> live (allocator_state s). ranges_apart p ?n q m"
      "insert (p, ?n) (live (allocator_state s)) \<subseteq> live a'"
      using allocator_contract_malloc [OF _ n _ m, of live room] fresh Some by simp_all
    have "\<forall>(f, l, c) \<in> regions (at_mappings s). (f, l) \<in> live (allocator_state s)"
      using bk Some by (simp add: table_backed_def)
    with c show ?thesis unfolding pa Some by (auto intro!: base_fitsI [OF n])
  qed
  then show ?thesis
    using at_table.inv_add [OF wf] at_table.regs_add [OF wf] by (simp add: at'(1) table_backed_def)
qed

lemma ds_free_keeps:
  assumes wf: "wf_mappings (at_mappings s)" and bk: "table_backed al live s" and fr: "ds_free al s = Inr s'"
    and con: "case al of Some ops \<Rightarrow> allocator_contract ops live room | None \<Rightarrow> True"
  shows "wf_mappings (at_mappings s') \<and> table_backed al live s'"
proof -
  let ?p = "dsf_op_argument s"
  from fr obtain ms where ms: "remove_mapping ?p (at_mappings s) = Inr ms" "at_mappings s' = ms"
    and a: "allocator_state s' = (case al of Some ops \<Rightarrow> allocator_free ops ?p (allocator_state s) | None \<Rightarrow> allocator_state s)"
    by (auto simp: ds_free_def Let_def res_simps split: option.splits)
  have f: "ms = filter (\<lambda>q. ap_fpga_addr q \<noteq> ?p) (at_mappings s)"
    using remove_mapping_eq [OF wf_mappings_sorted [OF wf], of ?p] ms(1) by (simp split: if_splits)
  have r: "(f, l, c) \<in> regions (at_mappings s) \<and> f \<noteq> ?p" if "(f, l, c) \<in> regions ms" for f l c
    using that by (simp add: f region_iff)
  have "case al of Some ops \<Rightarrow> (f, l) \<in> live (allocator_state s') | None \<Rightarrow> c = f" if "(f, l, c) \<in> regions ms" for f l c
    using r [OF that] bk con a by (cases al) (fastforce simp: table_backed_def allocator_contract_def)+
  then show ?thesis using wf_mappings_filter [OF wf] by (auto simp: f ms(2) table_backed_def)
qed

text \<open>C34: every turn of the server that succeeds keeps the mapping table well-formed (sorted, non-empty, disjoint, not wrapping) and backed by the allocator, whatever the
  operation and the build, under these conditions: a custom allocator keeps its contract, and for an allocation the size is
  not zero and there is room for it in the allocator, or, without a custom allocator, \<open>mmap\<close> fails or returns memory that the server has not mapped. A zero-byte
  allocation does not keep the table well-formed (\<open>mmap_failure_unnoticed\<close>).\<close>

theorem data_server_keeps_table:
  assumes "wf_mappings (at_mappings s)" and "table_backed (env_alloc env) live s" and "data_server_iteration env os s = Inr s'"
    and con: "case env_alloc env of Some ops \<Rightarrow> allocator_contract ops live room | None \<Rightarrow> True"
    and new: "dsf_operation s = ALLOC \<longrightarrow> 0 < dsf_op_argument s
      \<and> (case env_alloc env of Some ops \<Rightarrow> room (dsf_op_argument s) (allocator_state s) | None \<Rightarrow> mmap_fresh os s)"
  shows "wf_mappings (at_mappings s') \<and> table_backed (env_alloc env) live s'"
proof -
  from assms(3) obtain s1 where s1: "data_server_switch env os s = Inr s1"
    and s': "at_mappings s' = at_mappings s1" "allocator_state s' = allocator_state s1"
    by (auto simp: data_server_iteration_def res_simps)
  consider (alloc) "dsf_operation s = ALLOC" "bld_target (env_build env) \<noteq> Target_Kria"
    | (free) "dsf_operation s = FREE" | (other) "at_mappings s1 = at_mappings s" "allocator_state s1 = allocator_state s"
    using s1
    by (cases "dsf_operation s")
      (auto simp: data_server_switch_def ds_alloc_def ds_move_to_sim_def ds_move_from_sim_def ds_move_to_fpga_def
        ds_move_from_fpga_def ds_coherence_def coherence_id_def Let_def res_simps case_prod_beta split: if_splits)
  then have "wf_mappings (at_mappings s1) \<and> table_backed (env_alloc env) live s1"
  proof cases
    case alloc
    with s1 have a: "ds_alloc (env_build env) (env_alloc env) os s = Inr s1" by (simp add: data_server_switch_def)
    show ?thesis
      by (rule ds_alloc_keeps [OF assms(1,2) a alloc(2), where room = room]) (use con new alloc(1) in \<open>simp_all split: option.splits\<close>)
  next
    case free
    with s1 have "ds_free (env_alloc env) s = Inr s1" by (simp add: data_server_switch_def)
    from ds_free_keeps [OF assms(1,2) this con] show ?thesis .
  next
    case other
    with assms(1,2) show ?thesis unfolding table_backed_def other by simp
  qed
  then show ?thesis unfolding table_backed_def s' .
qed

text \<open>An allocator that gives out addresses in increasing order and keeps the list of its blocks.\<close>

definition list_allocator :: "(u64 \<times> (u64 \<times> u64) list) allocator_ops" where
  "list_allocator = \<lparr>allocator_malloc = (\<lambda>n (top, bs). (top, top + n, (top, n) # bs)),
     allocator_free = (\<lambda>p (top, bs). (top, filter (\<lambda>b. fst b \<noteq> p) bs))\<rparr>"

definition list_live :: "u64 \<times> (u64 \<times> u64) list \<Rightarrow> (u64 \<times> u64) set" where
  "list_live = (\<lambda>(top, bs). {b \<in> set bs. unat (fst b) + unat (snd b) \<le> unat top})"

definition list_room :: "u64 \<Rightarrow> u64 \<times> (u64 \<times> u64) list \<Rightarrow> bool" where
  "list_room n = (\<lambda>(top, bs). unat top + unat n < 2 ^ 64)"

lemma list_allocator_contract: "allocator_contract list_allocator list_live list_room"
proof -
  have "unat (top + n) = unat top + unat n" if "unat top + unat n < 2 ^ 64" for top n :: u64
    using that by (simp add: unat_word_ariths)
  then show ?thesis
    by (fastforce simp: allocator_contract_def list_allocator_def list_live_def list_room_def ranges_apart_def)
qed

definition demo_turn :: "data_server_op \<Rightarrow> u64 \<Rightarrow>
    (u64 \<times> (u64 \<times> u64) list, (bool \<times> u32 list) \<times> (u64 \<times> u32) list, bytes) data_state" where
  "demo_turn oper a = \<lparr>dsf_operation = oper, dsf_op_argument = a, dsf_op2_argument = 0,
     dsf_op3_argument = 0, dsf_resp_id = 0, dsf_fname = [], dsf_data_cmd_recieve_resp_lock = True,
     at_mappings = example_table, host_mem = (\<lambda>x. ucast x), available_ids = [0, 1, 2],
     allocator_state = (0x8000, [(0x1000, 0x100), (0x4000, 0x40)]), mmio_state = ((False, []), []), xdma_state = (\<lambda>x. 0),
     ds_bus_lock = False, dma_posts = []\<rparr>"

definition demo_env :: "target \<Rightarrow> (u64 \<times> (u64 \<times> u64) list, (bool \<times> u32 list) \<times> (u64 \<times> u32) list, bytes) ds_env" where
  "demo_env tgt = \<lparr>env_build = demo_bld tgt, env_polls = 2, env_hw = demo_hw, env_dev = logged demo_device,
     env_xdma = demo_xdma, env_alloc = Some list_allocator\<rparr>"

theorem data_server_keeps_table_witness:
  "(\<exists>s'. data_server_iteration (demo_env Target_sim) demo_os (demo_turn ALLOC 64) = Inr s'
      \<and> dsf_op_argument s' = 0x8000 \<and> wf_mappings (at_mappings s') \<and> length (at_mappings s') = 3)
   \<and> (\<exists>s'. data_server_iteration (demo_env Target_sim) demo_os (demo_turn FREE 0x4000) = Inr s'
      \<and> wf_mappings (at_mappings s') \<and> length (at_mappings s') = 1)"
proof -
  have turn: "\<exists>s'. data_server_iteration (demo_env Target_sim) demo_os (demo_turn ALLOC 64) = Inr s'
      \<and> dsf_op_argument s' = 0x8000 \<and> length (at_mappings s') = 3"
    by (simp add: data_server_iteration_def data_server_switch_def demo_env_def demo_bld_def demo_os_def demo_turn_def ds_alloc_def
        list_allocator_def memset_def MAP_FAILED_def example_table_eq add_mapping_def addr_pair_less_def)
  have free: "\<exists>s'. data_server_iteration (demo_env Target_sim) demo_os (demo_turn FREE 0x4000) = Inr s' \<and> length (at_mappings s') = 1"
    by (simp add: data_server_iteration_def data_server_switch_def demo_env_def demo_bld_def demo_turn_def ds_free_def
        list_allocator_def example_table_eq remove_mapping_def addr_pair_less_def)
  have env: "env_alloc (demo_env Target_sim) = Some list_allocator" by (simp add: demo_env_def)
  have start: "wf_mappings (at_mappings (demo_turn oper a))" "table_backed (Some list_allocator) list_live (demo_turn oper a)"
    "list_room 64 (allocator_state (demo_turn oper a))" "dsf_operation (demo_turn oper a) = oper" "dsf_op_argument (demo_turn oper a) = a" for oper a
    using example_table_wf by (simp_all add: demo_turn_def table_backed_def list_live_def list_room_def)
      (auto simp: example_table_eq regions_def mapping_region_def)
  have "wf_mappings (at_mappings s')" if "data_server_iteration (demo_env Target_sim) demo_os (demo_turn ALLOC 64) = Inr s'" for s'
    using data_server_keeps_table [OF start(1) _ that, of list_live list_room] start list_allocator_contract by (simp add: env)
  moreover have "wf_mappings (at_mappings s')" if "data_server_iteration (demo_env Target_sim) demo_os (demo_turn FREE 0x4000) = Inr s'" for s'
    using data_server_keeps_table [OF start(1) _ that, of list_live list_room] start list_allocator_contract by (simp add: env)
  ultimately show ?thesis using turn free by blast
qed

end
