(* ===== verification/Axi_Frontend.thy ===== *)
theory Axi_Frontend
  imports Cmd_Server
begin

text \<open>
  The AXI-Lite front end of a simulation build (include/sim/axi/state_machine.h): three state machines
  that share one control bus. \<open>update_command_state\<close> sends the five words of a command,
  \<open>update_resp_state\<close> collects the three words of a response, \<open>update_update_state\<close> polls for either.

  One call of \<open>tick\<close> is \<open>axi_tick\<close>: it reads the signals the accelerator drives (\<open>axi_in\<close>), and the
  signals the front end drives are fields of \<open>axi_state\<close> (\<open>aw_valid\<close>, \<open>aw_addr\<close>, ...). \<open>srv\<close> is the
  state shared with the command server: the queue \<open>cmds\<close>, \<open>in_flight\<close> and the mutexes. \<open>stats\<close> holds the
  counters that are reset when a command has been sent. Printing is left out.

  \<open>axi_inv\<close> says who owns the bus; the interpretation \<open>axi_bus\<close> of \<open>step_machine\<close> carries it over
  every run. The handshakes of a run are collected by \<open>axi_events\<close>.
\<close>

section \<open>Model\<close>

datatype cmd_transfer_state =
    CMD_INACTIVE | CMD_BITS_WRITE_ADDR | CMD_BITS_WRITE_DAT | CMD_BITS_WRITE_B
  | CMD_VALID_ADDR | CMD_VALID_DAT | CMD_VALID_WRITE_B
  | CMD_RECHECK_READY_ADDR | CMD_RECHECK_READY_DAT

datatype resp_transfer_state =
    RESPT_INACTIVE | RESPT_BITS_ADDR | RESPT_BITS_READ | RESPT_READY_ADDR | RESPT_READY_WRITE
  | RESPT_READY_WRITE_B | RESPT_RECHECK_VALID_ADDR | RESPT_RECHECK_VALID_READ

datatype update_state =
    UPDATE_IDLE_RESP | UPDATE_IDLE_CMD | UPDATE_CMD_ADDR | UPDATE_CMD_WAIT
  | UPDATE_RESP_ADDR | UPDATE_RESP_WAIT

record command_transaction =
  cmdbuf :: "u32 list"
  cmd_progress :: int
  cmd_st :: cmd_transfer_state
  ready_for_command :: bool

record response_transaction =
  resbuf :: "u32 list"
  rsp_progress :: int
  rsp_st :: resp_transfer_state

definition cmd_payload_length :: int where
  "cmd_payload_length = 5"

definition rsp_payload_length :: int where
  "rsp_payload_length = 3"

definition check_freq :: int where
  "check_freq = 50"

record axi_in =
  aw_ready :: bool
  w_ready :: bool
  b_valid :: bool
  ar_ready :: bool
  r_valid :: bool
  r_data :: u64
  main_time :: u64

text \<open>The counters the frontends print. \<open>dram_resets\<close> counts the calls of \<open>ResetStats\<close> of the DRAM model; \<open>transacted\<close> is the global
  \<open>memory_transacted\<close>, which the memory half of the cycle increases.\<close>

record sim_stats =
  time_last_command :: u64
  transacted :: u64
  dram_resets :: nat

record ('cmd, 'resp) axi_state =
  aw_valid :: bool
  aw_addr :: u32
  w_valid :: bool
  w_data :: u32
  b_ready :: bool
  ar_valid :: bool
  ar_addr :: u32
  r_ready :: bool
  ongoing_cmd :: command_transaction
  ongoing_rsp :: response_transaction
  ongoing_update :: update_state
  check_freq_ctr :: int
  bus_occupied :: bool
  start_times :: "(int \<times> int) \<rightharpoonup> u64"
  cmds_inflight :: int
  srv :: "('cmd, 'resp) cmd_state"
  stats :: sim_stats

record ('cmd, 'resp) axi_cfg =
  cfg_hw :: hw_map
  cfg_ops :: "('cmd, 'resp) rocc_ops"
  ROCC_OP_FLUSH :: int
  NUM_DDR_CHANNELS :: nat

definition set_cmd_st :: "cmd_transfer_state \<Rightarrow> ('cmd, 'resp) axi_state \<Rightarrow> ('cmd, 'resp) axi_state" where
  "set_cmd_st st s = s\<lparr>ongoing_cmd := (ongoing_cmd s)\<lparr>cmd_st := st\<rparr>\<rparr>"

definition set_rsp_st :: "resp_transfer_state \<Rightarrow> ('cmd, 'resp) axi_state \<Rightarrow> ('cmd, 'resp) axi_state" where
  "set_rsp_st st s = s\<lparr>ongoing_rsp := (ongoing_rsp s)\<lparr>rsp_st := st\<rparr>\<rparr>"

text \<open>The case \<open>CMD_INACTIVE\<close>: take the next command of the server's queue when the bus is free.\<close>

definition start_command ::
  "('cmd, 'resp) axi_cfg \<Rightarrow> axi_in \<Rightarrow> 'cmd \<Rightarrow> 'cmd list \<Rightarrow> ('cmd, 'resp) axi_state \<Rightarrow> ('cmd, 'resp) axi_state" where
  "start_command cfg i c cs s =
     (let ops = cfg_ops cfg
      in s\<lparr>bus_occupied := True,
           start_times := (if getXd ops c \<noteq> 0
             then (start_times s)((getSystemId ops c, getCoreId ops c) \<mapsto> main_time i) else start_times s),
           ongoing_cmd := (ongoing_cmd s)\<lparr>cmd_st := CMD_BITS_WRITE_ADDR, cmdbuf := pack ops c, cmd_progress := 0\<rparr>,
           cmds_inflight := (if getXd ops c = 1 then cmds_inflight s + 1 else cmds_inflight s),
           srv := (srv s)\<lparr>kill_sig := getOpcode ops c = ROCC_OP_FLUSH cfg, cmds := cs\<rparr>\<rparr>)"

definition accept_command ::
  "('cmd, 'resp) axi_cfg \<Rightarrow> axi_in \<Rightarrow> ('cmd, 'resp) axi_state \<Rightarrow> ('cmd, 'resp) axi_state res" where
  "accept_command cfg i s =
     (if ready_for_command (ongoing_cmd s) \<and> \<not> bus_occupied s
         \<and> (ongoing_update s = UPDATE_IDLE_CMD \<or> ongoing_update s = UPDATE_IDLE_RESP) then
        rbind (mutex_lock (cmdserverlock (srv s))) (\<lambda>_.
        case cmds (srv s) of
          [] \<Rightarrow> Inr s
        | c # cs \<Rightarrow> Inr (start_command cfg i c cs s))
      else Inr s)"

text \<open>The loop over the memory channels when a command has been sent.\<close>

fun reset_stats :: "nat \<Rightarrow> u64 \<Rightarrow> sim_stats \<Rightarrow> sim_stats" where
  "reset_stats 0 t st = st"
| "reset_stats (Suc n) t st = reset_stats n t (st\<lparr>dram_resets := dram_resets st + 1, time_last_command := t, transacted := 0\<rparr>)"

definition update_command_state ::
  "('cmd, 'resp) axi_cfg \<Rightarrow> axi_in \<Rightarrow> ('cmd, 'resp) axi_state \<Rightarrow> ('cmd, 'resp) axi_state res" where
  "update_command_state cfg i s =
     (case cmd_st (ongoing_cmd s) of
        CMD_BITS_WRITE_ADDR \<Rightarrow>
          (let s = s\<lparr>ongoing_cmd := (ongoing_cmd s)\<lparr>ready_for_command := False\<rparr>,
                     aw_valid := True, aw_addr := CMD_BITS (cfg_hw cfg)\<rparr>
           in Inr (if aw_ready i then set_cmd_st CMD_BITS_WRITE_DAT s else s))
      | CMD_BITS_WRITE_DAT \<Rightarrow>
          rbind (nth_res (cmdbuf (ongoing_cmd s)) (cmd_progress (ongoing_cmd s))) (\<lambda>w.
          (let s = s\<lparr>w_valid := True, w_data := w\<rparr>
           in Inr (if w_ready i then set_cmd_st CMD_BITS_WRITE_B s else s)))
      | CMD_BITS_WRITE_B \<Rightarrow>
          (let s = s\<lparr>b_ready := True\<rparr>
           in Inr (if b_valid i then set_cmd_st CMD_VALID_ADDR s else s))
      | CMD_VALID_ADDR \<Rightarrow>
          (let s = s\<lparr>aw_valid := True, aw_addr := CMD_VALID (cfg_hw cfg)\<rparr>
           in Inr (if aw_ready i then set_cmd_st CMD_VALID_DAT s else s))
      | CMD_VALID_DAT \<Rightarrow>
          (let s = s\<lparr>w_valid := True, w_data := 1\<rparr>
           in Inr (if w_ready i then set_cmd_st CMD_VALID_WRITE_B s else s))
      | CMD_VALID_WRITE_B \<Rightarrow>
          (let s = s\<lparr>b_ready := True\<rparr>
           in if b_valid i then
                (let s = s\<lparr>ongoing_cmd := (ongoing_cmd s)\<lparr>cmd_progress := cmd_progress (ongoing_cmd s) + 1\<rparr>\<rparr>
                 in if cmd_progress (ongoing_cmd s) = cmd_payload_length
                    then Inr ((set_cmd_st CMD_INACTIVE s)\<lparr>bus_occupied := False,
                           stats := reset_stats (NUM_DDR_CHANNELS cfg) (main_time i) (stats s)\<rparr>)
                    else Inr (set_cmd_st CMD_RECHECK_READY_ADDR s))
              else Inr s)
      | CMD_RECHECK_READY_ADDR \<Rightarrow>
          (let s = s\<lparr>ar_valid := True, ar_addr := CMD_READY (cfg_hw cfg)\<rparr>
           in Inr (if ar_ready i then set_cmd_st CMD_RECHECK_READY_DAT s else s))
      | CMD_RECHECK_READY_DAT \<Rightarrow>
          (let s = s\<lparr>r_ready := True\<rparr>
           in Inr (if r_valid i then
                     (if r_data i \<noteq> 0 then set_cmd_st CMD_BITS_WRITE_ADDR s
                      else set_cmd_st CMD_RECHECK_READY_ADDR s)
                   else s))
      | CMD_INACTIVE \<Rightarrow> accept_command cfg i s)"

text \<open>The case \<open>RESPT_READY_WRITE_B\<close>, which \<open>RESPT_READY_WRITE\<close> falls through to.\<close>

definition rsp_write_b ::
  "('cmd, 'resp) axi_cfg \<Rightarrow> axi_in \<Rightarrow> ('cmd, 'resp) axi_state \<Rightarrow> ('cmd, 'resp) axi_state res" where
  "rsp_write_b cfg i s =
     (let s = s\<lparr>b_ready := True\<rparr>
      in if b_valid i then
           (if rsp_progress (ongoing_rsp s) = rsp_payload_length then
              rbind (register_reponse (cfg_ops cfg) (resbuf (ongoing_rsp s)) (srv s)) (\<lambda>srv'.
              Inr ((set_rsp_st RESPT_INACTIVE s)\<lparr>srv := srv', cmds_inflight := cmds_inflight s - 1,
                    bus_occupied := False\<rparr>))
            else Inr (set_rsp_st RESPT_RECHECK_VALID_ADDR s))
         else Inr s)"

definition update_resp_state ::
  "('cmd, 'resp) axi_cfg \<Rightarrow> axi_in \<Rightarrow> ('cmd, 'resp) axi_state \<Rightarrow> ('cmd, 'resp) axi_state res" where
  "update_resp_state cfg i s =
     (case rsp_st (ongoing_rsp s) of
        RESPT_INACTIVE \<Rightarrow> Inr s
      | RESPT_BITS_ADDR \<Rightarrow>
          (let s = s\<lparr>ar_addr := RESP_BITS (cfg_hw cfg), ar_valid := True\<rparr>
           in Inr (if ar_ready i then set_rsp_st RESPT_BITS_READ s else s))
      | RESPT_BITS_READ \<Rightarrow>
          (let s = s\<lparr>r_ready := True\<rparr>
           in if r_valid i then
                rbind (upd_res (resbuf (ongoing_rsp s)) (rsp_progress (ongoing_rsp s)) (ucast (r_data i))) (\<lambda>buf.
                Inr (set_rsp_st RESPT_READY_ADDR
                  (s\<lparr>ongoing_rsp := (ongoing_rsp s)\<lparr>resbuf := buf, rsp_progress := rsp_progress (ongoing_rsp s) + 1\<rparr>\<rparr>)))
              else Inr s)
      | RESPT_READY_ADDR \<Rightarrow>
          (let s = s\<lparr>aw_valid := True, aw_addr := RESP_READY (cfg_hw cfg)\<rparr>
           in Inr (if aw_ready i then set_rsp_st RESPT_READY_WRITE s else s))
      | RESPT_READY_WRITE \<Rightarrow>
          (let s = s\<lparr>w_valid := True, w_data := 1\<rparr>
           in rsp_write_b cfg i (if w_ready i then set_rsp_st RESPT_READY_WRITE_B s else s))
      | RESPT_READY_WRITE_B \<Rightarrow> rsp_write_b cfg i s
      | RESPT_RECHECK_VALID_ADDR \<Rightarrow>
          (let s = s\<lparr>ar_valid := True, ar_addr := RESP_VALID (cfg_hw cfg)\<rparr>
           in Inr (if ar_ready i then set_rsp_st RESPT_RECHECK_VALID_READ s else s))
      | RESPT_RECHECK_VALID_READ \<Rightarrow>
          (let s = s\<lparr>r_ready := True\<rparr>
           in Inr (if r_valid i then
                     (if r_data i \<noteq> 0 then set_rsp_st RESPT_BITS_ADDR s
                      else set_rsp_st RESPT_RECHECK_VALID_ADDR s)
                   else s)))"

definition update_update_state ::
  "('cmd, 'resp) axi_cfg \<Rightarrow> axi_in \<Rightarrow> ('cmd, 'resp) axi_state \<Rightarrow> ('cmd, 'resp) axi_state" where
  "update_update_state cfg i s =
     (case ongoing_update s of
        UPDATE_IDLE_RESP \<Rightarrow>
          if \<not> bus_occupied s \<and> check_freq_ctr s > check_freq
          then s\<lparr>check_freq_ctr := 0, bus_occupied := True, ongoing_update := UPDATE_RESP_ADDR\<rparr>
          else s\<lparr>check_freq_ctr := check_freq_ctr s + 1\<rparr>
      | UPDATE_RESP_ADDR \<Rightarrow>
          (let s = s\<lparr>ar_valid := True, ar_addr := RESP_VALID (cfg_hw cfg)\<rparr>
           in if ar_ready i then s\<lparr>ongoing_update := UPDATE_RESP_WAIT\<rparr> else s)
      | UPDATE_RESP_WAIT \<Rightarrow>
          (let s = s\<lparr>r_ready := True\<rparr>
           in if r_valid i then
                (let s = s\<lparr>ongoing_rsp := (ongoing_rsp s)\<lparr>rsp_progress := 0\<rparr>\<rparr>;
                     s = (if r_data i \<noteq> 0 then set_rsp_st RESPT_BITS_ADDR s else s\<lparr>bus_occupied := False\<rparr>)
                 in s\<lparr>ongoing_update := UPDATE_IDLE_CMD\<rparr>)
              else s)
      | UPDATE_IDLE_CMD \<Rightarrow>
          if \<not> bus_occupied s \<and> check_freq_ctr s > check_freq
          then s\<lparr>check_freq_ctr := 0, bus_occupied := True, ongoing_update := UPDATE_CMD_ADDR\<rparr>
          else s\<lparr>check_freq_ctr := check_freq_ctr s + 1\<rparr>
      | UPDATE_CMD_ADDR \<Rightarrow>
          (let s = s\<lparr>ar_valid := True, ar_addr := CMD_READY (cfg_hw cfg)\<rparr>
           in if ar_ready i then s\<lparr>ongoing_update := UPDATE_CMD_WAIT\<rparr> else s)
      | UPDATE_CMD_WAIT \<Rightarrow>
          (let s = s\<lparr>r_ready := True\<rparr>;
               s = (if r_valid i then
                      s\<lparr>ongoing_cmd := (ongoing_cmd s)\<lparr>ready_for_command := r_data i \<noteq> 0\<rparr>,
                        ongoing_update := (if cmds_inflight s > 0 then UPDATE_IDLE_RESP else UPDATE_IDLE_CMD)\<rparr>
                    else s)
           in s\<lparr>bus_occupied := False\<rparr>))"

definition axi_tick ::
  "('cmd, 'resp) axi_cfg \<Rightarrow> axi_in \<Rightarrow> ('cmd, 'resp) axi_state \<Rightarrow> ('cmd, 'resp) axi_state res" where
  "axi_tick cfg i s =
     (let s = s\<lparr>aw_valid := False, w_valid := False, ar_valid := False, b_ready := False, r_ready := False\<rparr>
      in rbind (update_command_state cfg i s) (\<lambda>s.
         rbind (update_resp_state cfg i s) (\<lambda>s.
         Inr (update_update_state cfg i s))))"

section \<open>Who owns the bus\<close>

fun update_idle :: "update_state \<Rightarrow> bool" where
  "update_idle UPDATE_IDLE_RESP = True"
| "update_idle UPDATE_IDLE_CMD = True"
| "update_idle _ = False"

definition cmd_active :: "('cmd, 'resp) axi_state \<Rightarrow> bool" where
  "cmd_active s \<longleftrightarrow> cmd_st (ongoing_cmd s) \<noteq> CMD_INACTIVE"

definition rsp_active :: "('cmd, 'resp) axi_state \<Rightarrow> bool" where
  "rsp_active s \<longleftrightarrow> rsp_st (ongoing_rsp s) \<noteq> RESPT_INACTIVE"

definition upd_active :: "('cmd, 'resp) axi_state \<Rightarrow> bool" where
  "upd_active s \<longleftrightarrow> \<not> update_idle (ongoing_update s)"

fun rsp_range :: "resp_transfer_state \<Rightarrow> int \<Rightarrow> bool" where
  "rsp_range RESPT_INACTIVE p = True"
| "rsp_range RESPT_BITS_ADDR p = (0 \<le> p \<and> p \<le> 2)"
| "rsp_range RESPT_BITS_READ p = (0 \<le> p \<and> p \<le> 2)"
| "rsp_range RESPT_RECHECK_VALID_ADDR p = (1 \<le> p \<and> p \<le> 2)"
| "rsp_range RESPT_RECHECK_VALID_READ p = (1 \<le> p \<and> p \<le> 2)"
| "rsp_range _ p = (1 \<le> p \<and> p \<le> 3)"

definition bus_inv ::
  "cmd_transfer_state \<Rightarrow> int \<Rightarrow> resp_transfer_state \<Rightarrow> int \<Rightarrow> update_state \<Rightarrow> bool \<Rightarrow> bool" where
  "bus_inv cs cp rs rp us occupied =
     (if cs \<noteq> CMD_INACTIVE then rs = RESPT_INACTIVE \<and> update_idle us \<and> occupied \<and> 0 \<le> cp \<and> cp \<le> 4
      else if rs \<noteq> RESPT_INACTIVE then update_idle us \<and> occupied \<and> rsp_range rs rp
      else update_idle us \<or> us = UPDATE_CMD_WAIT \<or> occupied)"

definition axi_inv :: "('cmd, 'resp) axi_state \<Rightarrow> bool" where
  "axi_inv s \<longleftrightarrow>
     bus_inv (cmd_st (ongoing_cmd s)) (cmd_progress (ongoing_cmd s))
       (rsp_st (ongoing_rsp s)) (rsp_progress (ongoing_rsp s)) (ongoing_update s) (bus_occupied s)
     \<and> length (cmdbuf (ongoing_cmd s)) = 5 \<and> length (resbuf (ongoing_rsp s)) = 3"

definition pack_ok :: "('cmd, 'resp) rocc_ops \<Rightarrow> bool" where
  "pack_ok ops \<longleftrightarrow> (\<forall>c. length (pack ops c) = 5)"

lemmas set_st_defs = set_cmd_st_def set_rsp_st_def
lemmas axi_machine_defs [model_defs] =
  update_command_state_def update_resp_state_def update_update_state_def accept_command_def rsp_write_b_def

lemma bus_inv_inactive: "bus_inv cs cp RESPT_INACTIVE rp us False \<Longrightarrow> cs = CMD_INACTIVE"
  by (auto simp: bus_inv_def split: if_splits)

lemma bus_inv_update:
  "bus_inv cs cp rs rp us occupied \<Longrightarrow> \<not> update_idle us \<Longrightarrow> cs = CMD_INACTIVE \<and> rs = RESPT_INACTIVE"
  by (auto simp: bus_inv_def split: if_splits)

lemma bus_inv_free: "bus_inv cs cp rs rp us False \<Longrightarrow> cs = CMD_INACTIVE \<and> rs = RESPT_INACTIVE"
  by (auto simp: bus_inv_def split: if_splits)

lemma accept_command_cases:
  assumes "accept_command cfg i s = Inr s'"
  obtains "s' = s"
  | c cs where "cmds (srv s) = c # cs" "\<not> bus_occupied s" "update_idle (ongoing_update s)"
      "s' = start_command cfg i c cs s"
proof (cases "cmds (srv s)")
  case Nil
  with assms have "s' = s" by (simp add: accept_command_def mutex_lock_def split: if_splits)
  then show ?thesis by (rule that(1))
next
  case (Cons c cs)
  with assms have "s' = s \<or> \<not> bus_occupied s \<and> update_idle (ongoing_update s) \<and> s' = start_command cfg i c cs s"
    by (simp add: accept_command_def mutex_lock_def split: if_splits) (metis update_idle.simps(1,2))
  with Cons that show ?thesis by blast
qed

lemma start_command_fields:
  "bus_occupied (start_command cfg i c cs s)"
  "ongoing_cmd (start_command cfg i c cs s) =
     (ongoing_cmd s)\<lparr>cmd_st := CMD_BITS_WRITE_ADDR, cmdbuf := pack (cfg_ops cfg) c, cmd_progress := 0\<rparr>"
  "ongoing_rsp (start_command cfg i c cs s) = ongoing_rsp s"
  "ongoing_update (start_command cfg i c cs s) = ongoing_update s"
  "cmds (srv (start_command cfg i c cs s)) = cs"
  by (simp_all add: start_command_def Let_def)

lemma accept_command_inv:
  assumes "axi_inv s" and "pack_ok (cfg_ops cfg)" and "accept_command cfg i s = Inr s'"
  shows "axi_inv s'"
  using assms(3)
proof (cases rule: accept_command_cases)
  case 1
  with assms(1) show ?thesis by simp
next
  case (2 c cs)
  have "bus_inv (cmd_st (ongoing_cmd s)) (cmd_progress (ongoing_cmd s))
       (rsp_st (ongoing_rsp s)) (rsp_progress (ongoing_rsp s)) (ongoing_update s) False"
    using assms(1) 2(2) by (simp add: axi_inv_def)
  from bus_inv_free [OF this] have "rsp_st (ongoing_rsp s) = RESPT_INACTIVE" by simp
  then show ?thesis
    using assms(1,2) 2(3,4) by (simp add: axi_inv_def start_command_fields pack_ok_def bus_inv_def)
qed

lemma command_step_inv:
  assumes "axi_inv s" and "pack_ok (cfg_ops cfg)" and "update_command_state cfg i s = Inr s'"
  shows "axi_inv s'"
proof (cases "cmd_st (ongoing_cmd s)")
  case CMD_INACTIVE
  with assms show ?thesis by (auto simp: update_command_state_def intro: accept_command_inv)
qed (use assms in \<open>auto simp: update_command_state_def set_st_defs axi_inv_def bus_inv_def res_simps Let_def
      cmd_payload_length_def split: if_splits\<close>)

lemma rsp_write_b_inv:
  assumes "axi_inv s" and "rsp_st (ongoing_rsp s) \<in> {RESPT_READY_WRITE, RESPT_READY_WRITE_B}"
    and "rsp_write_b cfg i s = Inr s'"
  shows "axi_inv s'"
proof -
  from assms(3) consider (wait) "s' = s\<lparr>b_ready := True\<rparr>"
    | (more) "s' = set_rsp_st RESPT_RECHECK_VALID_ADDR (s\<lparr>b_ready := True\<rparr>)" "rsp_progress (ongoing_rsp s) \<noteq> 3"
    | (fin) "ongoing_cmd s' = ongoing_cmd s" "ongoing_rsp s' = (ongoing_rsp s)\<lparr>rsp_st := RESPT_INACTIVE\<rparr>"
        "ongoing_update s' = ongoing_update s"
    by (fastforce simp: rsp_write_b_def Let_def res_simps rsp_payload_length_def set_rsp_st_def split: if_splits)
  then show ?thesis
    using assms(1,2) by cases (auto simp: set_st_defs axi_inv_def bus_inv_def split: if_splits)
qed

lemma response_step_inv:
  assumes "axi_inv s" and "update_resp_state cfg i s = Inr s'"
  shows "axi_inv s'"
proof (cases "rsp_st (ongoing_rsp s)")
  case RESPT_READY_WRITE
  let ?t = "s\<lparr>w_valid := True, w_data := 1\<rparr>"
  let ?u = "if w_ready i then set_rsp_st RESPT_READY_WRITE_B ?t else ?t"
  have "axi_inv ?u"
    using assms(1) RESPT_READY_WRITE by (auto simp: set_st_defs axi_inv_def bus_inv_def split: if_splits)
  moreover have "rsp_st (ongoing_rsp ?u) \<in> {RESPT_READY_WRITE, RESPT_READY_WRITE_B}"
    using RESPT_READY_WRITE by (simp add: set_rsp_st_def)
  moreover have "rsp_write_b cfg i ?u = Inr s'"
    using assms(2) RESPT_READY_WRITE by (simp add: update_resp_state_def Let_def)
  ultimately show ?thesis by (rule rsp_write_b_inv)
next
  case RESPT_READY_WRITE_B
  with assms show ?thesis by (auto simp: update_resp_state_def intro: rsp_write_b_inv)
qed (use assms in \<open>auto simp: update_resp_state_def set_st_defs axi_inv_def bus_inv_def res_simps Let_def split: if_splits\<close>)

lemma update_step_inv:
  assumes "axi_inv s"
  shows "axi_inv (update_update_state cfg i s)"
  using assms
  by (cases "ongoing_update s")
    (auto simp: update_update_state_def set_st_defs axi_inv_def bus_inv_def Let_def split: if_splits)

lemma axi_tick_inv:
  assumes "axi_inv s" and "pack_ok (cfg_ops cfg)" and "axi_tick cfg i s = Inr s'"
  shows "axi_inv s'"
proof -
  let ?s = "s\<lparr>aw_valid := False, w_valid := False, ar_valid := False, b_ready := False, r_ready := False\<rparr>"
  have "axi_inv ?s" using assms(1) by (simp add: axi_inv_def)
  with assms(2,3) show ?thesis
    by (auto simp: axi_tick_def res_simps intro: command_step_inv response_step_inv update_step_inv)
qed

text \<open>A failing tick ends the program; \<open>axi_step\<close> keeps the state it failed in.\<close>

definition axi_step ::
  "('cmd, 'resp) axi_cfg \<Rightarrow> axi_in \<Rightarrow> ('cmd, 'resp) axi_state \<Rightarrow> ('cmd, 'resp) axi_state" where
  "axi_step cfg i s = (case axi_tick cfg i s of Inl e \<Rightarrow> s | Inr s' \<Rightarrow> s')"

interpretation axi_bus: step_machine "axi_step cfg" "\<lambda>i s. pack_ok (cfg_ops cfg)" axi_inv for cfg
  by unfold_locales (auto simp: axi_step_def intro: axi_tick_inv split: sum.splits)

section \<open>Handshakes\<close>

text \<open>The transfers that happen on the bus in one tick; a read carries the address it answers.\<close>

datatype axi_event = AW u32 | W u32 | B | AR u32 | R u32 u64

definition axi_events :: "axi_in \<Rightarrow> ('cmd, 'resp) axi_state \<Rightarrow> axi_event list" where
  "axi_events i s =
     (if aw_valid s \<and> aw_ready i then [AW (aw_addr s)] else [])
     @ (if w_valid s \<and> w_ready i then [W (w_data s)] else [])
     @ (if b_ready s \<and> b_valid i then [B] else [])
     @ (if ar_valid s \<and> ar_ready i then [AR (ar_addr s)] else [])
     @ (if r_ready s \<and> r_valid i then [R (ar_addr s) (r_data i)] else [])"

fun is_write :: "axi_event \<Rightarrow> bool" where
  "is_write (AW a) = True"
| "is_write (W d) = True"
| "is_write B = True"
| "is_write _ = False"

text \<open>The write traffic of the words of a command, complete and up to a state of the machine.\<close>

definition word_writes :: "hw_map \<Rightarrow> u32 \<Rightarrow> axi_event list" where
  "word_writes hw w = [AW (CMD_BITS hw), W w, B, AW (CMD_VALID hw), W 1, B]"

fun cmd_partial :: "cmd_transfer_state \<Rightarrow> nat" where
  "cmd_partial CMD_BITS_WRITE_DAT = 1"
| "cmd_partial CMD_BITS_WRITE_B = 2"
| "cmd_partial CMD_VALID_ADDR = 3"
| "cmd_partial CMD_VALID_DAT = 4"
| "cmd_partial CMD_VALID_WRITE_B = 5"
| "cmd_partial _ = 0"

definition cmd_written :: "hw_map \<Rightarrow> command_transaction \<Rightarrow> axi_event list" where
  "cmd_written hw c =
     concat (map (word_writes hw) (take (nat (cmd_progress c)) (cmdbuf c)))
     @ (if cmd_partial (cmd_st c) = 0 then []
        else take (cmd_partial (cmd_st c)) (word_writes hw (cmdbuf c ! nat (cmd_progress c))))"

definition clear_signals :: "('cmd, 'resp) axi_state \<Rightarrow> ('cmd, 'resp) axi_state" where
  "clear_signals s = s\<lparr>aw_valid := False, w_valid := False, ar_valid := False, b_ready := False, r_ready := False\<rparr>"

lemma axi_tick_clear: "axi_tick cfg i s =
    rbind (update_command_state cfg i (clear_signals s)) (\<lambda>s.
    rbind (update_resp_state cfg i s) (\<lambda>s. Inr (update_update_state cfg i s)))"
  by (simp add: axi_tick_def clear_signals_def)

lemma clear_signals_fields [simp]:
  "ongoing_cmd (clear_signals s) = ongoing_cmd s" "ongoing_rsp (clear_signals s) = ongoing_rsp s"
  "ongoing_update (clear_signals s) = ongoing_update s" "bus_occupied (clear_signals s) = bus_occupied s"
  "\<not> aw_valid (clear_signals s)" "\<not> w_valid (clear_signals s)" "\<not> ar_valid (clear_signals s)"
  "\<not> b_ready (clear_signals s)" "\<not> r_ready (clear_signals s)" "srv (clear_signals s) = srv s"
  "cmds_inflight (clear_signals s) = cmds_inflight s" "ar_addr (clear_signals s) = ar_addr s"
  by (simp_all add: clear_signals_def)

lemma update_idle_eq:
  assumes "update_idle (ongoing_update s)"
  obtains k b u where "update_update_state cfg i s = s\<lparr>check_freq_ctr := k, bus_occupied := b, ongoing_update := u\<rparr>"
proof (cases "\<not> bus_occupied s \<and> check_freq_ctr s > check_freq")
  case True
  with assms have "update_update_state cfg i s = s\<lparr>check_freq_ctr := 0, bus_occupied := True,
      ongoing_update := if ongoing_update s = UPDATE_IDLE_RESP then UPDATE_RESP_ADDR else UPDATE_CMD_ADDR\<rparr>"
    by (cases "ongoing_update s") (simp_all add: update_update_state_def)
  then show ?thesis by (rule that)
next
  case False
  have "update_update_state cfg i s = s\<lparr>check_freq_ctr := check_freq_ctr s + 1\<rparr>"
    using assms by (cases "ongoing_update s")
      (simp_all only: update_update_state_def update_state.case if_not_P [OF False] update_idle.simps)
  also have "\<dots> = s\<lparr>check_freq_ctr := check_freq_ctr s + 1, bus_occupied := bus_occupied s,
      ongoing_update := ongoing_update s\<rparr>" by simp
  finally show ?thesis by (rule that)
qed

lemma update_idle_fields:
  assumes "update_idle (ongoing_update s)"
  shows "ongoing_cmd (update_update_state cfg i s) = ongoing_cmd s"
    "ongoing_rsp (update_update_state cfg i s) = ongoing_rsp s"
    "srv (update_update_state cfg i s) = srv s"
    "axi_events i (update_update_state cfg i s) = axi_events i s"
  by (rule update_idle_eq [OF assms, where cfg = cfg and i = i]; simp add: axi_events_def)+

text \<open>While a command is being sent, only its machine drives the bus.\<close>

lemma command_step_rsp:
  assumes "update_command_state cfg i s = Inr s'"
  shows "ongoing_rsp s' = ongoing_rsp s" "ongoing_update s' = ongoing_update s"
proof -
  have "ongoing_rsp s' = ongoing_rsp s \<and> ongoing_update s' = ongoing_update s"
  proof (cases "cmd_st (ongoing_cmd s)")
    case CMD_INACTIVE
    with assms have "accept_command cfg i s = Inr s'" by (simp add: update_command_state_def)
    then show ?thesis by (cases rule: accept_command_cases) (simp_all add: start_command_fields)
  qed (use assms in \<open>auto simp: update_command_state_def set_st_defs res_simps Let_def split: if_splits\<close>)
  then show "ongoing_rsp s' = ongoing_rsp s" "ongoing_update s' = ongoing_update s" by simp_all
qed

lemma axi_tick_cmd:
  assumes "axi_inv s" and "cmd_active s"
  shows "axi_tick cfg i s =
    rbind (update_command_state cfg i (clear_signals s)) (\<lambda>s1. Inr (update_update_state cfg i s1))"
proof (cases "update_command_state cfg i (clear_signals s)")
  case (Inl e)
  then show ?thesis by (simp add: axi_tick_clear)
next
  case (Inr s1)
  have "rsp_st (ongoing_rsp s1) = RESPT_INACTIVE"
    using assms command_step_rsp(1) [OF Inr] by (simp add: axi_inv_def bus_inv_def cmd_active_def split: if_splits)
  then show ?thesis by (simp add: axi_tick_clear Inr update_resp_state_def)
qed

text \<open>One tick of the command machine extends the written words by exactly the handshakes of the tick.\<close>

lemma command_step_written:
  assumes "cmd_st (ongoing_cmd s) \<noteq> CMD_INACTIVE" and "0 \<le> cmd_progress (ongoing_cmd s)" "cmd_progress (ongoing_cmd s) \<le> 4"
    and "length (cmdbuf (ongoing_cmd s)) = 5"
  shows "case update_command_state cfg i (clear_signals s) of
      Inl e \<Rightarrow> False
    | Inr s' \<Rightarrow> cmdbuf (ongoing_cmd s') = cmdbuf (ongoing_cmd s)
        \<and> cmd_written (cfg_hw cfg) (ongoing_cmd s') =
            cmd_written (cfg_hw cfg) (ongoing_cmd s) @ filter is_write (axi_events i s')
        \<and> (cmd_st (ongoing_cmd s') = CMD_INACTIVE \<longrightarrow> cmd_progress (ongoing_cmd s') = 5)"
proof -
  let ?c = "ongoing_cmd s"
  have p: "nat (cmd_progress ?c) < length (cmdbuf ?c)" using assms(2-4) by simp
  have suc: "nat (cmd_progress ?c + 1) = Suc (nat (cmd_progress ?c))" using assms(2) by simp
  have nth: "nth_res (cmdbuf ?c) (cmd_progress ?c) = Inr (cmdbuf ?c ! nat (cmd_progress ?c))"
    using assms(2-4) by (simp add: nth_res_def)
  have t5: "take 5 (cmdbuf ?c) = take 4 (cmdbuf ?c) @ [cmdbuf ?c ! 4]"
    using take_Suc_conv_app_nth [of 4 "cmdbuf ?c"] assms(4) by simp
  show ?thesis
    using assms(1)
    by (cases "cmd_st ?c")
      (simp_all add: update_command_state_def set_st_defs Let_def nth cmd_written_def axi_events_def word_writes_def
        cmd_payload_length_def suc t5 take_Suc_conv_app_nth [OF p])
qed


lemma axi_tick_written:
  assumes "axi_inv s" and "cmd_active s" and "axi_tick cfg i s = Inr s'"
  shows "cmdbuf (ongoing_cmd s') = cmdbuf (ongoing_cmd s)"
    and "cmd_written (cfg_hw cfg) (ongoing_cmd s') =
      cmd_written (cfg_hw cfg) (ongoing_cmd s) @ filter is_write (axi_events i s')"
    and "\<not> cmd_active s' \<Longrightarrow> cmd_progress (ongoing_cmd s') = 5"
proof -
  from assms(3) obtain s1 where s1: "update_command_state cfg i (clear_signals s) = Inr s1"
    and s': "s' = update_update_state cfg i s1"
    by (auto simp: axi_tick_cmd [OF assms(1,2)] res_simps)
  have idle: "update_idle (ongoing_update s1)" and st: "cmd_st (ongoing_cmd s) \<noteq> CMD_INACTIVE"
    and p: "0 \<le> cmd_progress (ongoing_cmd s)" "cmd_progress (ongoing_cmd s) \<le> 4" and l: "length (cmdbuf (ongoing_cmd s)) = 5"
    using assms(1,2) command_step_rsp(2) [OF s1]
    by (simp_all add: axi_inv_def bus_inv_def cmd_active_def split: if_splits)
  note f = update_idle_fields [OF idle, where cfg = cfg and i = i, folded s']
  from command_step_written [OF st p l, where cfg = cfg and i = i] f
  show "cmdbuf (ongoing_cmd s') = cmdbuf (ongoing_cmd s)"
    and "cmd_written (cfg_hw cfg) (ongoing_cmd s') =
      cmd_written (cfg_hw cfg) (ongoing_cmd s) @ filter is_write (axi_events i s')"
    and "\<not> cmd_active s' \<Longrightarrow> cmd_progress (ongoing_cmd s') = 5"
    unfolding s1 cmd_active_def by simp_all
qed

text \<open>A run to the end of the transfer: ticks until the command machine is inactive or the inputs end.\<close>

fun transfer_run :: "('cmd, 'resp) axi_cfg \<Rightarrow> axi_in list \<Rightarrow> ('cmd, 'resp) axi_state
    \<Rightarrow> (axi_event list \<times> ('cmd, 'resp) axi_state) res" where
  "transfer_run cfg [] s = Inr ([], s)"
| "transfer_run cfg (i # is) s =
     (if \<not> cmd_active s then Inr ([], s)
      else rbind (axi_tick cfg i s) (\<lambda>s1.
           rbind (transfer_run cfg is s1) (\<lambda>(evs, s2). Inr (axi_events i s1 @ evs, s2))))"

lemma transfer_run_written:
  assumes "transfer_run cfg is s = Inr (evs, s')" and "axi_inv s" and "pack_ok (cfg_ops cfg)"
    and "\<not> cmd_active s \<Longrightarrow> cmd_progress (ongoing_cmd s) = 5"
  shows "axi_inv s' \<and> cmdbuf (ongoing_cmd s') = cmdbuf (ongoing_cmd s)
    \<and> cmd_written (cfg_hw cfg) (ongoing_cmd s') = cmd_written (cfg_hw cfg) (ongoing_cmd s) @ filter is_write evs
    \<and> (\<not> cmd_active s' \<longrightarrow> cmd_progress (ongoing_cmd s') = 5)"
  using assms
proof (induction "is" arbitrary: s evs)
  case Nil
  then show ?case by simp
next
  case (Cons i "is")
  show ?case
  proof (cases "cmd_active s")
    case True
    with Cons.prems(1) obtain s1 evs1 where s1: "axi_tick cfg i s = Inr s1"
      and r: "transfer_run cfg is s1 = Inr (evs1, s')" and evs: "evs = axi_events i s1 @ evs1"
      by (auto simp: res_simps)
    note w = axi_tick_written [OF Cons.prems(2) True s1]
    from Cons.IH [OF r axi_tick_inv [OF Cons.prems(2,3) s1] Cons.prems(3) w(3)] w(1,2) evs
    show ?thesis by simp
  next
    case False
    with Cons.prems show ?thesis by simp
  qed
qed

text \<open>With an accelerator that accepts at once, every tick is one step of the transfer.\<close>

definition all_ready :: "axi_in \<Rightarrow> bool" where
  "all_ready i \<longleftrightarrow> aw_ready i \<and> w_ready i \<and> b_valid i \<and> ar_ready i \<and> r_valid i \<and> r_data i \<noteq> 0"

fun cmd_ticks_word :: "cmd_transfer_state \<Rightarrow> nat" where
  "cmd_ticks_word CMD_RECHECK_READY_ADDR = 8"
| "cmd_ticks_word CMD_RECHECK_READY_DAT = 7"
| "cmd_ticks_word CMD_BITS_WRITE_ADDR = 6"
| "cmd_ticks_word CMD_BITS_WRITE_DAT = 5"
| "cmd_ticks_word CMD_BITS_WRITE_B = 4"
| "cmd_ticks_word CMD_VALID_ADDR = 3"
| "cmd_ticks_word CMD_VALID_DAT = 2"
| "cmd_ticks_word CMD_VALID_WRITE_B = 1"
| "cmd_ticks_word CMD_INACTIVE = 0"

definition cmd_ticks_left :: "command_transaction \<Rightarrow> nat" where
  "cmd_ticks_left c = (if cmd_st c = CMD_INACTIVE then 0 else cmd_ticks_word (cmd_st c) + 8 * nat (4 - cmd_progress c))"

lemma command_step_ready:
  assumes "all_ready i" and "cmd_st (ongoing_cmd s) \<noteq> CMD_INACTIVE"
    and "0 \<le> cmd_progress (ongoing_cmd s)" "cmd_progress (ongoing_cmd s) \<le> 4"
    and "length (cmdbuf (ongoing_cmd s)) = 5"
  shows "case update_command_state cfg i s of
      Inl e \<Rightarrow> False
    | Inr s' \<Rightarrow> Suc (cmd_ticks_left (ongoing_cmd s')) = cmd_ticks_left (ongoing_cmd s)"
proof -
  let ?c = "ongoing_cmd s"
  have nth: "nth_res (cmdbuf ?c) (cmd_progress ?c) = Inr (cmdbuf ?c ! nat (cmd_progress ?c))"
    using assms(3-5) by (simp add: nth_res_def)
  show ?thesis
    using assms(1-4)
    by (cases "cmd_st ?c")
      (simp_all add: update_command_state_def set_st_defs Let_def nth all_ready_def cmd_ticks_left_def
        cmd_payload_length_def, arith)
qed

lemma axi_tick_ready:
  assumes "axi_inv s" and "cmd_active s" and "all_ready i"
  obtains s' where "axi_tick cfg i s = Inr s'"
    and "Suc (cmd_ticks_left (ongoing_cmd s')) = cmd_ticks_left (ongoing_cmd s)"
proof -
  have st: "cmd_st (ongoing_cmd (clear_signals s)) \<noteq> CMD_INACTIVE"
    "0 \<le> cmd_progress (ongoing_cmd (clear_signals s))" "cmd_progress (ongoing_cmd (clear_signals s)) \<le> 4"
    "length (cmdbuf (ongoing_cmd (clear_signals s))) = 5"
    using assms(1,2) by (simp_all add: axi_inv_def bus_inv_def cmd_active_def split: if_splits)
  from command_step_ready [OF assms(3) st, of cfg] obtain s1
    where s1: "update_command_state cfg i (clear_signals s) = Inr s1"
      and k: "Suc (cmd_ticks_left (ongoing_cmd s1)) = cmd_ticks_left (ongoing_cmd s)"
    by (auto split: sum.splits)
  have idle: "update_idle (ongoing_update s1)"
    using assms(1,2) command_step_rsp(2) [OF s1]
    by (simp add: axi_inv_def bus_inv_def cmd_active_def split: if_splits)
  show ?thesis
    using that [of "update_update_state cfg i s1"] s1 k update_idle_fields(1) [OF idle, of cfg i]
    by (simp add: axi_tick_cmd [OF assms(1,2)])
qed

lemma transfer_run_ready:
  assumes "axi_inv s" and "pack_ok (cfg_ops cfg)" and "list_all all_ready is"
    and "cmd_ticks_left (ongoing_cmd s) \<le> length is"
  shows "\<exists>evs s'. transfer_run cfg is s = Inr (evs, s') \<and> \<not> cmd_active s'"
  using assms
proof (induction "is" arbitrary: s)
  case Nil
  then have "cmd_st (ongoing_cmd s) = CMD_INACTIVE"
    by (cases "cmd_st (ongoing_cmd s)") (simp_all add: cmd_ticks_left_def)
  then show ?case by (simp add: cmd_active_def)
next
  case (Cons i "is")
  show ?case
  proof (cases "cmd_active s")
    case True
    from Cons.prems(3) have "all_ready i" and rest: "list_all all_ready is" by simp_all
    from axi_tick_ready [OF Cons.prems(1) True this(1), of cfg] obtain s1
      where s1: "axi_tick cfg i s = Inr s1" and k: "Suc (cmd_ticks_left (ongoing_cmd s1)) = cmd_ticks_left (ongoing_cmd s)"
      by blast
    from Cons.IH [OF axi_tick_inv [OF Cons.prems(1,2) s1] Cons.prems(2) rest] k Cons.prems(4)
    obtain evs s2 where "transfer_run cfg is s1 = Inr (evs, s2)" "\<not> cmd_active s2" by auto
    with s1 True show ?thesis by simp
  next
    case False
    then show ?thesis by simp
  qed
qed

section \<open>Collecting a response\<close>

fun resp_words :: "hw_map \<Rightarrow> axi_event list \<Rightarrow> u32 list" where
  "resp_words hw [] = []"
| "resp_words hw (R a d # es) = (if a = RESP_BITS hw then ucast d # resp_words hw es else resp_words hw es)"
| "resp_words hw (e # es) = resp_words hw es"

text \<open>The address a pending read answers.\<close>

definition rsp_addr_ok :: "hw_map \<Rightarrow> ('cmd, 'resp) axi_state \<Rightarrow> bool" where
  "rsp_addr_ok hw s \<longleftrightarrow>
     (rsp_st (ongoing_rsp s) = RESPT_BITS_READ \<longrightarrow> ar_addr s = RESP_BITS hw)
     \<and> (rsp_st (ongoing_rsp s) = RESPT_RECHECK_VALID_READ \<longrightarrow> ar_addr s = RESP_VALID hw)"

definition rsp_words_read :: "response_transaction \<Rightarrow> u32 list" where
  "rsp_words_read r = take (nat (rsp_progress r)) (resbuf r)"

definition rsp_step_ok ::
  "('cmd, 'resp) axi_cfg \<Rightarrow> axi_in \<Rightarrow> ('cmd, 'resp) axi_state \<Rightarrow> ('cmd, 'resp) axi_state \<Rightarrow> bool" where
  "rsp_step_ok cfg i s s' \<longleftrightarrow>
     rsp_addr_ok (cfg_hw cfg) s'
     \<and> rsp_words_read (ongoing_rsp s') = rsp_words_read (ongoing_rsp s) @ resp_words (cfg_hw cfg) (axi_events i s')
     \<and> ongoing_cmd s' = ongoing_cmd s \<and> ongoing_update s' = ongoing_update s
     \<and> (if rsp_st (ongoing_rsp s') = RESPT_INACTIVE
        then rsp_progress (ongoing_rsp s') = 3
          \<and> register_reponse (cfg_ops cfg) (resbuf (ongoing_rsp s')) (srv s) = Inr (srv s')
        else srv s' = srv s)"

lemma rsp_write_b_step:
  assumes "\<not> aw_valid s" "\<not> ar_valid s" "\<not> r_ready s" and "rsp_st (ongoing_rsp s) \<in> {RESPT_READY_WRITE, RESPT_READY_WRITE_B}"
    and "rsp_write_b cfg i s = Inr s'"
  shows "rsp_step_ok cfg i s s'"
proof (cases "register_reponse (cfg_ops cfg) (resbuf (ongoing_rsp s)) (srv s)")
  case (Inl e)
  have "case rsp_write_b cfg i s of Inl e \<Rightarrow> True | Inr s' \<Rightarrow> rsp_step_ok cfg i s s'"
    using assms(1-4)
    by (auto simp: rsp_write_b_def Let_def Inl set_rsp_st_def rsp_step_ok_def rsp_addr_ok_def rsp_words_read_def axi_events_def)
  with assms(5) show ?thesis by simp
next
  case (Inr v)
  have "case rsp_write_b cfg i s of Inl e \<Rightarrow> True | Inr s' \<Rightarrow> rsp_step_ok cfg i s s'"
    using assms(1-4)
    by (auto simp: rsp_write_b_def Let_def Inr set_rsp_st_def rsp_step_ok_def rsp_addr_ok_def rsp_words_read_def
        axi_events_def rsp_payload_length_def)
  with assms(5) show ?thesis by simp
qed

lemma response_step_words:
  assumes "rsp_st (ongoing_rsp s) \<noteq> RESPT_INACTIVE" and "rsp_range (rsp_st (ongoing_rsp s)) (rsp_progress (ongoing_rsp s))"
    and "length (resbuf (ongoing_rsp s)) = 3" and "rsp_addr_ok (cfg_hw cfg) s"
    and "RESP_BITS (cfg_hw cfg) \<noteq> RESP_VALID (cfg_hw cfg)"
    and "update_resp_state cfg i (clear_signals s) = Inr s'"
  shows "rsp_step_ok cfg i s s'"
proof (cases "rsp_st (ongoing_rsp s)")
  case RESPT_READY_WRITE
  let ?t = "(clear_signals s)\<lparr>w_valid := True, w_data := 1\<rparr>"
  let ?u = "if w_ready i then set_rsp_st RESPT_READY_WRITE_B ?t else ?t"
  have "rsp_write_b cfg i ?u = Inr s'"
    using assms(6) RESPT_READY_WRITE by (simp add: update_resp_state_def Let_def)
  then have "rsp_step_ok cfg i ?u s'"
    by (rule rsp_write_b_step [rotated -1]) (simp_all add: set_rsp_st_def RESPT_READY_WRITE)
  then show ?thesis by (auto simp: rsp_step_ok_def rsp_words_read_def set_rsp_st_def split: if_splits)
next
  case RESPT_READY_WRITE_B
  with assms(6) have "rsp_write_b cfg i (clear_signals s) = Inr s'" by (simp add: update_resp_state_def)
  then have "rsp_step_ok cfg i (clear_signals s) s'"
    by (rule rsp_write_b_step [rotated -1]) (simp_all add: RESPT_READY_WRITE_B)
  then show ?thesis unfolding rsp_step_ok_def clear_signals_fields .
next
  case RESPT_BITS_READ
  have p: "nat (rsp_progress (ongoing_rsp s)) < length (resbuf (ongoing_rsp s))"
    and q: "0 \<le> rsp_progress (ongoing_rsp s)" "rsp_progress (ongoing_rsp s) < int (length (resbuf (ongoing_rsp s)))"
    using assms(2,3) RESPT_BITS_READ by auto
  have suc: "nat (rsp_progress (ongoing_rsp s) + 1) = Suc (nat (rsp_progress (ongoing_rsp s)))" using q(1) by simp
  have "case update_resp_state cfg i (clear_signals s) of Inl e \<Rightarrow> True | Inr s' \<Rightarrow> rsp_step_ok cfg i s s'"
    using assms(4) RESPT_BITS_READ q
    by (simp add: update_resp_state_def Let_def upd_res_def set_rsp_st_def rsp_step_ok_def rsp_addr_ok_def
        rsp_words_read_def axi_events_def suc take_upd_next [OF p])
  with assms(6) show ?thesis by simp
next
  case RESPT_INACTIVE
  with assms(1) show ?thesis by simp
next
  case RESPT_BITS_ADDR
  have "case update_resp_state cfg i (clear_signals s) of Inl e \<Rightarrow> True | Inr s' \<Rightarrow> rsp_step_ok cfg i s s'"
    by (simp add: RESPT_BITS_ADDR update_resp_state_def Let_def set_rsp_st_def rsp_step_ok_def rsp_addr_ok_def
        rsp_words_read_def axi_events_def)
  with assms(6) show ?thesis by simp
next
  case RESPT_READY_ADDR
  have "case update_resp_state cfg i (clear_signals s) of Inl e \<Rightarrow> True | Inr s' \<Rightarrow> rsp_step_ok cfg i s s'"
    by (simp add: RESPT_READY_ADDR update_resp_state_def Let_def set_rsp_st_def rsp_step_ok_def rsp_addr_ok_def
        rsp_words_read_def axi_events_def)
  with assms(6) show ?thesis by simp
next
  case RESPT_RECHECK_VALID_ADDR
  have "case update_resp_state cfg i (clear_signals s) of Inl e \<Rightarrow> True | Inr s' \<Rightarrow> rsp_step_ok cfg i s s'"
    by (simp add: RESPT_RECHECK_VALID_ADDR update_resp_state_def Let_def set_rsp_st_def rsp_step_ok_def rsp_addr_ok_def
        rsp_words_read_def axi_events_def)
  with assms(6) show ?thesis by simp
next
  case RESPT_RECHECK_VALID_READ
  have "case update_resp_state cfg i (clear_signals s) of Inl e \<Rightarrow> True | Inr s' \<Rightarrow> rsp_step_ok cfg i s s'"
    using assms(4,5)
    by (simp add: RESPT_RECHECK_VALID_READ update_resp_state_def Let_def set_rsp_st_def rsp_step_ok_def rsp_addr_ok_def
        rsp_words_read_def axi_events_def)
  with assms(6) show ?thesis by simp
qed

lemma axi_tick_rsp:
  assumes "axi_inv s" and "rsp_active s"
  shows "axi_tick cfg i s = rbind (update_resp_state cfg i (clear_signals s)) (\<lambda>s1. Inr (update_update_state cfg i s1))"
proof -
  have "cmd_st (ongoing_cmd s) = CMD_INACTIVE" "bus_occupied s"
    using assms by (auto simp: axi_inv_def bus_inv_def rsp_active_def split: if_splits)
  then have "update_command_state cfg i (clear_signals s) = Inr (clear_signals s)"
    by (simp add: update_command_state_def accept_command_def)
  then show ?thesis by (simp add: axi_tick_clear)
qed

lemma axi_tick_rsp_words:
  assumes "axi_inv s" and "rsp_active s" and "rsp_addr_ok (cfg_hw cfg) s"
    and "RESP_BITS (cfg_hw cfg) \<noteq> RESP_VALID (cfg_hw cfg)" and "axi_tick cfg i s = Inr s'"
  shows "rsp_addr_ok (cfg_hw cfg) s'"
    and "rsp_words_read (ongoing_rsp s') = rsp_words_read (ongoing_rsp s) @ resp_words (cfg_hw cfg) (axi_events i s')"
    and "if rsp_active s' then srv s' = srv s
      else rsp_progress (ongoing_rsp s') = 3
        \<and> register_reponse (cfg_ops cfg) (resbuf (ongoing_rsp s')) (srv s) = Inr (srv s')"
proof -
  from assms(5) obtain s1 where s1: "update_resp_state cfg i (clear_signals s) = Inr s1"
    and s': "s' = update_update_state cfg i s1"
    by (auto simp: axi_tick_rsp [OF assms(1,2)] res_simps)
  have range: "rsp_st (ongoing_rsp s) \<noteq> RESPT_INACTIVE"
    "rsp_range (rsp_st (ongoing_rsp s)) (rsp_progress (ongoing_rsp s))" "length (resbuf (ongoing_rsp s)) = 3"
    "update_idle (ongoing_update s)"
    using assms(1,2) by (auto simp: axi_inv_def bus_inv_def rsp_active_def split: if_splits)
  note ok = response_step_words [OF range(1-3) assms(3,4) s1]
  have idle: "update_idle (ongoing_update s1)" using ok range(4) by (simp only: rsp_step_ok_def)
  note f = update_idle_fields [OF idle, where cfg = cfg and i = i, folded s']
  have "ar_addr s' = ar_addr s1"
    unfolding s' by (rule update_idle_eq [OF idle, where cfg = cfg and i = i]) simp
  with ok f(2) show "rsp_addr_ok (cfg_hw cfg) s'" unfolding rsp_step_ok_def rsp_addr_ok_def by simp
  show "rsp_words_read (ongoing_rsp s') = rsp_words_read (ongoing_rsp s) @ resp_words (cfg_hw cfg) (axi_events i s')"
    using ok unfolding f rsp_step_ok_def by blast
  show "if rsp_active s' then srv s' = srv s
      else rsp_progress (ongoing_rsp s') = 3
        \<and> register_reponse (cfg_ops cfg) (resbuf (ongoing_rsp s')) (srv s) = Inr (srv s')"
    using ok unfolding f rsp_step_ok_def rsp_active_def by (simp split: if_splits)
qed

fun response_run :: "('cmd, 'resp) axi_cfg \<Rightarrow> axi_in list \<Rightarrow> ('cmd, 'resp) axi_state
    \<Rightarrow> (axi_event list \<times> ('cmd, 'resp) axi_state) res" where
  "response_run cfg [] s = Inr ([], s)"
| "response_run cfg (i # is) s =
     (if \<not> rsp_active s then Inr ([], s)
      else rbind (axi_tick cfg i s) (\<lambda>s1.
           rbind (response_run cfg is s1) (\<lambda>(evs, s2). Inr (axi_events i s1 @ evs, s2))))"

lemma resp_words_append: "resp_words hw (xs @ ys) = resp_words hw xs @ resp_words hw ys"
  by (induction xs rule: resp_words.induct) auto

lemma response_run_words:
  assumes "response_run cfg is s = Inr (evs, s')" and "rsp_active s" and "\<not> rsp_active s'"
    and "axi_inv s" and "pack_ok (cfg_ops cfg)"
    and "rsp_addr_ok (cfg_hw cfg) s" and "RESP_BITS (cfg_hw cfg) \<noteq> RESP_VALID (cfg_hw cfg)"
  shows "length (rsp_words_read (ongoing_rsp s) @ resp_words (cfg_hw cfg) evs) = 3
    \<and> register_reponse (cfg_ops cfg) (rsp_words_read (ongoing_rsp s) @ resp_words (cfg_hw cfg) evs) (srv s) = Inr (srv s')"
  using assms
proof (induction "is" arbitrary: s evs)
  case Nil
  then show ?case by simp
next
  case (Cons i "is")
  from Cons.prems(1,2) obtain s1 evs1 where s1: "axi_tick cfg i s = Inr s1"
    and r: "response_run cfg is s1 = Inr (evs1, s')" and evs: "evs = axi_events i s1 @ evs1"
    by (auto simp: res_simps)
  note w = axi_tick_rsp_words [OF Cons.prems(4,2,6,7) s1]
  have inv1: "axi_inv s1" by (rule axi_tick_inv [OF Cons.prems(4,5) s1])
  show ?case
  proof (cases "rsp_active s1")
    case True
    from Cons.IH [OF r True Cons.prems(3) inv1 Cons.prems(5) w(1) Cons.prems(7)] w(2,3) True evs
    show ?thesis by (simp add: resp_words_append)
  next
    case False
    with r have "evs1 = []" "s' = s1" by (cases "is"; simp)+
    moreover have "rsp_words_read (ongoing_rsp s1) = resbuf (ongoing_rsp s1)" "length (resbuf (ongoing_rsp s1)) = 3"
      using False w(3) inv1 by (simp_all add: rsp_words_read_def axi_inv_def)
    ultimately show ?thesis using w(2,3) False evs by simp
  qed
qed

section \<open>Properties\<close>

text \<open>A concrete front end, an accelerator that is always ready, and two words of a response read.\<close>

definition demo_cfg :: "(int \<times> int \<times> int \<times> u32, u32 list) axi_cfg" where
  "demo_cfg = \<lparr>cfg_hw = demo_hw, cfg_ops = demo_ops, ROCC_OP_FLUSH = 1, NUM_DDR_CHANNELS = 1\<rparr>"

definition demo_axi :: "cmd_transfer_state \<Rightarrow> resp_transfer_state \<Rightarrow> (int \<times> int \<times> int \<times> u32, u32 list) axi_state" where
  "demo_axi c r = \<lparr>aw_valid = False, aw_addr = 0, w_valid = False, w_data = 0, b_ready = False,
     ar_valid = False, ar_addr = 0, r_ready = False,
     ongoing_cmd = \<lparr>cmdbuf = [11, 12, 13, 14, 15], cmd_progress = 0, cmd_st = c, ready_for_command = True\<rparr>,
     ongoing_rsp = \<lparr>resbuf = [0, 0, 0], rsp_progress = 0, rsp_st = r\<rparr>,
     ongoing_update = UPDATE_IDLE_CMD, check_freq_ctr = 0,
     bus_occupied = (c \<noteq> CMD_INACTIVE \<or> r \<noteq> RESPT_INACTIVE), start_times = Map.empty, cmds_inflight = 0,
     srv = demo_cs, stats = \<lparr>time_last_command = 0, transacted = 0, dram_resets = 0\<rparr>\<rparr>"

definition ready_in :: "u64 \<Rightarrow> axi_in" where
  "ready_in d = \<lparr>aw_ready = True, w_ready = True, b_valid = True, ar_ready = True, r_valid = True, r_data = d, main_time = 0\<rparr>"

lemma demo_pack_ok: "pack_ok (cfg_ops demo_cfg)"
  by (simp add: pack_ok_def demo_cfg_def demo_ops_def)

lemma demo_axi_inv:
  "axi_inv (demo_axi CMD_BITS_WRITE_ADDR RESPT_INACTIVE)" "axi_inv (demo_axi CMD_INACTIVE RESPT_BITS_ADDR)"
  "axi_inv (demo_axi CMD_INACTIVE RESPT_INACTIVE)"
  by (simp_all add: axi_inv_def bus_inv_def demo_axi_def)

text \<open>C16: the three machines never use the control bus at the same time. Along every run of ticks, whatever
  the accelerator drives, at most one of sending a command, collecting a response and polling is
  active, and every index into the command and response buffers is in range.\<close>

theorem bus_exclusive:
  assumes "axi_inv s" and "ok_run (axi_step cfg) (\<lambda>i s. pack_ok (cfg_ops cfg)) is s"
  shows "axi_inv (run (axi_step cfg) is s)
    \<and> length (filter id [cmd_active (run (axi_step cfg) is s), rsp_active (run (axi_step cfg) is s),
                         upd_active (run (axi_step cfg) is s)]) \<le> 1"
proof -
  have "axi_inv (run (axi_step cfg) is s)" by (rule axi_bus.inv_run [OF assms])
  then show ?thesis
    by (auto simp: axi_inv_def bus_inv_def cmd_active_def rsp_active_def upd_active_def split: if_splits)
qed

theorem bus_exclusive_witness:
  "axi_inv (run (axi_step demo_cfg) (replicate 60 (ready_in 1)) (demo_axi CMD_BITS_WRITE_ADDR RESPT_INACTIVE))"
proof -
  have "ok_run (axi_step demo_cfg) (\<lambda>i s. pack_ok (cfg_ops demo_cfg)) is s" for "is" and s :: "(int \<times> int \<times> int \<times> u32, u32 list) axi_state"
    by (induction "is" arbitrary: s) (simp_all add: demo_pack_ok)
  from bus_exclusive [OF demo_axi_inv(1) this] show ?thesis by blast
qed

text \<open>A command is written to the accelerator word by word and in order. From the tick that takes the
  command, whatever handshake timing the accelerator chooses, the write traffic of the transfer is a
  prefix of: for each of the five words a write of the word to \<open>CMD_BITS\<close> and of one to \<open>CMD_VALID\<close>,
  each with its response. When the machine is inactive again it is all of it.\<close>

theorem command_words_in_order:
  assumes "axi_inv s" and "pack_ok (cfg_ops cfg)" and "cmd_st (ongoing_cmd s) = CMD_BITS_WRITE_ADDR"
    and "cmd_progress (ongoing_cmd s) = 0" and "transfer_run cfg is s = Inr (evs, s')"
  shows "(\<exists>rest. filter is_write evs @ rest = concat (map (word_writes (cfg_hw cfg)) (cmdbuf (ongoing_cmd s))))
    \<and> (\<not> cmd_active s' \<longrightarrow> filter is_write evs = concat (map (word_writes (cfg_hw cfg)) (cmdbuf (ongoing_cmd s))))"
proof -
  have act: "cmd_active s" using assms(3) by (simp add: cmd_active_def)
  have w0: "cmd_written (cfg_hw cfg) (ongoing_cmd s) = []" using assms(3,4) by (simp add: cmd_written_def)
  from transfer_run_written [OF assms(5,1,2)] act w0
  have inv: "axi_inv s'" and buf: "cmdbuf (ongoing_cmd s') = cmdbuf (ongoing_cmd s)"
    and w: "cmd_written (cfg_hw cfg) (ongoing_cmd s') = filter is_write evs"
    and fin: "\<not> cmd_active s' \<longrightarrow> cmd_progress (ongoing_cmd s') = 5" by auto
  let ?ws = "cmdbuf (ongoing_cmd s)" and ?n = "nat (cmd_progress (ongoing_cmd s'))" and ?f = "word_writes (cfg_hw cfg)"
  have len: "length ?ws = 5" using assms(1) by (simp add: axi_inv_def)
  have all: "\<not> cmd_active s' \<longrightarrow> filter is_write evs = concat (map ?f ?ws)"
    using fin w len buf by (auto simp: cmd_written_def cmd_active_def)
  have "\<exists>rest. filter is_write evs @ rest = concat (map ?f ?ws)" if "cmd_active s'"
  proof -
    from inv that have "?n < length ?ws"
      using len by (auto simp: axi_inv_def bus_inv_def cmd_active_def split: if_splits)
    then have sp: "?ws = take ?n ?ws @ ?ws ! ?n # drop (Suc ?n) ?ws" by (simp add: id_take_nth_drop [symmetric])
    have "concat (map ?f ?ws) = concat (map ?f (take ?n ?ws)) @ ?f (?ws ! ?n) @ concat (map ?f (drop (Suc ?n) ?ws))"
      by (subst sp) (simp del: append_take_drop_id)
    moreover have "\<exists>r. (if cmd_partial (cmd_st (ongoing_cmd s')) = 0 then []
        else take (cmd_partial (cmd_st (ongoing_cmd s'))) (?f (?ws ! ?n))) @ r = ?f (?ws ! ?n)"
      by (auto intro: append_take_drop_id)
    ultimately show ?thesis unfolding w [symmetric] cmd_written_def buf by (metis append.assoc)
  qed
  with all show ?thesis by (cases "cmd_active s'") (auto intro: exI [of _ "[]"])
qed

text \<open>Sending a command ends. With an accelerator that accepts every transfer at once, the five words
  are sent in 38 ticks: six for each word and two for each of the four ready checks between words.\<close>

theorem command_transfer_ends:
  assumes "axi_inv s" and "pack_ok (cfg_ops cfg)" and "cmd_st (ongoing_cmd s) = CMD_BITS_WRITE_ADDR"
    and "cmd_progress (ongoing_cmd s) = 0" and "list_all all_ready is" and "38 \<le> length is"
  shows "\<exists>evs s'. transfer_run cfg is s = Inr (evs, s') \<and> \<not> cmd_active s'"
proof -
  have "cmd_ticks_left (ongoing_cmd s) = 38" using assms(3,4) by (simp add: cmd_ticks_left_def)
  with assms(6) show ?thesis by (intro transfer_run_ready [OF assms(1,2,5)]) simp
qed

theorem command_transfer_ends_witness:
  "\<exists>evs s'. transfer_run demo_cfg (replicate 40 (ready_in 1)) (demo_axi CMD_BITS_WRITE_ADDR RESPT_INACTIVE) = Inr (evs, s')
     \<and> \<not> cmd_active s'"
  by (rule command_transfer_ends [OF demo_axi_inv(1) demo_pack_ok])
    (simp_all add: demo_axi_def list_all_iff all_ready_def ready_in_def)

theorem command_words_in_order_witness:
  "\<exists>evs s'. transfer_run demo_cfg [ready_in 1, ready_in 1] (demo_axi CMD_BITS_WRITE_ADDR RESPT_INACTIVE) = Inr (evs, s')
     \<and> (\<exists>rest. filter is_write evs @ rest = concat (map (word_writes demo_hw) [11, 12, 13, 14, 15]))"
proof -
  have "is_ok (transfer_run demo_cfg [ready_in 1, ready_in 1] (demo_axi CMD_BITS_WRITE_ADDR RESPT_INACTIVE))"
    by (simp add: cmd_active_def demo_axi_def axi_tick_def update_command_state_def update_resp_state_def
        update_update_state_def set_st_defs ready_in_def check_freq_def nth_res_def)
  then obtain evs s' where r: "transfer_run demo_cfg [ready_in 1, ready_in 1] (demo_axi CMD_BITS_WRITE_ADDR RESPT_INACTIVE) = Inr (evs, s')"
    by (auto simp: is_ok_iff)
  with command_words_in_order [OF demo_axi_inv(1) demo_pack_ok _ _ r] show ?thesis
    by (simp add: demo_axi_def demo_cfg_def)
qed

text \<open>C17: a response reaches the server exactly as it was read. From the tick that finds a valid response,
  whatever the timing of the handshakes, when the machine is inactive again it has read exactly three
  words from \<open>RESP_BITS\<close>, and the server's state is what one call of \<open>register_reponse\<close> with these words,
  in order, makes of the state at the start.\<close>

theorem response_words_delivered:
  assumes "axi_inv s" and "pack_ok (cfg_ops cfg)" and "RESP_BITS (cfg_hw cfg) \<noteq> RESP_VALID (cfg_hw cfg)"
    and "rsp_st (ongoing_rsp s) = RESPT_BITS_ADDR" and "rsp_progress (ongoing_rsp s) = 0"
    and "response_run cfg is s = Inr (evs, s')" and "\<not> rsp_active s'"
  shows "length (resp_words (cfg_hw cfg) evs) = 3
    \<and> register_reponse (cfg_ops cfg) (resp_words (cfg_hw cfg) evs) (srv s) = Inr (srv s')"
proof -
  have "rsp_active s" "rsp_addr_ok (cfg_hw cfg) s" "rsp_words_read (ongoing_rsp s) = []"
    using assms(4,5) by (simp_all add: rsp_active_def rsp_addr_ok_def rsp_words_read_def)
  with response_run_words [OF assms(6) _ assms(7,1,2) _ assms(3)] show ?thesis by simp
qed

lemma demo_response_run:
  "case response_run demo_cfg (replicate 16 (ready_in 7)) (demo_axi CMD_INACTIVE RESPT_BITS_ADDR) of
     Inl e \<Rightarrow> False | Inr (evs, s') \<Rightarrow> \<not> rsp_active s'"
  by code_simp

theorem response_words_delivered_witness:
  "\<exists>evs s'. response_run demo_cfg (replicate 16 (ready_in 7)) (demo_axi CMD_INACTIVE RESPT_BITS_ADDR) = Inr (evs, s')
     \<and> length (resp_words demo_hw evs) = 3 \<and> register_reponse demo_ops (resp_words demo_hw evs) demo_cs = Inr (srv s')"
proof -
  from demo_response_run obtain evs s' where r: "response_run demo_cfg (replicate 16 (ready_in 7)) (demo_axi CMD_INACTIVE RESPT_BITS_ADDR) = Inr (evs, s')"
    and "\<not> rsp_active s'" by (auto split: sum.splits prod.splits)
  from response_words_delivered [OF demo_axi_inv(2) demo_pack_ok _ _ _ this] r show ?thesis
    by (simp add: demo_axi_def demo_cfg_def demo_hw_def)
qed

end
