(* ===== verification/Mem_Ctrl.thy ===== *)
theory Mem_Ctrl
  imports Runtime_Prelude
begin

text \<open>
  The memory controller of the simulator (include/sim/mem_ctrl.h, src/sim/mem_ctrl.cc): AXI transactions
  are cut into DRAM requests, handed to the DRAM model, and returned beat by beat as the requests
  complete.

  A \<open>shared_ptr<memory_transaction>\<close> is an index into \<open>tx_heap\<close>, since one transaction is reached from
  several queues and is updated through each. The DRAM model (DRAMsim3) is not part of the repository:
  whether it accepts a request is the parameter \<open>accept\<close> (all reads are asked before the one request
  of a call is handed over, all writes after it, so one function of address and kind covers both), the requests handed to it are collected in
  \<open>dram_log\<close>, and the completion callbacks it makes are the operations \<open>read_callback\<close> and
  \<open>write_callback\<close>, in any order. Sizes and lengths are positive in the code, so \<open>div\<close> is its integer
  division.

  The tables \<open>in_flight_reads\<close> and \<open>in_flight_writes\<close> meet the contract \<open>keyed_fifo\<close>.
\<close>

section \<open>Model\<close>

record mem_params =
  DATA_BUS_BYTES :: int              \<comment> \<open>\<open>DATA_BUS_WIDTH / 8\<close>\<close>
  DDR_BUS_WIDTH_BYTES :: int
  axi_ddr_bus_multiplicity :: int
  TOTAL_BURST :: int
  DDR_ENQUEUE_SIZE_BYTES :: int

text \<open>\<open>mem_ctrl::init\<close>; \<open>bus_width\<close> and \<open>bl\<close> come from the DRAM configuration.\<close>

definition mem_ctrl_init :: "int \<Rightarrow> int \<Rightarrow> int \<Rightarrow> mem_params res" where
  "mem_ctrl_init data_bus_width bus_width bl =
     (let bytes = bus_width div 8
      in if bytes = 0 then Inl Div_by_zero
         else if bytes > data_bus_width div 8 then Inl Assert_failed
         else Inr \<lparr>DATA_BUS_BYTES = data_bus_width div 8, DDR_BUS_WIDTH_BYTES = bytes,
                   axi_ddr_bus_multiplicity = (data_bus_width div 8) div bytes,
                   TOTAL_BURST = bl, DDR_ENQUEUE_SIZE_BYTES = bytes * bl\<rparr>)"

record memory_transaction =
  tx_addr :: u64
  tx_size :: int
  tx_len :: int
  axi_bus_beats_progress :: int
  tx_id :: int
  tx_fixed :: bool
  tx_fpga_addr :: u64
  dram_tx_n_enqueues :: int
  dram_tx_axi_enqueue_progress :: int
  dram_tx_load_progress :: int
  can_be_last :: bool
  is_intermediate :: bool
  ddr_bus_beats_retrieved :: "bool list"

definition new_transaction ::
  "mem_params \<Rightarrow> u64 \<Rightarrow> int \<Rightarrow> int \<Rightarrow> int \<Rightarrow> bool \<Rightarrow> int \<Rightarrow> u64 \<Rightarrow> bool \<Rightarrow> memory_transaction" where
  "new_transaction P addr sz len progress fixed rid fpga_addr intermediate =
     (let n = (len * sz) div DDR_ENQUEUE_SIZE_BYTES P;
          n = (if n = 0 then 1 else n)
      in \<lparr>tx_addr = addr, tx_size = sz, tx_len = len, axi_bus_beats_progress = progress, tx_id = rid,
          tx_fixed = fixed, tx_fpga_addr = fpga_addr, dram_tx_n_enqueues = n,
          dram_tx_axi_enqueue_progress = 0, dram_tx_load_progress = 0, can_be_last = True,
          is_intermediate = intermediate,
          ddr_bus_beats_retrieved = replicate (nat (n * TOTAL_BURST P)) False\<rparr>)"

definition axi_bus_beats_length :: "mem_params \<Rightarrow> memory_transaction \<Rightarrow> int" where
  "axi_bus_beats_length P tx = (tx_len tx * tx_size tx) div DATA_BUS_BYTES P"

definition dramsim_tx_finished :: "memory_transaction \<Rightarrow> bool" where
  "dramsim_tx_finished tx \<longleftrightarrow> dram_tx_axi_enqueue_progress tx \<ge> dram_tx_n_enqueues tx"

definition bankId :: "memory_transaction \<Rightarrow> int" where
  "bankId tx = sint (ucast (drop_bit 12 (tx_fpga_addr tx)) :: u32)"

text \<open>The \<open>for\<close> loop of \<open>dramsim_hasBeatReady\<close>, from index \<open>j\<close> for \<open>n\<close> entries.\<close>

fun all_retrieved :: "bool list \<Rightarrow> int \<Rightarrow> nat \<Rightarrow> bool res" where
  "all_retrieved xs j 0 = Inr True"
| "all_retrieved xs j (Suc n) =
     rbind (nth_res xs j) (\<lambda>b. if \<not> b then Inr False else all_retrieved xs (j + 1) n)"

definition dramsim_hasBeatReady :: "mem_params \<Rightarrow> memory_transaction \<Rightarrow> bool res" where
  "dramsim_hasBeatReady P tx =
     (if axi_bus_beats_progress tx = axi_bus_beats_length P tx then Inr False
      else
        (let j = axi_bus_beats_progress tx * axi_ddr_bus_multiplicity P
         in rbind (all_retrieved (ddr_bus_beats_retrieved tx) j (nat (axi_ddr_bus_multiplicity P))) (\<lambda>b.
            if \<not> b then Inr False else nth_res (ddr_bus_beats_retrieved tx) j)))"

text \<open>One beat for the read data channel, made from the transaction's next beat.\<close>

definition next_beat :: "mem_params \<Rightarrow> memory_transaction \<Rightarrow> memory_transaction" where
  "next_beat P tx =
     (new_transaction P (tx_addr tx) (tx_size tx) 1 0 False (tx_id tx) 0 True)
       \<lparr>tx_fpga_addr := tx_fpga_addr tx,
        can_be_last := (axi_bus_beats_progress tx = axi_bus_beats_length P tx - 1)\<rparr>"

text \<open>The \<open>while\<close> loop of the read callback. The index it reads grows by at least one per turn, so a number
  of turns above the length of the vector is never needed.\<close>

fun emit_beats :: "nat \<Rightarrow> mem_params \<Rightarrow> memory_transaction \<Rightarrow> (memory_transaction \<times> memory_transaction list) res" where
  "emit_beats 0 P tx = Inl Diverges"
| "emit_beats (Suc n) P tx =
     rbind (dramsim_hasBeatReady P tx) (\<lambda>rdy.
     if \<not> rdy then Inr (tx, [])
     else rbind (emit_beats n P (tx\<lparr>tx_addr := tx_addr tx + of_int (tx_size tx),
                                   axi_bus_beats_progress := axi_bus_beats_progress tx + 1\<rparr>)) (\<lambda>(tx', bs).
          Inr (tx', next_beat P tx # bs)))"

text \<open>\<open>vector[j + i] = true\<close> for \<open>i < n\<close>.\<close>

fun mark_retrieved :: "bool list \<Rightarrow> int \<Rightarrow> nat \<Rightarrow> bool list res" where
  "mark_retrieved xs j 0 = Inr xs"
| "mark_retrieved xs j (Suc n) = rbind (upd_res xs j True) (\<lambda>xs. mark_retrieved xs (j + 1) n)"

text \<open>What one completed DRAM request does to its transaction, and the beats it releases.\<close>

definition read_complete ::
  "mem_params \<Rightarrow> u64 \<Rightarrow> memory_transaction \<Rightarrow> (memory_transaction \<times> memory_transaction list) res" where
  "read_complete P addr tx =
     (let tx = tx\<lparr>dram_tx_load_progress := dram_tx_load_progress tx + 1\<rparr>;
          j = sint (ucast (addr - tx_fpga_addr tx) :: u32) sdiv DDR_BUS_WIDTH_BYTES P
      in rbind (mark_retrieved (ddr_bus_beats_retrieved tx) j (nat (TOTAL_BURST P))) (\<lambda>v.
         emit_beats (length v + 1) P (tx\<lparr>ddr_bus_beats_retrieved := v\<rparr>)))"

definition write_complete :: "memory_transaction \<Rightarrow> memory_transaction \<times> int list" where
  "write_complete tx =
     (let tx = tx\<lparr>axi_bus_beats_progress := axi_bus_beats_progress tx - 1\<rparr>
      in (tx, if axi_bus_beats_progress tx = 0 then [tx_id tx] else []))"

record mem_intf =
  tx_heap :: "memory_transaction list"
  ddr_read_q :: "nat list"
  ddr_write_q :: "nat list"
  in_flight_reads :: "u64 \<rightharpoonup> nat list"
  in_flight_writes :: "u64 \<rightharpoonup> nat list"
  read_transactions :: "nat list"
  write_transactions :: "nat list"
  b_send_ids :: "int list"
  b_to_enqueue :: "int list"
  num_in_flight_writes :: int
  dram_log :: "(u64 \<times> bool) list"
  read_queue_lock :: bool
  write_queue_lock :: bool

definition max_q_length :: nat where
  "max_q_length = 40"

definition max_in_flight_writes :: int where
  "max_in_flight_writes = 32"

definition can_accept_read :: "mem_intf \<Rightarrow> bool" where
  "can_accept_read m \<longleftrightarrow> length (ddr_read_q m) < max_q_length"

definition can_accept_write :: "mem_intf \<Rightarrow> bool" where
  "can_accept_write m \<longleftrightarrow> length (ddr_write_q m) < max_q_length"

text \<open>\<open>make_shared\<close>: a fresh pointer.\<close>

definition make_shared :: "memory_transaction \<Rightarrow> mem_intf \<Rightarrow> nat \<times> mem_intf" where
  "make_shared tx m = (length (tx_heap m), m\<lparr>tx_heap := tx_heap m @ [tx]\<rparr>)"

definition deref :: "mem_intf \<Rightarrow> nat \<Rightarrow> memory_transaction res" where
  "deref m p = nth_res (tx_heap m) (int p)"

definition enqueue_read :: "memory_transaction \<Rightarrow> mem_intf \<Rightarrow> mem_intf" where
  "enqueue_read tx m = (let (p, m) = make_shared tx m in m\<lparr>read_transactions := q_push (read_transactions m) p\<rparr>)"

definition enqueue_response :: "int \<Rightarrow> mem_intf \<Rightarrow> mem_intf" where
  "enqueue_response rid m = m\<lparr>b_to_enqueue := q_push (b_to_enqueue m) rid\<rparr>"

text \<open>The queue of a DRAM address, made on first use; \<open>front\<close> and \<open>pop\<close> of a missing one go through a null
  pointer.\<close>

definition inflight_push :: "u64 \<Rightarrow> nat \<Rightarrow> (u64 \<rightharpoonup> nat list) \<Rightarrow> (u64 \<rightharpoonup> nat list)" where
  "inflight_push a p m = m(a \<mapsto> q_push (case m a of None \<Rightarrow> [] | Some q \<Rightarrow> q) p)"

definition inflight_take :: "u64 \<Rightarrow> (u64 \<rightharpoonup> nat list) \<Rightarrow> (nat \<times> (u64 \<rightharpoonup> nat list)) res" where
  "inflight_take a m =
     (case m a of
        None \<Rightarrow> Inl Null_pointer
      | Some q \<Rightarrow> rbind (q_front q) (\<lambda>p. rbind (q_pop q) (\<lambda>q. Inr (p, m(a \<mapsto> q)))))"

definition read_callback :: "mem_params \<Rightarrow> u64 \<Rightarrow> mem_intf \<Rightarrow> mem_intf res" where
  "read_callback P addr m =
     rbind (mutex_lock (read_queue_lock m)) (\<lambda>_.
     rbind (inflight_take addr (in_flight_reads m)) (\<lambda>(p, fl).
     rbind (deref m p) (\<lambda>tx.
     rbind (read_complete P addr tx) (\<lambda>(tx', bs).
     Inr (fold enqueue_read bs (m\<lparr>tx_heap := (tx_heap m)[p := tx'], in_flight_reads := fl\<rparr>))))))"

definition write_callback :: "u64 \<Rightarrow> mem_intf \<Rightarrow> mem_intf res" where
  "write_callback addr m =
     rbind (mutex_lock (write_queue_lock m)) (\<lambda>_.
     rbind (inflight_take addr (in_flight_writes m)) (\<lambda>(p, fl).
     rbind (deref m p) (\<lambda>tx.
     (let (tx', ids) = write_complete tx
      in Inr (fold enqueue_response ids (m\<lparr>tx_heap := (tx_heap m)[p := tx'], in_flight_writes := fl\<rparr>))))))"

text \<open>The DRAM address of a transaction's next request.\<close>

definition dimm_addr :: "mem_params \<Rightarrow> memory_transaction \<Rightarrow> u64" where
  "dimm_addr P tx = tx_fpga_addr tx + of_int (DDR_ENQUEUE_SIZE_BYTES P * dram_tx_axi_enqueue_progress tx)"

text \<open>The search of the read queue: \<open>before\<close> is the part of the queue in front of the iterator.\<close>

fun find_read :: "mem_params \<Rightarrow> (u64 \<Rightarrow> bool) \<Rightarrow> mem_intf \<Rightarrow> nat list \<Rightarrow> nat list \<Rightarrow> nat option res" where
  "find_read P accept m before [] = Inr None"
| "find_read P accept m before (p # ps) =
     rbind (deref m p) (\<lambda>mt.
     if accept (tx_fpga_addr mt)
        \<and> \<not> list_ex (\<lambda>q. q < length (tx_heap m) \<and> tx_id (tx_heap m ! q) = tx_id mt) before
        \<and> accept (dimm_addr P mt)
     then Inr (Some p)
     else find_read P accept m (before @ [p]) ps)"

text \<open>Handing the next request of transaction \<open>p\<close> to the DRAM; a transaction whose last request this is leaves
  the queue.\<close>

definition issue_read :: "mem_params \<Rightarrow> nat \<Rightarrow> mem_intf \<Rightarrow> mem_intf res" where
  "issue_read P p m =
     rbind (deref m p) (\<lambda>tx.
     (let a = dimm_addr P tx;
          tx' = tx\<lparr>dram_tx_axi_enqueue_progress := dram_tx_axi_enqueue_progress tx + 1\<rparr>
      in Inr (m\<lparr>tx_heap := (tx_heap m)[p := tx'], dram_log := dram_log m @ [(a, False)],
                in_flight_reads := inflight_push a p (in_flight_reads m),
                ddr_read_q := (if dramsim_tx_finished tx' then remove1 p (ddr_read_q m) else ddr_read_q m)\<rparr>)))"

fun find_write :: "mem_params \<Rightarrow> (u64 \<Rightarrow> bool) \<Rightarrow> mem_intf \<Rightarrow> nat list \<Rightarrow> nat option res" where
  "find_write P accept m [] = Inr None"
| "find_write P accept m (p # ps) =
     rbind (deref m p) (\<lambda>mt. if accept (dimm_addr P mt) then Inr (Some p) else find_write P accept m ps)"

definition issue_write :: "mem_params \<Rightarrow> nat \<Rightarrow> mem_intf \<Rightarrow> mem_intf res" where
  "issue_write P p m =
     rbind (deref m p) (\<lambda>tx.
     (let a = dimm_addr P tx;
          tx' = tx\<lparr>dram_tx_axi_enqueue_progress := dram_tx_axi_enqueue_progress tx + 1\<rparr>
      in Inr (m\<lparr>tx_heap := (tx_heap m)[p := tx'], dram_log := dram_log m @ [(a, True)],
                in_flight_writes := inflight_push a p (in_flight_writes m),
                ddr_write_q := (if dramsim_tx_finished tx' then remove1 p (ddr_write_q m) else ddr_write_q m)\<rparr>)))"

definition try_to_enqueue_ddr ::
  "mem_params \<Rightarrow> (u64 \<Rightarrow> bool \<Rightarrow> bool) \<Rightarrow> mem_intf \<Rightarrow> mem_intf res" where
  "try_to_enqueue_ddr P accept m =
     rbind (mutex_lock (read_queue_lock m)) (\<lambda>_.
     rbind (find_read P (\<lambda>a. accept a False) m [] (ddr_read_q m)) (\<lambda>r.
     rbind (case r of None \<Rightarrow> Inr m | Some p \<Rightarrow> issue_read P p m) (\<lambda>m.
     rbind (mutex_lock (write_queue_lock m)) (\<lambda>_.
     rbind (find_write P (\<lambda>a. accept a True) m (ddr_write_q m)) (\<lambda>w.
     case w of None \<Rightarrow> Inr m | Some p \<Rightarrow> issue_write P p m)))))"

section \<open>Reads: beats in order\<close>

text \<open>A read transaction as it is created, with whole DRAM requests and whole bus beats.\<close>

definition read_tx_ok :: "mem_params \<Rightarrow> memory_transaction \<Rightarrow> bool" where
  "read_tx_ok P tx \<longleftrightarrow>
     0 < DDR_BUS_WIDTH_BYTES P \<and> 0 < TOTAL_BURST P \<and> 0 < axi_ddr_bus_multiplicity P
     \<and> DDR_ENQUEUE_SIZE_BYTES P = DDR_BUS_WIDTH_BYTES P * TOTAL_BURST P
     \<and> DATA_BUS_BYTES P = axi_ddr_bus_multiplicity P * DDR_BUS_WIDTH_BYTES P
     \<and> axi_bus_beats_progress tx = 0 \<and> 0 < dram_tx_n_enqueues tx
     \<and> dram_tx_n_enqueues tx * DDR_ENQUEUE_SIZE_BYTES P = tx_len tx * tx_size tx
     \<and> DATA_BUS_BYTES P dvd tx_len tx * tx_size tx \<and> tx_len tx * tx_size tx < 2 ^ 31
     \<and> ddr_bus_beats_retrieved tx = replicate (nat (dram_tx_n_enqueues tx * TOTAL_BURST P)) False"

abbreviation (input) mult :: "mem_params \<Rightarrow> nat" where
  "mult P \<equiv> nat (axi_ddr_bus_multiplicity P)"

abbreviation (input) burst :: "mem_params \<Rightarrow> nat" where
  "burst P \<equiv> nat (TOTAL_BURST P)"

definition n_beats :: "mem_params \<Rightarrow> memory_transaction \<Rightarrow> nat" where
  "n_beats P tx = nat (axi_bus_beats_length P tx)"

text \<open>The transaction after \<open>p\<close> beats, \<open>l\<close> completions and with retrieved vector \<open>v\<close>; its beat \<open>k\<close>.\<close>

definition tx_at :: "memory_transaction \<Rightarrow> int \<Rightarrow> bool list \<Rightarrow> nat \<Rightarrow> memory_transaction" where
  "tx_at tx l v p = tx\<lparr>tx_addr := tx_addr tx + of_int (tx_size tx * int p), axi_bus_beats_progress := int p,
     dram_tx_load_progress := l, ddr_bus_beats_retrieved := v\<rparr>"

definition beat :: "mem_params \<Rightarrow> memory_transaction \<Rightarrow> nat \<Rightarrow> memory_transaction" where
  "beat P tx k = (new_transaction P (tx_addr tx + of_int (tx_size tx * int k)) (tx_size tx) 1 0 False (tx_id tx) 0 True)
     \<lparr>tx_fpga_addr := tx_fpga_addr tx, can_be_last := (Suc k = n_beats P tx)\<rparr>"

definition beat_ready :: "mem_params \<Rightarrow> bool list \<Rightarrow> nat \<Rightarrow> bool" where
  "beat_ready P v k \<longleftrightarrow> (\<forall>i < mult P. v ! (k * mult P + i))"

definition beats_done :: "mem_params \<Rightarrow> memory_transaction \<Rightarrow> bool list \<Rightarrow> nat" where
  "beats_done P tx v = length (takeWhile (beat_ready P v) [0..<n_beats P tx])"

definition mark :: "nat \<Rightarrow> nat \<Rightarrow> bool list \<Rightarrow> bool list" where
  "mark j n v = map (\<lambda>i. v ! i \<or> j \<le> i \<and> i < j + n) [0..<length v]"

lemma length_mark [simp]: "length (mark j n v) = length v"
  by (simp add: mark_def)

lemma nth_mark [simp]: "i < length v \<Longrightarrow> mark j n v ! i = (v ! i \<or> j \<le> i \<and> i < j + n)"
  by (simp add: mark_def)

lemma mark_0 [simp]: "mark j 0 v = v"
  by (rule nth_equalityI) auto

lemma mark_Suc: "j < length v \<Longrightarrow> mark (Suc j) n (v[j := True]) = mark j (Suc n) v"
proof (rule nth_equalityI)
  fix i assume "j < length v" and "i < length (mark (Suc j) n (v[j := True]))"
  then show "mark (Suc j) n (v[j := True]) ! i = mark j (Suc n) v ! i" by (cases "i = j") auto
qed simp

lemma mark_retrieved_eq:
  "j + n \<le> length v \<Longrightarrow> mark_retrieved v (int j) n = Inr (mark j n v)"
proof (induction n arbitrary: j v)
  case 0
  then show ?case by simp
next
  case (Suc n)
  from Suc.IH [of "Suc j" "v[j := True]"] Suc.prems
  have "mark_retrieved (v[j := True]) (int j + 1) n = Inr (mark j (Suc n) v)" by (simp add: mark_Suc add.commute)
  then show ?case using Suc.prems by (simp add: upd_res_def)
qed

lemma all_retrieved_eq:
  "j + n \<le> length v \<Longrightarrow> all_retrieved v (int j) n = Inr (\<forall>i < n. v ! (j + i))"
proof (induction n arbitrary: j)
  case 0
  then show ?case by simp
next
  case (Suc n)
  have split: "(\<forall>i < Suc n. v ! (j + i)) \<longleftrightarrow> v ! j \<and> (\<forall>i < n. v ! (Suc j + i))"
    by (simp only: All_less_Suc2) simp
  from Suc.IH [of "Suc j"] Suc.prems
  have "all_retrieved v (int j + 1) n = Inr (\<forall>i < n. v ! (Suc j + i))" by (simp add: add.commute)
  then show ?case using Suc.prems unfolding split by (simp add: nth_res_def)
qed

lemma read_tx_okD:
  assumes "read_tx_ok P tx"
  shows "0 < DDR_BUS_WIDTH_BYTES P" "0 < TOTAL_BURST P" "0 < axi_ddr_bus_multiplicity P"
    "0 < dram_tx_n_enqueues tx" "axi_bus_beats_progress tx = 0"
    "tx_len tx * tx_size tx = dram_tx_n_enqueues tx * (DDR_BUS_WIDTH_BYTES P * TOTAL_BURST P)"
    "DATA_BUS_BYTES P = axi_ddr_bus_multiplicity P * DDR_BUS_WIDTH_BYTES P"
    "DATA_BUS_BYTES P dvd tx_len tx * tx_size tx" "tx_len tx * tx_size tx < 2 ^ 31"
    "DDR_ENQUEUE_SIZE_BYTES P = DDR_BUS_WIDTH_BYTES P * TOTAL_BURST P"
    "ddr_bus_beats_retrieved tx = replicate (nat (dram_tx_n_enqueues tx * TOTAL_BURST P)) False"
  using assms unfolding read_tx_ok_def by (metis | blast)+

lemma retrieved_length:
  assumes "read_tx_ok P tx"
  shows "nat (dram_tx_n_enqueues tx) * burst P = n_beats P tx * mult P"
    and "axi_bus_beats_length P tx = int (n_beats P tx)"
proof -
  note ok = read_tx_okD [OF assms]
  let ?D = "DDR_BUS_WIDTH_BYTES P" and ?M = "axi_ddr_bus_multiplicity P" and ?n = "dram_tx_n_enqueues tx"
  let ?B = "tx_len tx * tx_size tx"
  have dv: "?M * ?D dvd ?B" and L: "axi_bus_beats_length P tx = ?B div (?M * ?D)"
    using ok(7,8) by (simp_all add: axi_bus_beats_length_def)
  have "0 \<le> ?B" using ok(1,2,4,6) by simp
  then have L0: "0 \<le> axi_bus_beats_length P tx" using L ok(1,3) by (simp add: pos_imp_zdiv_nonneg_iff)
  then show L1: "axi_bus_beats_length P tx = int (n_beats P tx)" by (simp add: n_beats_def)
  have "?B = axi_bus_beats_length P tx * (?M * ?D)" using dv L by simp
  with ok(6) have "?D * (?n * TOTAL_BURST P) = ?D * (axi_bus_beats_length P tx * ?M)" by (auto simp: algebra_simps)
  then have "?n * TOTAL_BURST P = axi_bus_beats_length P tx * ?M" using ok(1) by simp
  then have "int (nat ?n * burst P) = int (n_beats P tx * mult P)" using ok(2-4) L1 by simp
  then show "nat ?n * burst P = n_beats P tx * mult P" by (simp only: of_nat_eq_iff)
qed

lemma beats_length_at [simp]: "axi_bus_beats_length P (tx_at tx l v p) = axi_bus_beats_length P tx"
  by (simp add: tx_at_def axi_bus_beats_length_def)

lemma tx_at_fields [simp]:
  "axi_bus_beats_progress (tx_at tx l v p) = int p" "ddr_bus_beats_retrieved (tx_at tx l v p) = v"
  "tx_fpga_addr (tx_at tx l v p) = tx_fpga_addr tx" "dram_tx_load_progress (tx_at tx l v p) = l"
  by (simp_all add: tx_at_def)

lemma hasBeatReady_at:
  assumes ok: "read_tx_ok P tx" and v: "length v = n_beats P tx * mult P" and p: "p \<le> n_beats P tx"
  shows "dramsim_hasBeatReady P (tx_at tx l v p) = Inr (p < n_beats P tx \<and> beat_ready P v p)"
proof (cases "p = n_beats P tx")
  case True
  then show ?thesis
    using retrieved_length(2) [OF ok] by (simp add: dramsim_hasBeatReady_def)
next
  case False
  have M: "0 < mult P" and j: "int p * axi_ddr_bus_multiplicity P = int (p * mult P)"
    using read_tx_okD(3) [OF ok] by simp_all
  from False p have lt: "p < n_beats P tx" by simp
  then have "Suc p * mult P \<le> n_beats P tx * mult P" by (intro mult_le_mono1) simp
  then have b: "p * mult P + mult P \<le> length v" using v by simp
  have first: "nth_res v (int (p * mult P)) = Inr (v ! (p * mult P))"
    by (rule nth_res_int) (use b M in linarith)
  have "beat_ready P v p \<Longrightarrow> v ! (p * mult P)" using M unfolding beat_ready_def by (metis add.right_neutral)
  then show ?thesis
    using False lt retrieved_length(2) [OF ok]
    by (simp only: dramsim_hasBeatReady_def tx_at_fields beats_length_at j Let_def all_retrieved_eq [OF b] first
        rbind.simps beat_ready_def of_nat_eq_iff) auto
qed

lemma next_beat_at:
  assumes "read_tx_ok P tx"
  shows "next_beat P (tx_at tx l v p) = beat P tx p"
proof -
  have "(int p = int (n_beats P tx) - 1) = (Suc p = n_beats P tx)" by auto
  then show ?thesis
    using retrieved_length(2) [OF assms] by (simp add: next_beat_def beat_def) (simp add: tx_at_def)
qed

lemma tx_at_Suc:
  "(tx_at tx l v p)\<lparr>tx_addr := tx_addr (tx_at tx l v p) + of_int (tx_size (tx_at tx l v p)),
     axi_bus_beats_progress := axi_bus_beats_progress (tx_at tx l v p) + 1\<rparr> = tx_at tx l v (Suc p)"
  by (simp add: tx_at_def algebra_simps)

text \<open>The loop releases exactly the next beats whose data has arrived.\<close>

lemma emit_beats_at:
  assumes ok: "read_tx_ok P tx" and v: "length v = n_beats P tx * mult P"
  shows "p \<le> n_beats P tx \<Longrightarrow> n_beats P tx - p < fuel \<Longrightarrow>
    emit_beats fuel P (tx_at tx l v p) =
      (let q = p + length (takeWhile (beat_ready P v) [p..<n_beats P tx])
       in Inr (tx_at tx l v q, map (beat P tx) [p..<q]))"
proof (induction fuel arbitrary: p)
  case 0
  then show ?case by simp
next
  case (Suc fuel)
  show ?case
  proof (cases "p < n_beats P tx \<and> beat_ready P v p")
    case True
    then have c: "[p..<n_beats P tx] = p # [Suc p..<n_beats P tx]" by (simp add: upt_conv_Cons)
    define q where "q = Suc p + length (takeWhile (beat_ready P v) [Suc p..<n_beats P tx])"
    have "emit_beats fuel P (tx_at tx l v (Suc p)) = Inr (tx_at tx l v q, map (beat P tx) [Suc p..<q])"
      by (rule Suc.IH [of "Suc p", unfolded Let_def, folded q_def]) (use Suc.prems True in linarith)+
    moreover have "[p..<q] = p # [Suc p..<q]" by (rule upt_conv_Cons) (simp add: q_def)
    moreover have "p + length (takeWhile (beat_ready P v) [p..<n_beats P tx]) = q"
      using True c by (simp add: q_def)
    ultimately show ?thesis
      using True by (simp only: emit_beats.simps hasBeatReady_at [OF ok v Suc.prems(1)] tx_at_Suc
          next_beat_at [OF ok] rbind.simps Let_def) simp
  next
    case False
    then have "takeWhile (beat_ready P v) [p..<n_beats P tx] = []"
      by (cases "p < n_beats P tx") (simp_all add: upt_conv_Cons)
    then show ?thesis
      using False by (simp only: emit_beats.simps hasBeatReady_at [OF ok v Suc.prems(1)] rbind.simps Let_def) simp
  qed
qed

lemma beats_done_le: "beats_done P tx v \<le> n_beats P tx"
  using length_takeWhile_le [of "beat_ready P v" "[0..<n_beats P tx]"] by (simp add: beats_done_def)

lemma beats_done_ready: "k < beats_done P tx v \<Longrightarrow> beat_ready P v k"
  using beats_done_le [of P tx v]
  by (metis beats_done_def add_0 diff_zero length_upt less_le_trans nth_mem nth_upt set_takeWhileD takeWhile_nth)

lemma beats_done_mono:
  assumes "\<And>k. k < n_beats P tx \<Longrightarrow> beat_ready P v k \<Longrightarrow> beat_ready P v' k"
  shows "beats_done P tx v + length (takeWhile (beat_ready P v') [beats_done P tx v..<n_beats P tx]) = beats_done P tx v'"
proof -
  let ?p = "beats_done P tx v"
  have "[0..<n_beats P tx] = [0..<?p] @ [?p..<n_beats P tx]"
    using beats_done_le [of P tx v] by (metis le0 le_add_diff_inverse upt_add_eq_append)
  moreover have "takeWhile (beat_ready P v') ([0..<?p] @ ys) = [0..<?p] @ takeWhile (beat_ready P v') ys" for ys
    by (rule takeWhile_append2) (use assms beats_done_ready beats_done_le [of P tx v] in auto)
  ultimately show ?thesis by (simp add: beats_done_def [of P tx v'])
qed

lemma beat_ready_mark: "length v = n_beats P tx * mult P \<Longrightarrow> k < n_beats P tx \<Longrightarrow>
    beat_ready P v k \<Longrightarrow> beat_ready P (mark j n v) k"
proof -
  assume v: "length v = n_beats P tx * mult P" and k: "k < n_beats P tx" and r: "beat_ready P v k"
  have "Suc k * mult P \<le> length v" unfolding v using k by (intro mult_le_mono1) simp
  then have "k * mult P + i < length v" if "i < mult P" for i using that by simp
  with r show "beat_ready P (mark j n v) k" by (simp add: beat_ready_def)
qed

text \<open>The index computed from a DRAM address.\<close>

lemma dram_index:
  assumes ok: "read_tx_ok P tx" and k: "k < nat (dram_tx_n_enqueues tx)"
  shows "sint (ucast ((tx_fpga_addr tx + of_nat k * of_int (DDR_ENQUEUE_SIZE_BYTES P)) - tx_fpga_addr tx) :: u32)
    sdiv DDR_BUS_WIDTH_BYTES P = int (k * burst P)"
proof -
  note d = read_tx_okD [OF ok]
  let ?E = "DDR_ENQUEUE_SIZE_BYTES P" and ?D = "DDR_BUS_WIDTH_BYTES P"
  define x where "x = int k * ?E"
  have E: "0 < ?E" using d(1,2,10) by simp
  have "int k < dram_tx_n_enqueues tx" using k by linarith
  then have "int k * ?E < dram_tx_n_enqueues tx * ?E" using E by simp
  then have x: "0 \<le> x" "x < 2 ^ 31" using d(6,9,10) E by (simp_all add: x_def)
  have eq: "(tx_fpga_addr tx + of_nat k * of_int ?E) - tx_fpga_addr tx = of_int x" by (simp add: x_def)
  have "sint (ucast (of_int x :: u64) :: u32) = x"
    using x by (simp add: sint_uint unsigned_ucast_eq unsigned_of_int take_bit_int_eq_self signed_take_bit_int_eq_self)
  moreover have "x sdiv ?D = x div ?D" using x(1) d(1) by (cases "x = 0") (simp_all add: signed_divide_int_def)
  moreover have "x = int (k * burst P) * ?D" using d(1,2,10) by (simp add: x_def)
  then have "x div ?D = int (k * burst P)" using d(1) by simp
  ultimately show ?thesis unfolding eq by simp
qed

text \<open>One completion, then any sequence of completions.\<close>

definition dram_req_addr :: "mem_params \<Rightarrow> memory_transaction \<Rightarrow> nat \<Rightarrow> u64" where
  "dram_req_addr P tx k = tx_fpga_addr tx + of_nat k * of_int (DDR_ENQUEUE_SIZE_BYTES P)"

lemma read_complete_at:
  assumes ok: "read_tx_ok P tx" and v: "length v = n_beats P tx * mult P" and k: "k < nat (dram_tx_n_enqueues tx)"
  defines "v' \<equiv> mark (k * burst P) (burst P) v"
  shows "read_complete P (dram_req_addr P tx k) (tx_at tx l v (beats_done P tx v)) =
    Inr (tx_at tx (l + 1) v' (beats_done P tx v'), map (beat P tx) [beats_done P tx v..<beats_done P tx v'])"
proof -
  have "Suc k * burst P \<le> nat (dram_tx_n_enqueues tx) * burst P" using k by (intro mult_le_mono1) simp
  then have b: "k * burst P + burst P \<le> length v" using v retrieved_length(1) [OF ok] by simp
  let ?t = "tx_at tx l v (beats_done P tx v)"
  have t: "?t\<lparr>dram_tx_load_progress := dram_tx_load_progress ?t + 1, ddr_bus_beats_retrieved := v'\<rparr> =
      tx_at tx (l + 1) v' (beats_done P tx v)"
    by (simp add: tx_at_def)
  have M: "0 < mult P" using read_tx_okD(3) [OF ok] by simp
  have lv: "length v' = n_beats P tx * mult P" by (simp add: v'_def v)
  have "n_beats P tx * 1 \<le> n_beats P tx * mult P" using M by (intro mult_le_mono2) linarith
  then have fuel: "n_beats P tx - beats_done P tx v < length v' + 1" using lv by linarith
  have mono: "beats_done P tx v + length (takeWhile (beat_ready P v') [beats_done P tx v..<n_beats P tx]) = beats_done P tx v'"
    unfolding v'_def by (rule beats_done_mono) (rule beat_ready_mark [OF v])
  have "emit_beats (length v' + 1) P (tx_at tx (l + 1) v' (beats_done P tx v)) =
      Inr (tx_at tx (l + 1) v' (beats_done P tx v'), map (beat P tx) [beats_done P tx v..<beats_done P tx v'])"
    using emit_beats_at [OF ok lv beats_done_le fuel, of "l + 1"] unfolding mono Let_def .
  moreover have "mark_retrieved v (int (k * burst P)) (burst P) = Inr v'"
    unfolding v'_def by (rule mark_retrieved_eq [OF b])
  moreover have "tx_fpga_addr (?t\<lparr>dram_tx_load_progress := dram_tx_load_progress ?t + 1\<rparr>) = tx_fpga_addr tx"
    "ddr_bus_beats_retrieved (?t\<lparr>dram_tx_load_progress := dram_tx_load_progress ?t + 1\<rparr>) = v"
    by (simp_all add: tx_at_def)
  ultimately show ?thesis
    by (simp only: read_complete_def Let_def dram_req_addr_def dram_index [OF ok k] rbind.simps t)
qed

fun complete_all ::
  "mem_params \<Rightarrow> u64 list \<Rightarrow> memory_transaction \<Rightarrow> (memory_transaction \<times> memory_transaction list) res" where
  "complete_all P [] tx = Inr (tx, [])"
| "complete_all P (a # as) tx =
     rbind (read_complete P a tx) (\<lambda>(tx1, bs).
     rbind (complete_all P as tx1) (\<lambda>(tx2, bs'). Inr (tx2, bs @ bs')))"

fun mark_all :: "mem_params \<Rightarrow> nat list \<Rightarrow> bool list \<Rightarrow> bool list" where
  "mark_all P [] v = v"
| "mark_all P (k # ks) v = mark_all P ks (mark (k * burst P) (burst P) v)"

lemma length_mark_all [simp]: "length (mark_all P ks v) = length v"
  by (induction ks arbitrary: v) simp_all

lemma nth_mark_all: "i < length v \<Longrightarrow> 0 < burst P \<Longrightarrow> mark_all P ks v ! i = (v ! i \<or> i div burst P \<in> set ks)"
proof (induction ks arbitrary: v)
  case Nil
  then show ?case by simp
next
  case (Cons k ks)
  have "(k * burst P \<le> i \<and> i < k * burst P + burst P) = (i div burst P = k)"
    using Cons.prems(2) by (metis div_nat_eqI dividend_less_times_div add.commute mult.commute mult_Suc_right div_times_less_eq_dividend)
  with Cons show ?case by auto
qed

lemma complete_all_at:
  assumes ok: "read_tx_ok P tx" and "length v = n_beats P tx * mult P" and "\<forall>k \<in> set ks. k < nat (dram_tx_n_enqueues tx)"
  shows "complete_all P (map (dram_req_addr P tx) ks) (tx_at tx l v (beats_done P tx v)) =
    Inr (tx_at tx (l + int (length ks)) (mark_all P ks v) (beats_done P tx (mark_all P ks v)),
         map (beat P tx) [beats_done P tx v..<beats_done P tx (mark_all P ks v)])
    \<and> beats_done P tx v \<le> beats_done P tx (mark_all P ks v)"
  using assms(2,3)
proof (induction ks arbitrary: v l)
  case Nil
  then show ?case by simp
next
  case (Cons k ks)
  let ?v = "mark (k * burst P) (burst P) v"
  have k: "k < nat (dram_tx_n_enqueues tx)" and v': "length ?v = n_beats P tx * mult P"
    using Cons.prems by simp_all
  have le: "beats_done P tx v \<le> beats_done P tx ?v"
    using beats_done_mono [of P tx v ?v] beat_ready_mark [OF Cons.prems(1)] by (metis le_add1)
  have step: "read_complete P (dram_req_addr P tx k) (tx_at tx l v (beats_done P tx v)) =
      Inr (tx_at tx (l + 1) ?v (beats_done P tx ?v), map (beat P tx) [beats_done P tx v..<beats_done P tx ?v])"
    by (rule read_complete_at [OF ok Cons.prems(1) k])
  from Cons.IH [OF v', of "l + 1"] Cons.prems(2)
  have IH: "complete_all P (map (dram_req_addr P tx) ks) (tx_at tx (l + 1) ?v (beats_done P tx ?v)) =
    Inr (tx_at tx (l + 1 + int (length ks)) (mark_all P ks ?v) (beats_done P tx (mark_all P ks ?v)),
         map (beat P tx) [beats_done P tx ?v..<beats_done P tx (mark_all P ks ?v)])"
    and le2: "beats_done P tx ?v \<le> beats_done P tx (mark_all P ks ?v)" by simp_all
  have "[beats_done P tx v..<beats_done P tx (mark_all P ks ?v)] =
      [beats_done P tx v..<beats_done P tx ?v] @ [beats_done P tx ?v..<beats_done P tx (mark_all P ks ?v)]"
    using le le2 by (metis le_add_diff_inverse upt_add_eq_append)
  then show ?case using step IH le le2 by (simp add: algebra_simps)
qed

section \<open>In-flight tables\<close>

definition inflight_contents :: "(u64 \<rightharpoonup> nat list) \<Rightarrow> u64 \<Rightarrow> nat list" where
  "inflight_contents m a = (case m a of None \<Rightarrow> [] | Some q \<Rightarrow> q)"

interpretation dram_fifo: keyed_fifo inflight_push inflight_take inflight_contents
proof
  fix a p m
  show "inflight_contents (inflight_push a p m) = (inflight_contents m)(a := inflight_contents m a @ [p])"
    by (rule ext) (simp add: inflight_contents_def inflight_push_def q_push_def)
next
  fix m a p ps assume "inflight_contents m a = p # ps"
  then have "m a = Some (p # ps)" by (simp add: inflight_contents_def split: option.splits)
  then have "inflight_take a m = Inr (p, m(a \<mapsto> ps))" by (simp add: inflight_take_def)
  moreover have "inflight_contents (m(a \<mapsto> ps)) = (inflight_contents m)(a := ps)"
    by (rule ext) (simp add: inflight_contents_def)
  ultimately show "\<exists>m'. inflight_take a m = Inr (p, m') \<and> inflight_contents m' = (inflight_contents m)(a := ps)" by blast
next
  fix m a assume "inflight_contents m a = []"
  then show "\<exists>e. inflight_take a m = Inl e"
    by (cases "m a") (simp_all add: inflight_take_def inflight_contents_def)
qed

section \<open>Issuing requests\<close>

text \<open>Transaction \<open>p\<close> at position \<open>n\<close> of the read queue may be issued: the DRAM accepts it and no older
  queued transaction has its ID.\<close>

definition issuable :: "mem_params \<Rightarrow> (u64 \<Rightarrow> bool) \<Rightarrow> mem_intf \<Rightarrow> nat list \<Rightarrow> nat \<Rightarrow> bool" where
  "issuable P accept m qs n \<longleftrightarrow>
     (let mt = tx_heap m ! (qs ! n)
      in accept (tx_fpga_addr mt) \<and> accept (dimm_addr P mt) \<and> (\<forall>k < n. tx_id (tx_heap m ! (qs ! k)) \<noteq> tx_id mt))"

definition valid_ptrs :: "mem_intf \<Rightarrow> nat list \<Rightarrow> bool" where
  "valid_ptrs m ps \<longleftrightarrow> list_all (\<lambda>p. p < length (tx_heap m)) ps"

lemma deref_valid: "p < length (tx_heap m) \<Longrightarrow> deref m p = Inr (tx_heap m ! p)"
  by (simp add: deref_def nth_res_int)

lemma find_read_spec:
  assumes "valid_ptrs m (before @ ps)"
  shows "case find_read P accept m before ps of
      Inl e \<Rightarrow> False
    | Inr None \<Rightarrow> \<forall>n. length before \<le> n \<and> n < length (before @ ps) \<longrightarrow> \<not> issuable P accept m (before @ ps) n
    | Inr (Some p) \<Rightarrow> \<exists>n. length before \<le> n \<and> n < length (before @ ps) \<and> p = (before @ ps) ! n
        \<and> issuable P accept m (before @ ps) n
        \<and> (\<forall>k. length before \<le> k \<and> k < n \<longrightarrow> \<not> issuable P accept m (before @ ps) k)"
  using assms
proof (induction ps arbitrary: before)
  case Nil
  then show ?case by auto
next
  case (Cons p ps)
  let ?all = "before @ p # ps" and ?n = "length before"
  have p: "p < length (tx_heap m)" using Cons.prems by (simp add: valid_ptrs_def)
  have ex: "list_ex (\<lambda>q. q < length (tx_heap m) \<and> tx_id (tx_heap m ! q) = tx_id (tx_heap m ! p)) before \<longleftrightarrow>
      (\<exists>k < ?n. tx_id (tx_heap m ! (?all ! k)) = tx_id (tx_heap m ! p))"
  proof -
    have "list_all (\<lambda>p. p < length (tx_heap m)) before" using Cons.prems by (simp add: valid_ptrs_def)
    then have "\<forall>k < ?n. before ! k < length (tx_heap m)" by (simp add: list_all_length)
    then show ?thesis by (auto simp: list_ex_length nth_append)
  qed
  have here: "issuable P accept m ?all ?n \<longleftrightarrow>
      accept (tx_fpga_addr (tx_heap m ! p)) \<and>
      \<not> list_ex (\<lambda>q. q < length (tx_heap m) \<and> tx_id (tx_heap m ! q) = tx_id (tx_heap m ! p)) before \<and>
      accept (dimm_addr P (tx_heap m ! p))"
    unfolding ex by (auto simp: issuable_def Let_def)
  show ?case
  proof (cases "issuable P accept m ?all ?n")
    case True
    then have "find_read P accept m before (p # ps) = Inr (Some p)"
      using here by (simp add: deref_valid [OF p])
    then show ?thesis using True by (auto intro!: exI [of _ ?n])
  next
    case False
    then have eq: "find_read P accept m before (p # ps) = find_read P accept m (before @ [p]) ps"
      using here by (auto simp add: deref_valid [OF p])
    have e1: "(before @ [p]) @ ps = ?all" and e2: "length (before @ [p]) = Suc ?n" by simp_all
    have IH: "case find_read P accept m (before @ [p]) ps of
      Inl e \<Rightarrow> False
    | Inr None \<Rightarrow> \<forall>n. Suc ?n \<le> n \<and> n < length ?all \<longrightarrow> \<not> issuable P accept m ?all n
    | Inr (Some p) \<Rightarrow> \<exists>n. Suc ?n \<le> n \<and> n < length ?all \<and> p = ?all ! n \<and> issuable P accept m ?all n
        \<and> (\<forall>k. Suc ?n \<le> k \<and> k < n \<longrightarrow> \<not> issuable P accept m ?all k)"
      by (rule Cons.IH [of "before @ [p]", unfolded e1 e2, OF Cons.prems])
    have le: "?n \<le> k \<longleftrightarrow> k = ?n \<or> Suc ?n \<le> k" for k by auto
    show ?thesis
    proof (cases "find_read P accept m (before @ [p]) ps")
      case (Inl e)
      with IH show ?thesis by simp
    next
      case (Inr r)
      show ?thesis
      proof (cases r)
        case None
        with IH Inr False show ?thesis unfolding eq by (auto simp: le)
      next
        case (Some p')
        with IH Inr obtain n where n: "Suc ?n \<le> n" "n < length ?all" "p' = ?all ! n" "issuable P accept m ?all n"
          "\<forall>k. Suc ?n \<le> k \<and> k < n \<longrightarrow> \<not> issuable P accept m ?all k" by auto
        with False have "\<forall>k. ?n \<le> k \<and> k < n \<longrightarrow> \<not> issuable P accept m ?all k" by (auto simp: le)
        with n Inr Some show ?thesis unfolding eq by (auto intro!: exI [of _ n])
      qed
    qed
  qed
qed

section \<open>Properties\<close>

lemma new_transaction_ok:
  assumes init: "mem_ctrl_init dw bw bl = Inr P" and "0 < bl" and "0 \<le> bw" and "DDR_BUS_WIDTH_BYTES P dvd DATA_BUS_BYTES P"
    and "DDR_ENQUEUE_SIZE_BYTES P dvd len * sz" and "DATA_BUS_BYTES P dvd len * sz"
    and "0 < len * sz" and "len * sz < 2 ^ 31"
  shows "read_tx_ok P (new_transaction P addr sz len 0 fixed rid fpga_addr im)"
proof -
  from init have D: "DDR_BUS_WIDTH_BYTES P = bw div 8" "bw div 8 \<noteq> 0" "DATA_BUS_BYTES P = dw div 8"
    "bw div 8 \<le> dw div 8" "axi_ddr_bus_multiplicity P = dw div 8 div (bw div 8)" "TOTAL_BURST P = bl"
    "DDR_ENQUEUE_SIZE_BYTES P = (bw div 8) * bl"
    by (auto simp: mem_ctrl_init_def Let_def split: if_splits)
  have d: "0 < bw div 8" using D(2) assms(3) by linarith
  then have m: "0 < dw div 8 div (bw div 8)" using D(4) by (simp add: pos_imp_zdiv_pos_iff)
  have M: "dw div 8 = dw div 8 div (bw div 8) * (bw div 8)" using assms(4) D(1,3) by simp
  let ?n = "(len * sz) div DDR_ENQUEUE_SIZE_BYTES P"
  have E: "0 < DDR_ENQUEUE_SIZE_BYTES P" using D(7) d assms(2) by simp
  have n: "?n * DDR_ENQUEUE_SIZE_BYTES P = len * sz" using assms(5) by simp
  then have "0 < ?n" using E assms(7) by (metis zero_less_mult_pos2)
  then show ?thesis
    using d m M n assms(2,6,8) D by (simp add: read_tx_ok_def new_transaction_def Let_def)
qed

text \<open>C10: read data is returned in address order. For a read that is a whole number of DRAM requests and of
  bus beats, in whatever order the DRAM completes the requests, the beats put on the read channel are
  beat 0, 1, 2, ... in this order, each at its own host address; after any set of completions they are
  a prefix, and when every request has completed they are all of them, the last one marked.\<close>

theorem read_beats_in_order:
  assumes "mem_ctrl_init dw bw bl = Inr P" and "0 < bl" and "0 \<le> bw" and "DDR_BUS_WIDTH_BYTES P dvd DATA_BUS_BYTES P"
    and "DDR_ENQUEUE_SIZE_BYTES P dvd len * sz" and "DATA_BUS_BYTES P dvd len * sz"
    and "0 < len * sz" and "len * sz < 2 ^ 31"
    and tx: "tx = new_transaction P addr sz len 0 False rid fpga_addr False"
    and ks: "\<forall>k \<in> set ks. k < nat (dram_tx_n_enqueues tx)"
  shows "\<exists>p tx'. complete_all P (map (dram_req_addr P tx) ks) tx = Inr (tx', map (beat P tx) [0..<p])
    \<and> p \<le> n_beats P tx \<and> (set ks = {0..<nat (dram_tx_n_enqueues tx)} \<longrightarrow> p = n_beats P tx)"
proof -
  have ok: "read_tx_ok P tx" unfolding tx by (rule new_transaction_ok [OF assms(1-8)])
  note d = read_tx_okD [OF ok]
  let ?v = "ddr_bus_beats_retrieved tx"
  have B: "0 < burst P" and M: "0 < mult P" using d(2,3) by simp_all
  have lv: "length ?v = n_beats P tx * mult P"
    using d(2,4,11) retrieved_length(1) [OF ok] by (simp add: nat_mult_distrib)
  have none: "\<not> beat_ready P ?v 0" if "0 < n_beats P tx"
  proof -
    have "0 < length ?v" using lv that M by simp
    then have "\<not> ?v ! 0" using d(11) by simp
    then show ?thesis using M by (auto simp: beat_ready_def intro!: exI [of _ 0])
  qed
  then have b0: "beats_done P tx ?v = 0"
    by (cases "n_beats P tx") (simp_all add: beats_done_def upt_conv_Cons del: upt_Suc)
  have t0: "tx_at tx (dram_tx_load_progress tx) ?v 0 = tx"
    using d(5) by (simp add: tx_at_def)
  from complete_all_at [OF ok lv ks, of "dram_tx_load_progress tx"] b0 t0
  have r: "complete_all P (map (dram_req_addr P tx) ks) tx =
    Inr (tx_at tx (dram_tx_load_progress tx + int (length ks)) (mark_all P ks ?v) (beats_done P tx (mark_all P ks ?v)),
         map (beat P tx) [0..<beats_done P tx (mark_all P ks ?v)])" by simp
  have "beats_done P tx (mark_all P ks ?v) = n_beats P tx" if all: "set ks = {0..<nat (dram_tx_n_enqueues tx)}"
  proof -
    have "mark_all P ks ?v ! i" if i: "i < n_beats P tx * mult P" for i
    proof -
      have "i < nat (dram_tx_n_enqueues tx) * burst P" using i retrieved_length(1) [OF ok] by simp
      then have "i div burst P \<in> set ks" using B all by (simp add: less_mult_imp_div_less)
      then show ?thesis using nth_mark_all [of i ?v P ks] i lv B by simp
    qed
    moreover have "k * mult P + i < n_beats P tx * mult P" if "k < n_beats P tx" "i < mult P" for k i
    proof -
      have "Suc k * mult P \<le> n_beats P tx * mult P" using that(1) by (intro mult_le_mono1) simp
      then show ?thesis using that(2) by simp
    qed
    ultimately have "\<forall>k \<in> set [0..<n_beats P tx]. beat_ready P (mark_all P ks ?v) k" by (simp add: beat_ready_def)
    then have "takeWhile (beat_ready P (mark_all P ks ?v)) [0..<n_beats P tx] = [0..<n_beats P tx]"
      by (simp only: takeWhile_eq_all_conv)
    then show ?thesis by (simp only: beats_done_def length_upt)
  qed
  with r beats_done_le show ?thesis by blast
qed

definition demo_P :: mem_params where
  "demo_P = \<lparr>DATA_BUS_BYTES = 32, DDR_BUS_WIDTH_BYTES = 8, axi_ddr_bus_multiplicity = 4, TOTAL_BURST = 8,
     DDR_ENQUEUE_SIZE_BYTES = 64\<rparr>"

lemma demo_P_init: "mem_ctrl_init 256 64 8 = Inr demo_P"
  by (simp add: mem_ctrl_init_def demo_P_def)

theorem read_beats_in_order_witness:
  "\<exists>tx'. complete_all demo_P [0x1040, 0x1000] (new_transaction demo_P 0x7000 32 4 0 False 9 0x1000 False) =
     Inr (tx', map (beat demo_P (new_transaction demo_P 0x7000 32 4 0 False 9 0x1000 False)) [0, 1, 2, 3])"
proof -
  let ?tx = "new_transaction demo_P 0x7000 32 4 0 False 9 0x1000 False"
  have n: "nat (dram_tx_n_enqueues ?tx) = 2" "n_beats demo_P ?tx = 4"
    by (simp_all add: new_transaction_def demo_P_def n_beats_def axi_bus_beats_length_def)
  have a: "map (dram_req_addr demo_P ?tx) [1, 0] = [0x1040, 0x1000]"
    by (simp add: dram_req_addr_def demo_P_def new_transaction_def Let_def)
  have s: "set [1, 0] = {0..<2::nat}" by auto
  have "\<exists>p tx'. complete_all demo_P (map (dram_req_addr demo_P ?tx) [1, 0]) ?tx = Inr (tx', map (beat demo_P ?tx) [0..<p])
    \<and> p \<le> n_beats demo_P ?tx \<and> (set [1, 0] = {0..<nat (dram_tx_n_enqueues ?tx)} \<longrightarrow> p = n_beats demo_P ?tx)"
    by (rule read_beats_in_order [OF demo_P_init]) (simp_all add: n, simp_all add: demo_P_def)
  moreover have "[0..<4] = [0, 1, 2, 3::nat]" by (simp add: upt_rec)
  ultimately show ?thesis unfolding a n using s by auto
qed

text \<open>The transactions behind the read channel's queue.\<close>

definition read_view :: "mem_intf \<Rightarrow> memory_transaction list" where
  "read_view m = map ((!) (tx_heap m)) (read_transactions m)"

lemma enqueue_read_view:
  assumes "valid_ptrs m (read_transactions m)"
  shows "read_view (enqueue_read tx m) = read_view m @ [tx]"
    and "valid_ptrs (enqueue_read tx m) (read_transactions (enqueue_read tx m))"
    and "ddr_read_q (enqueue_read tx m) = ddr_read_q m" "in_flight_reads (enqueue_read tx m) = in_flight_reads m"
    and "b_to_enqueue (enqueue_read tx m) = b_to_enqueue m"
  using assms
  by (auto simp: read_view_def enqueue_read_def make_shared_def q_push_def valid_ptrs_def list_all_iff nth_append)

lemma fold_enqueue_read_view:
  "valid_ptrs m (read_transactions m) \<Longrightarrow>
     read_view (fold enqueue_read bs m) = read_view m @ bs \<and> ddr_read_q (fold enqueue_read bs m) = ddr_read_q m
     \<and> in_flight_reads (fold enqueue_read bs m) = in_flight_reads m"
  by (induction bs arbitrary: m) (simp_all add: enqueue_read_view)

text \<open>A read completion goes to the oldest request outstanding at its DRAM address, whatever other
  addresses are outstanding: that transaction is updated by \<open>read_complete\<close>, the beats it releases are
  appended to the read channel's queue in order, the request leaves the table, and the queue of
  transactions still to be issued is untouched.\<close>

theorem read_callback_effect:
  assumes "\<not> read_queue_lock m" and "in_flight_reads m a = Some (p # q)" and "p < length (tx_heap m)"
    and "valid_ptrs m (read_transactions m)" and "p \<notin> set (read_transactions m)"
    and "read_complete P a (tx_heap m ! p) = Inr (tx', bs)"
  shows "\<exists>m'. read_callback P a m = Inr m' \<and> read_view m' = read_view m @ bs
    \<and> in_flight_reads m' = (in_flight_reads m)(a \<mapsto> q) \<and> ddr_read_q m' = ddr_read_q m"
proof -
  let ?m = "m\<lparr>tx_heap := (tx_heap m)[p := tx'], in_flight_reads := (in_flight_reads m)(a \<mapsto> q)\<rparr>"
  have "read_callback P a m = Inr (fold enqueue_read bs ?m)"
    using assms(1-3,6) by (simp add: read_callback_def mutex_lock_def inflight_take_def deref_valid)
  moreover have "valid_ptrs ?m (read_transactions ?m)" using assms(4) by (simp add: valid_ptrs_def)
  moreover have "read_view ?m = read_view m"
    using assms(5) by (auto simp: read_view_def) (metis nth_list_update_neq)
  ultimately show ?thesis using fold_enqueue_read_view [of ?m bs] by simp
qed

text \<open>A controller with two reads of 64 bytes in its queue, and how it runs when the DRAM accepts all.\<close>

definition empty_mem :: mem_intf where
  "empty_mem = \<lparr>tx_heap = [], ddr_read_q = [], ddr_write_q = [], in_flight_reads = Map.empty,
     in_flight_writes = Map.empty, read_transactions = [], write_transactions = [], b_send_ids = [],
     b_to_enqueue = [], num_in_flight_writes = 0, dram_log = [], read_queue_lock = False, write_queue_lock = False\<rparr>"

definition two_reads :: "int \<Rightarrow> int \<Rightarrow> mem_intf" where
  "two_reads id1 id2 = empty_mem\<lparr>tx_heap := [new_transaction demo_P 0x7000 32 2 0 False id1 0x1000 False,
     new_transaction demo_P 0x8000 32 2 0 False id2 0x2000 False], ddr_read_q := [0, 1]\<rparr>"

theorem read_callback_effect_witness:
  "\<exists>m'. read_callback demo_P 0x1000 ((two_reads 1 2)\<lparr>in_flight_reads := [0x1000 \<mapsto> [0]], ddr_read_q := []\<rparr>) = Inr m'
     \<and> map tx_addr (read_view m') = [0x7000, 0x7020] \<and> in_flight_reads m' = [0x1000 \<mapsto> []]"
proof -
  let ?m = "(two_reads 1 2)\<lparr>in_flight_reads := [0x1000 \<mapsto> [0]], ddr_read_q := []\<rparr>"
  have "case read_complete demo_P 0x1000 (tx_heap ?m ! 0) of Inl e \<Rightarrow> False | Inr (t, bs) \<Rightarrow> map tx_addr bs = [0x7000, 0x7020]"
    by code_simp
  then obtain t bs where c: "read_complete demo_P 0x1000 (tx_heap ?m ! 0) = Inr (t, bs)"
    and b: "map tx_addr bs = [0x7000, 0x7020]" by (auto split: sum.splits)
  have "read_view ?m = []" by (simp add: two_reads_def read_view_def empty_mem_def)
  with read_callback_effect [OF _ _ _ _ _ c, of "[]"] b show ?thesis
    by (force simp: two_reads_def empty_mem_def valid_ptrs_def)
qed

lemma find_write_ok:
  "valid_ptrs m ps \<Longrightarrow> \<exists>r. find_write P acc m ps = Inr r \<and> (\<forall>p. r = Some p \<longrightarrow> p \<in> set ps)"
  by (induction ps) (auto simp: valid_ptrs_def deref_valid)

lemma issue_write_log:
  "p < length (tx_heap m) \<Longrightarrow> \<exists>m'. issue_write P p m = Inr m' \<and> dram_log m' = dram_log m @ [(dimm_addr P (tx_heap m ! p), True)]"
  by (simp add: issue_write_def deref_valid Let_def)

lemma issue_read_log:
  "p < length (tx_heap m) \<Longrightarrow> \<exists>m'. issue_read P p m = Inr m' \<and> dram_log m' = dram_log m @ [(dimm_addr P (tx_heap m ! p), False)]
     \<and> length (tx_heap m') = length (tx_heap m) \<and> ddr_write_q m' = ddr_write_q m \<and> write_queue_lock m' = write_queue_lock m"
  by (simp add: issue_read_def deref_valid Let_def)

lemma write_half:
  assumes "valid_ptrs m (ddr_write_q m)" and "\<not> write_queue_lock m"
  shows "\<exists>m' ws. rbind (mutex_lock (write_queue_lock m)) (\<lambda>_.
     rbind (find_write P acc m (ddr_write_q m)) (\<lambda>w.
     case w of None \<Rightarrow> Inr m | Some p \<Rightarrow> issue_write P p m)) = Inr m'
     \<and> dram_log m' = dram_log m @ ws \<and> (\<forall>e \<in> set ws. snd e) \<and> length ws \<le> 1"
proof -
  from find_write_ok [OF assms(1), of P acc] obtain r where r: "find_write P acc m (ddr_write_q m) = Inr r"
    and p: "\<forall>p. r = Some p \<longrightarrow> p \<in> set (ddr_write_q m)" by blast
  show ?thesis
  proof (cases r)
    case None
    with r assms(2) show ?thesis by (intro exI [of _ m] exI [of _ "[]"]) (simp add: mutex_lock_def)
  next
    case (Some p')
    with p assms(1) have "p' < length (tx_heap m)" by (auto simp: valid_ptrs_def list_all_iff)
    from issue_write_log [OF this, of P] obtain m' where "issue_write P p' m = Inr m'"
      "dram_log m' = dram_log m @ [(dimm_addr P (tx_heap m ! p'), True)]" by blast
    with Some r assms(2) show ?thesis
      by (intro exI [of _ m'] exI [of _ "[(dimm_addr P (tx_heap m ! p'), True)]"]) (simp add: mutex_lock_def)
  qed
qed

text \<open>C23: one call of \<open>try_to_enqueue_ddr\<close> hands at most one read request to the DRAM: the next request of the
  oldest queued transaction that the DRAM accepts and that has no older transaction of the same ID in
  front of it. When none is handed over there is no such transaction. The call never fails.\<close>

theorem issue_oldest_per_id:
  assumes "valid_ptrs m (ddr_read_q m)" and "valid_ptrs m (ddr_write_q m)"
    and "\<not> read_queue_lock m" and "\<not> write_queue_lock m"
  shows "\<exists>m' rs ws. try_to_enqueue_ddr P accept m = Inr m' \<and> dram_log m' = dram_log m @ rs @ ws
    \<and> (\<forall>e \<in> set ws. snd e) \<and> length ws \<le> 1
    \<and> (if \<exists>n < length (ddr_read_q m). issuable P (\<lambda>a. accept a False) m (ddr_read_q m) n
       then \<exists>n < length (ddr_read_q m). issuable P (\<lambda>a. accept a False) m (ddr_read_q m) n
         \<and> (\<forall>k < n. \<not> issuable P (\<lambda>a. accept a False) m (ddr_read_q m) k)
         \<and> rs = [(dimm_addr P (tx_heap m ! (ddr_read_q m ! n)), False)]
       else rs = [])"
proof -
  let ?q = "ddr_read_q m" and ?acc = "\<lambda>a. accept a False"
  have spec: "case find_read P ?acc m [] ?q of
      Inl e \<Rightarrow> False
    | Inr None \<Rightarrow> \<forall>n. n < length ?q \<longrightarrow> \<not> issuable P ?acc m ?q n
    | Inr (Some p) \<Rightarrow> \<exists>n. n < length ?q \<and> p = ?q ! n \<and> issuable P ?acc m ?q n
        \<and> (\<forall>k. k < n \<longrightarrow> \<not> issuable P ?acc m ?q k)"
    using find_read_spec [of m "[]" ?q P ?acc] assms(1) by (simp split: sum.splits option.splits)
  then obtain r where r: "find_read P ?acc m [] ?q = Inr r" by (auto split: sum.splits)
  have "\<exists>m1 rs. (case r of None \<Rightarrow> Inr m | Some p \<Rightarrow> issue_read P p m) = Inr m1 \<and> dram_log m1 = dram_log m @ rs
    \<and> length (tx_heap m1) = length (tx_heap m) \<and> ddr_write_q m1 = ddr_write_q m \<and> write_queue_lock m1 = write_queue_lock m
    \<and> (if \<exists>n < length ?q. issuable P ?acc m ?q n
       then \<exists>n < length ?q. issuable P ?acc m ?q n \<and> (\<forall>k < n. \<not> issuable P ?acc m ?q k)
         \<and> rs = [(dimm_addr P (tx_heap m ! (?q ! n)), False)]
       else rs = [])"
  proof (cases r)
    case None
    with spec r show ?thesis by (intro exI [of _ m] exI [of _ "[]"]) auto
  next
    case (Some p)
    with spec r obtain n where n: "n < length ?q" "p = ?q ! n" "issuable P ?acc m ?q n"
      "\<forall>k. k < n \<longrightarrow> \<not> issuable P ?acc m ?q k" by auto
    with assms(1) have "p < length (tx_heap m)" by (auto simp: valid_ptrs_def list_all_length)
    from issue_read_log [OF this, of P] n Some show ?thesis by auto
  qed
  then obtain m1 rs where m1: "(case r of None \<Rightarrow> Inr m | Some p \<Rightarrow> issue_read P p m) = Inr m1" "dram_log m1 = dram_log m @ rs"
    "length (tx_heap m1) = length (tx_heap m)" "ddr_write_q m1 = ddr_write_q m" "write_queue_lock m1 = write_queue_lock m"
    and iss: "if \<exists>n < length ?q. issuable P ?acc m ?q n
       then \<exists>n < length ?q. issuable P ?acc m ?q n \<and> (\<forall>k < n. \<not> issuable P ?acc m ?q k)
         \<and> rs = [(dimm_addr P (tx_heap m ! (?q ! n)), False)]
       else rs = []" by blast
  have "valid_ptrs m1 (ddr_write_q m1)" "\<not> write_queue_lock m1" using assms(2,4) m1 by (simp_all add: valid_ptrs_def)
  from write_half [OF this, of P "\<lambda>a. accept a True"] obtain m' ws where
    w: "rbind (mutex_lock (write_queue_lock m1)) (\<lambda>_.
     rbind (find_write P (\<lambda>a. accept a True) m1 (ddr_write_q m1)) (\<lambda>w.
     case w of None \<Rightarrow> Inr m1 | Some p \<Rightarrow> issue_write P p m1)) = Inr m'"
    "dram_log m' = dram_log m1 @ ws" "\<forall>e \<in> set ws. snd e" "length ws \<le> 1" by blast
  have "try_to_enqueue_ddr P accept m = Inr m'"
    using assms(3) r m1(1) w(1) by (simp add: try_to_enqueue_ddr_def mutex_lock_def)
  with w m1(2) iss show ?thesis by (intro exI [of _ m'] exI [of _ rs] exI [of _ ws]) simp
qed

theorem issue_oldest_per_id_witness:
  "\<exists>m' ws. try_to_enqueue_ddr demo_P (\<lambda>a w. a \<noteq> 0x1000) (two_reads 1 2) = Inr m'
     \<and> dram_log m' = (0x2000, False) # ws"
proof -
  let ?m = "two_reads 1 2"
  have i: "issuable demo_P (\<lambda>a. a \<noteq> 0x1000) ?m (ddr_read_q ?m) 1" "\<not> issuable demo_P (\<lambda>a. a \<noteq> 0x1000) ?m (ddr_read_q ?m) 0"
    and d: "dimm_addr demo_P (tx_heap ?m ! (ddr_read_q ?m ! 1)) = 0x2000" and l: "length (ddr_read_q ?m) = 2"
    "dram_log ?m = []"
    by (simp_all add: issuable_def two_reads_def empty_mem_def new_transaction_def demo_P_def dimm_addr_def Let_def)
  have n: "n < 2 \<Longrightarrow> issuable demo_P (\<lambda>a. a \<noteq> 0x1000) ?m (ddr_read_q ?m) n \<longleftrightarrow> n = 1" for n
    using i by (cases n) (auto simp: less_Suc_eq numeral_2_eq_2)
  from issue_oldest_per_id [of ?m demo_P "\<lambda>a w. a \<noteq> 0x1000"] obtain m' rs ws where
    r: "try_to_enqueue_ddr demo_P (\<lambda>a w. a \<noteq> 0x1000) ?m = Inr m'" "dram_log m' = dram_log ?m @ rs @ ws"
    and c: "if \<exists>n < length (ddr_read_q ?m). issuable demo_P (\<lambda>a. a \<noteq> 0x1000) ?m (ddr_read_q ?m) n
       then \<exists>n < length (ddr_read_q ?m). issuable demo_P (\<lambda>a. a \<noteq> 0x1000) ?m (ddr_read_q ?m) n
         \<and> (\<forall>k < n. \<not> issuable demo_P (\<lambda>a. a \<noteq> 0x1000) ?m (ddr_read_q ?m) k)
         \<and> rs = [(dimm_addr demo_P (tx_heap ?m ! (ddr_read_q ?m ! n)), False)]
       else rs = []"
    by (auto simp: valid_ptrs_def two_reads_def empty_mem_def)
  have ex: "\<exists>n < 2. issuable demo_P (\<lambda>a. a \<noteq> 0x1000) ?m (ddr_read_q ?m) n" using i(1) by (intro exI [of _ 1]) simp
  from c obtain k where "k < 2" "issuable demo_P (\<lambda>a. a \<noteq> 0x1000) ?m (ddr_read_q ?m) k"
    "rs = [(dimm_addr demo_P (tx_heap ?m ! (ddr_read_q ?m ! k)), False)]"
    unfolding l(1) if_P [OF ex] by blast
  then have "rs = [(0x2000, False)]" using n d by simp
  with r l(2) show ?thesis by simp
qed

text \<open>A read smaller than one bus beat is never answered: the number of beats to return is rounded down
  to zero, and no completion ever releases data.\<close>

theorem narrow_read_unanswered:
  assumes "0 \<le> tx_len tx * tx_size tx" and "tx_len tx * tx_size tx < DATA_BUS_BYTES P"
    and "axi_bus_beats_progress tx = 0" and "complete_all P as tx = Inr (tx', bs)"
  shows "bs = []"
proof -
  have step: "bs = [] \<and> axi_bus_beats_progress t' = 0 \<and> tx_len t' = tx_len t \<and> tx_size t' = tx_size t"
    if "0 \<le> tx_len t * tx_size t" "tx_len t * tx_size t < DATA_BUS_BYTES P" "axi_bus_beats_progress t = 0"
      "read_complete P a t = Inr (t', bs)" for t t' a bs
  proof -
    have "axi_bus_beats_length P t = 0" using that(1,2) by (simp add: axi_bus_beats_length_def)
    with that(3,4) show ?thesis
      by (auto simp: read_complete_def Let_def res_simps dramsim_hasBeatReady_def axi_bus_beats_length_def)
  qed
  show ?thesis
    using assms
  proof (induction as arbitrary: tx bs)
    case Nil
    then show ?case by simp
  next
    case (Cons a as)
    from Cons.prems(4) obtain t1 bs1 bs2 where "read_complete P a tx = Inr (t1, bs1)"
      "complete_all P as t1 = Inr (tx', bs2)" "bs = bs1 @ bs2" by (auto simp: res_simps)
    with step [OF Cons.prems(1-3)] Cons.IH [of t1 bs2] Cons.prems(1,2) show ?case by auto
  qed
qed

theorem narrow_read_unanswered_witness:
  "\<exists>tx' bs. complete_all demo_P [0x1000] (new_transaction demo_P 0x7000 8 1 0 False 9 0x1000 False) = Inr (tx', bs) \<and> bs = []"
proof -
  let ?tx = "new_transaction demo_P 0x7000 8 1 0 False 9 0x1000 False"
  have "is_ok (complete_all demo_P [0x1000] ?tx)" by code_simp
  then obtain tx' bs where r: "complete_all demo_P [0x1000] ?tx = Inr (tx', bs)" by (auto simp: is_ok_iff)
  have "bs = []" by (rule narrow_read_unanswered [OF _ _ _ r]) (simp_all add: new_transaction_def demo_P_def)
  with r show ?thesis by blast
qed

text \<open>A read whose length is not a multiple of the DRAM request size is cut short: the number of requests
  is rounded down, the remaining beats have no entry in the retrieved vector, and the completion of the
  last request reads past its end.\<close>

theorem uncovered_beats_out_of_range:
  "dram_tx_n_enqueues (new_transaction demo_P 0x7000 32 3 0 False 9 0x1000 False) = 1
   \<and> axi_bus_beats_length demo_P (new_transaction demo_P 0x7000 32 3 0 False 9 0x1000 False) = 3
   \<and> read_complete demo_P 0x1000 (new_transaction demo_P 0x7000 32 3 0 False 9 0x1000 False) = Inl Out_of_range"
  by code_simp

section \<open>Writes\<close>

fun write_completes :: "nat \<Rightarrow> memory_transaction \<Rightarrow> memory_transaction \<times> int list" where
  "write_completes 0 tx = (tx, [])"
| "write_completes (Suc n) tx =
     (let (tx1, ids) = write_complete tx; (tx2, ids') = write_completes n tx1 in (tx2, ids @ ids'))"

lemma write_completes_done:
  "axi_bus_beats_progress tx \<le> 0 \<Longrightarrow> snd (write_completes n tx) = []"
  by (induction n arbitrary: tx) (simp_all add: write_complete_def Let_def case_prod_beta)

text \<open>A write is answered exactly once. However many DRAM requests a write was cut into and however many
  of them have completed, as soon as one has, the transaction's ID is queued for the response channel
  once, and never again.\<close>

theorem write_answered_once:
  assumes "axi_bus_beats_progress tx = 1"
  shows "snd (write_completes n tx) = (if n = 0 then [] else [tx_id tx])"
proof (cases n)
  case (Suc k)
  have "snd (write_completes k (tx\<lparr>axi_bus_beats_progress := 0\<rparr>)) = []" by (rule write_completes_done) simp
  with Suc assms show ?thesis by (simp add: write_complete_def Let_def case_prod_beta)
qed simp

theorem write_answered_once_witness:
  "snd (write_completes 4 (new_transaction demo_P 0x7000 32 8 1 False 6 0x1000 False)) = [6]"
  using write_answered_once [of "new_transaction demo_P 0x7000 32 8 1 False 6 0x1000 False" 4]
  by (simp add: new_transaction_def Let_def)

end
