(* ===== verification/Mem_Tick.thy ===== *)
theory Mem_Tick
  imports Complex_Main Address_Translator Mem_Ctrl
begin

text \<open>
  The memory half of one simulated clock cycle (\<open>tick_signals\<close> of src/sim/tick.cc, with the accessors of
  include/sim/axi/address_channel.h, data_channel.h and response_channel.h).

  For every AXI memory channel the accelerator drives the signals of \<open>mem_in\<close> and the runtime those of
  \<open>chan\<close> (\<open>mo_...\<close>), which also holds the channel's controller \<open>ch_mem\<close>. The host memory and the byte
  counter are shared by the channels (\<open>mem_sys\<close>). A stage of the function is one definition; where the
  source has a \<open>return\<close> in the middle, the stage yields \<open>Return\<close> and the rest of the cycle is skipped. The
  DRAM clock is a fraction of the cycle; \<open>ddr_clock\<close> counts its ticks in exact arithmetic.
\<close>

section \<open>Model\<close>

record mem_in =
  mi_r_ready :: bool
  mi_ar_valid :: bool
  mi_ar_addr :: u64
  mi_ar_size :: nat
  mi_ar_len :: nat
  mi_ar_id :: int
  mi_b_ready :: bool
  mi_aw_valid :: bool
  mi_aw_addr :: u64
  mi_aw_size :: nat
  mi_aw_len :: nat
  mi_aw_burst :: nat
  mi_aw_id :: int
  mi_w_valid :: bool
  mi_w_data :: "u8 list"
  mi_w_strb :: "u32 list"
  mi_w_last :: bool

record chan =
  ch_mem :: mem_intf
  mo_ar_ready :: bool
  mo_aw_ready :: bool
  mo_w_ready :: bool
  mo_r_valid :: bool
  mo_r_last :: bool
  mo_r_id :: int
  mo_r_data :: "u32 list"
  mo_b_valid :: bool
  mo_b_id :: int

record mem_sys =
  sys_bytes :: bytes
  memory_transacted :: u64

datatype 'a flow = Next 'a | Return 'a

lemma flow_case_eq:
  "(case f of Next a \<Rightarrow> g a | Return b \<Rightarrow> h b) = y \<longleftrightarrow> (\<exists>a. f = Next a \<and> g a = y) \<or> (\<exists>b. f = Return b \<and> h b = y)"
  by (cases f) auto

text \<open>The DRAM clock: \<open>ddr_acc += ddr_clock_inc; while (ddr_acc >= 1) { ...; ddr_acc -= 1; }\<close> gives the number
  of DRAM ticks and the remainder.\<close>

definition ddr_clock :: "rat \<Rightarrow> rat \<Rightarrow> nat \<times> rat" where
  "ddr_clock inc acc = (nat (floor (acc + inc)), if acc + inc < 1 then acc + inc else frac (acc + inc))"

text \<open>\<open>getStrb\<close> of the write data channel.\<close>

definition getStrb :: "u32 list \<Rightarrow> int \<Rightarrow> bool res" where
  "getStrb strb i =
     (let chunk32 = i div 32; subbit32 = i mod 32
      in rbind (nth_res strb chunk32) (\<lambda>payload. Inr (bit (drop_bit (nat subbit32) payload) 0)))"

subsection \<open>First loop over the channels: read data accepted, read addresses\<close>

definition read_handshake :: "mem_params \<Rightarrow> mem_in \<Rightarrow> chan \<Rightarrow> mem_sys \<Rightarrow> (chan \<times> mem_sys) res" where
  "read_handshake P i ch sys =
     (if mo_r_valid ch \<and> mi_r_ready i then
        (let sys = sys\<lparr>memory_transacted := memory_transacted sys + of_int (DATA_BUS_BYTES P)\<rparr>;
             m = ch_mem ch
         in rbind (mutex_lock (read_queue_lock m)) (\<lambda>_.
            rbind (q_front (read_transactions m)) (\<lambda>p.
            rbind (deref m p) (\<lambda>tx.
            (let tx' = tx\<lparr>axi_bus_beats_progress := axi_bus_beats_progress tx + 1,
                         tx_addr := (if tx_fixed tx then tx_addr tx else tx_addr tx + of_int (tx_size tx))\<rparr>;
                 m = m\<lparr>tx_heap := (tx_heap m)[p := tx']\<rparr>
             in rbind (if mo_r_last ch \<or> \<not> can_be_last tx then q_pop (read_transactions m) else Inr (read_transactions m)) (\<lambda>q.
                Inr (ch\<lparr>ch_mem := m\<lparr>read_transactions := q\<rparr>\<rparr>, sys)))))))
      else Inr (ch, sys))"

definition accept_read ::
  "mem_params \<Rightarrow> bool \<Rightarrow> mappings \<Rightarrow> mem_in \<Rightarrow> chan \<Rightarrow> chan flow res" where
  "accept_read P vpi ms i ch =
     (if mo_ar_ready ch \<and> mi_ar_valid i then
        rbind (translate vpi ms (mi_ar_addr i)) (\<lambda>ad.
        if ad = 0 then Inr (Return ch)
        else
          (let tx = new_transaction P ad (2 ^ mi_ar_size i) (int (mi_ar_len i) + 1) 0 False (mi_ar_id i) (mi_ar_addr i) False;
               (p, m) = make_shared tx (ch_mem ch)
           in rbind (mutex_lock (read_queue_lock m)) (\<lambda>_.
              Inr (Next (ch\<lparr>ch_mem := m\<lparr>ddr_read_q := ddr_read_q m @ [p]\<rparr>\<rparr>)))))
      else Inr (Next ch))"

subsection \<open>Second loop: responses, read data, writes, ready signals\<close>

definition response_handshake :: "mem_in \<Rightarrow> chan \<Rightarrow> chan res" where
  "response_handshake i ch =
     (if mi_b_ready i \<and> mo_b_valid ch then
        rbind (q_pop (b_send_ids (ch_mem ch))) (\<lambda>q.
        Inr (ch\<lparr>ch_mem := (ch_mem ch)\<lparr>b_send_ids := q, num_in_flight_writes := num_in_flight_writes (ch_mem ch) - 1\<rparr>\<rparr>))
      else Inr ch)"

text \<open>A 32-bit word of host memory, little endian.\<close>

definition load32 :: "bytes \<Rightarrow> u64 \<Rightarrow> u32" where
  "load32 mem a = ucast (mem a) + 0x100 * ucast (mem (a + 1)) + 0x10000 * ucast (mem (a + 2)) + 0x1000000 * ucast (mem (a + 3))"

text \<open>\<open>for (i = 0; i < size / 4; ++i) r.setData(src[i], i + start)\<close>\<close>

fun set_data_loop :: "bytes \<Rightarrow> u64 \<Rightarrow> int \<Rightarrow> nat \<Rightarrow> nat \<Rightarrow> u32 list \<Rightarrow> u32 list res" where
  "set_data_loop mem src start k 0 d = Inr d"
| "set_data_loop mem src start k (Suc n) d =
     rbind (upd_res d (int k + start) (load32 mem (src + 4 * of_nat k))) (\<lambda>d. set_data_loop mem src start (Suc k) n d)"

definition drive_read :: "mem_params \<Rightarrow> mem_sys \<Rightarrow> chan \<Rightarrow> chan res" where
  "drive_read P sys ch =
     (let m = ch_mem ch
      in rbind (mutex_lock (read_queue_lock m)) (\<lambda>_.
         case read_transactions m of
           [] \<Rightarrow> Inr (ch\<lparr>mo_r_valid := False, mo_r_last := False\<rparr>)
         | p # _ \<Rightarrow>
             rbind (deref m p) (\<lambda>tx.
             (let start = ((axi_bus_beats_progress tx * tx_size tx) mod DATA_BUS_BYTES P) div 4
              in rbind (set_data_loop (sys_bytes sys) (tx_addr tx) start 0 (nat (tx_size tx div 4)) (mo_r_data ch)) (\<lambda>d.
                 Inr (ch\<lparr>mo_r_data := d, mo_r_valid := True,
                         mo_r_last := (tx_len tx = axi_bus_beats_progress tx + 1 \<and> can_be_last tx),
                         mo_r_id := tx_id tx\<rparr>))))))"

definition drive_response :: "chan \<Rightarrow> chan" where
  "drive_response ch =
     (let m = ch_mem ch;
          ch = (case b_send_ids m of
                  [] \<Rightarrow> ch\<lparr>mo_b_valid := False\<rparr>
                | x # _ \<Rightarrow> ch\<lparr>mo_b_valid := True, mo_b_id := x\<rparr>)
      in case b_to_enqueue m of
           [] \<Rightarrow> ch
         | x # xs \<Rightarrow> ch\<lparr>ch_mem := m\<lparr>b_send_ids := q_push (b_send_ids m) x, b_to_enqueue := xs\<rparr>\<rparr>)"

text \<open>The write address. The caller holds the write lock; the early \<open>return\<close> does not release it. An exception
  of \<open>translate\<close> is thrown on in Verilator builds and swallowed in the others.\<close>

definition accept_write ::
  "mem_params \<Rightarrow> bool \<Rightarrow> mappings \<Rightarrow> mem_in \<Rightarrow> chan \<Rightarrow> chan flow res" where
  "accept_write P vpi ms i ch =
     (if mi_aw_valid i \<and> mo_aw_ready ch then
        (case translate vpi ms (mi_aw_addr i) of
           Inl e \<Rightarrow> if vpi then Inr (Next ch) else Inl e
         | Inr ad \<Rightarrow>
             if ad = 0 then Inr (Return ch)
             else
               (let tx = new_transaction P ad (2 ^ mi_aw_size i) (1 + int (mi_aw_len i)) 0 (mi_aw_burst i = 0)
                           (mi_aw_id i) (mi_aw_addr i) False;
                    (p, m) = make_shared tx (ch_mem ch)
                in Inr (Next (ch\<lparr>ch_mem := m\<lparr>write_transactions := q_push (write_transactions m) p,
                       num_in_flight_writes := num_in_flight_writes m + 1\<rparr>\<rparr>))))
      else Inr (Next ch))"

text \<open>The byte loop of a write beat.\<close>

fun strobe_loop :: "u32 list \<Rightarrow> u8 list \<Rightarrow> u64 \<Rightarrow> nat \<Rightarrow> nat \<Rightarrow> mem_sys \<Rightarrow> mem_sys res" where
  "strobe_loop strb data addr off 0 sys = Inr sys"
| "strobe_loop strb data addr off (Suc n) sys =
     rbind (getStrb strb (int off)) (\<lambda>s.
     if s then
       rbind (nth_res data (int off)) (\<lambda>b.
       strobe_loop strb data addr (Suc off) n
         (sys\<lparr>sys_bytes := (sys_bytes sys)(addr + of_nat off := b), memory_transacted := memory_transacted sys + 1\<rparr>))
     else strobe_loop strb data addr (Suc off) n sys)"

definition write_beat :: "mem_params \<Rightarrow> mem_in \<Rightarrow> chan \<Rightarrow> mem_sys \<Rightarrow> (chan \<times> mem_sys) res" where
  "write_beat P i ch sys =
     (let m = ch_mem ch
      in case write_transactions m of
           [] \<Rightarrow> Inr (ch\<lparr>mo_w_ready := num_in_flight_writes m < max_in_flight_writes\<rparr>, sys)
         | p # ps \<Rightarrow>
             if mi_w_valid i \<and> mo_w_ready ch then
               rbind (deref m p) (\<lambda>trans.
               rbind (strobe_loop (mi_w_strb i) (mi_w_data i) (tx_addr trans) 0 (nat (DATA_BUS_BYTES P))
                        (sys\<lparr>memory_transacted := memory_transacted sys + of_int (DATA_BUS_BYTES P)\<rparr>)) (\<lambda>sys.
               (let trans = trans\<lparr>axi_bus_beats_progress := axi_bus_beats_progress trans + 1,
                      tx_addr := (if tx_fixed trans then tx_addr trans else tx_addr trans + of_int (tx_size trans))\<rparr>
                in if mi_w_last i then
                     (let trans = trans\<lparr>dram_tx_axi_enqueue_progress := 0, axi_bus_beats_progress := 1\<rparr>;
                          m = m\<lparr>tx_heap := (tx_heap m)[p := trans], write_transactions := ps,
                                ddr_write_q := ddr_write_q m @ [p]\<rparr>
                      in Inr (ch\<lparr>ch_mem := m,
                              mo_w_ready := (ps \<noteq> [] \<or> num_in_flight_writes m < max_in_flight_writes)\<rparr>, sys))
                   else Inr (ch\<lparr>ch_mem := m\<lparr>tx_heap := (tx_heap m)[p := trans]\<rparr>, mo_w_ready := True\<rparr>, sys))))
             else Inr (ch, sys))"

definition drive_ready :: "chan \<Rightarrow> chan res" where
  "drive_ready ch =
     rbind (mutex_lock (read_queue_lock (ch_mem ch))) (\<lambda>_.
     Inr (ch\<lparr>mo_ar_ready := can_accept_read (ch_mem ch),
             mo_aw_ready := num_in_flight_writes (ch_mem ch) < max_in_flight_writes\<rparr>))"

text \<open>The whole second loop body of one channel. \<open>Return\<close> leaves the write lock locked.\<close>

definition channel_cycle ::
  "mem_params \<Rightarrow> bool \<Rightarrow> mappings \<Rightarrow> mem_in \<Rightarrow> chan \<Rightarrow> mem_sys \<Rightarrow> (chan \<times> mem_sys) flow res" where
  "channel_cycle P vpi ms i ch sys =
     rbind (response_handshake i ch) (\<lambda>ch.
     rbind (drive_read P sys ch) (\<lambda>ch.
     rbind (mutex_lock (write_queue_lock (ch_mem ch))) (\<lambda>_.
     rbind (accept_write P vpi ms i (drive_response ch)) (\<lambda>f.
     case f of
       Return ch \<Rightarrow> Inr (Return (ch\<lparr>ch_mem := (ch_mem ch)\<lparr>write_queue_lock := True\<rparr>\<rparr>, sys))
     | Next ch \<Rightarrow>
         rbind (write_beat P i ch sys) (\<lambda>(ch, sys).
         rbind (drive_ready ch) (\<lambda>ch. Inr (Next (ch, sys))))))))"

text \<open>The two loops over all channels.\<close>

fun read_stage ::
  "mem_params \<Rightarrow> bool \<Rightarrow> mappings \<Rightarrow> mem_in list \<Rightarrow> chan list \<Rightarrow> mem_sys \<Rightarrow> (chan list \<times> mem_sys) flow res" where
  "read_stage P vpi ms (i # is) (ch # chs) sys =
     rbind (read_handshake P i ch sys) (\<lambda>(ch, sys).
     rbind (accept_read P vpi ms i ch) (\<lambda>f.
     case f of
       Return ch \<Rightarrow> Inr (Return (ch # chs, sys))
     | Next ch \<Rightarrow>
         rbind (read_stage P vpi ms is chs sys) (\<lambda>f.
         Inr (case f of Return (chs, sys) \<Rightarrow> Return (ch # chs, sys) | Next (chs, sys) \<Rightarrow> Next (ch # chs, sys)))))"
| "read_stage P vpi ms _ chs sys = Inr (Next (chs, sys))"

fun write_stage ::
  "mem_params \<Rightarrow> bool \<Rightarrow> mappings \<Rightarrow> mem_in list \<Rightarrow> chan list \<Rightarrow> mem_sys \<Rightarrow> (chan list \<times> mem_sys) flow res" where
  "write_stage P vpi ms (i # is) (ch # chs) sys =
     rbind (channel_cycle P vpi ms i ch sys) (\<lambda>f.
     case f of
       Return (ch, sys) \<Rightarrow> Inr (Return (ch # chs, sys))
     | Next (ch, sys) \<Rightarrow>
         rbind (write_stage P vpi ms is chs sys) (\<lambda>f.
         Inr (case f of Return (chs, sys) \<Rightarrow> Return (ch # chs, sys) | Next (chs, sys) \<Rightarrow> Next (ch # chs, sys))))"
| "write_stage P vpi ms _ chs sys = Inr (Next (chs, sys))"

definition mem_tick ::
  "mem_params \<Rightarrow> bool \<Rightarrow> mappings \<Rightarrow> mem_in list \<Rightarrow> chan list \<Rightarrow> mem_sys \<Rightarrow> (chan list \<times> mem_sys) flow res" where
  "mem_tick P vpi ms is chs sys =
     rbind (read_stage P vpi ms is chs sys) (\<lambda>f.
     case f of
       Return r \<Rightarrow> Inr (Return r)
     | Next (chs, sys) \<Rightarrow> write_stage P vpi ms is chs sys)"

section \<open>Write data\<close>

definition strb_bit :: "u32 list \<Rightarrow> nat \<Rightarrow> bool" where
  "strb_bit strb k = bit (strb ! (k div 32)) (k mod 32)"

lemma getStrb_bit:
  assumes "k div 32 < length strb"
  shows "getStrb strb (int k) = Inr (strb_bit strb k)"
proof -
  have e: "int k div 32 = int (k div 32)" "nat (int k mod 32) = k mod 32"
    by (simp_all add: zdiv_int nat_mod_distrib)
  show ?thesis by (simp add: getStrb_def Let_def strb_bit_def e nth_res_int [OF assms] bit_simps)
qed

lemma strobe_loop_bytes:
  assumes "off + n \<le> length data" and "off + n \<le> 32 * length strb" and "off + n \<le> 2 ^ 64"
  shows "\<exists>sys'. strobe_loop strb data addr off n sys = Inr sys'
    \<and> sys_bytes sys' = (\<lambda>x. if off \<le> unat (x - addr) \<and> unat (x - addr) < off + n \<and> strb_bit strb (unat (x - addr))
                              then data ! unat (x - addr) else sys_bytes sys x)"
  using assms
proof (induction n arbitrary: off sys)
  case 0
  then show ?case by (auto simp: fun_eq_iff)
next
  case (Suc n)
  have g: "getStrb strb (int off) = Inr (strb_bit strb off)" by (rule getStrb_bit) (use Suc.prems in simp)
  have d: "nth_res data (int off) = Inr (data ! off)" by (rule nth_res_int) (use Suc.prems in simp)
  let ?sys = "if strb_bit strb off then sys\<lparr>sys_bytes := (sys_bytes sys)(addr + of_nat off := data ! off),
      memory_transacted := memory_transacted sys + 1\<rparr> else sys"
  have u: "unat (x - addr) = off \<longleftrightarrow> x = addr + of_nat off" for x
    by (rule unat_offset) (use Suc.prems(3) in simp)
  from Suc.IH [of "Suc off" ?sys] Suc.prems obtain sys' where
    r: "strobe_loop strb data addr (Suc off) n ?sys = Inr sys'"
    and m: "sys_bytes sys' = (\<lambda>x. if Suc off \<le> unat (x - addr) \<and> unat (x - addr) < Suc off + n \<and> strb_bit strb (unat (x - addr))
                              then data ! unat (x - addr) else sys_bytes ?sys x)" by auto
  have "strobe_loop strb data addr off (Suc n) sys = Inr sys'"
    using r by (cases "strb_bit strb off") (simp_all add: g d)
  moreover have "sys_bytes sys' x = (if off \<le> unat (x - addr) \<and> unat (x - addr) < off + Suc n \<and> strb_bit strb (unat (x - addr))
                              then data ! unat (x - addr) else sys_bytes sys x)" for x
    unfolding m using u [of x] by (cases "unat (x - addr) = off") auto
  ultimately show ?case by auto
qed

lemma strobe_loop_full:
  assumes "length data = n" and "n \<le> 32 * length strb" and "n \<le> 2 ^ 64" and "\<forall>k < n. strb_bit strb k"
  shows "\<exists>sys'. strobe_loop strb data addr 0 n sys = Inr sys' \<and> sys_bytes sys' = mem_write (sys_bytes sys) addr data"
proof -
  from strobe_loop_bytes [of 0 n data strb addr sys] assms(1-3) obtain sys' where
    r: "strobe_loop strb data addr 0 n sys = Inr sys'"
    and m: "sys_bytes sys' = (\<lambda>x. if unat (x - addr) < n \<and> strb_bit strb (unat (x - addr))
                              then data ! unat (x - addr) else sys_bytes sys x)" by auto
  have "sys_bytes sys' = mem_write (sys_bytes sys) addr data"
    unfolding m mem_write_def assms(1) by (rule ext) (use assms(4) in simp)
  with r show ?thesis by blast
qed

text \<open>The inputs of a write burst that keeps all strobes set: one beat per element of \<open>ds\<close>, the last one marked.\<close>

definition full_strobes :: "mem_params \<Rightarrow> mem_in \<Rightarrow> bool" where
  "full_strobes P i \<longleftrightarrow> mi_w_valid i \<and> length (mi_w_data i) = nat (DATA_BUS_BYTES P)
     \<and> nat (DATA_BUS_BYTES P) \<le> 32 * length (mi_w_strb i) \<and> (\<forall>k < nat (DATA_BUS_BYTES P). strb_bit (mi_w_strb i) k)"

fun write_beats :: "mem_params \<Rightarrow> mem_in list \<Rightarrow> chan \<Rightarrow> mem_sys \<Rightarrow> (chan \<times> mem_sys) res" where
  "write_beats P [] ch sys = Inr (ch, sys)"
| "write_beats P (i # is) ch sys = rbind (write_beat P i ch sys) (\<lambda>(ch, sys). write_beats P is ch sys)"

fun last_marked :: "mem_in list \<Rightarrow> bool" where
  "last_marked [] = False"
| "last_marked [i] = mi_w_last i"
| "last_marked (i # is) = (\<not> mi_w_last i \<and> last_marked is)"

lemma write_beat_full:
  assumes "write_transactions (ch_mem ch) = p # ps" and "p < length (tx_heap (ch_mem ch))"
    and "mo_w_ready ch" and "full_strobes P i" and "0 < DATA_BUS_BYTES P" "DATA_BUS_BYTES P < 2 ^ 32"
    and "\<not> tx_fixed (tx_heap (ch_mem ch) ! p)"
  defines "t \<equiv> tx_heap (ch_mem ch) ! p"
  shows "\<exists>ch' sys'. write_beat P i ch sys = Inr (ch', sys')
    \<and> sys_bytes sys' = mem_write (sys_bytes sys) (tx_addr t) (mi_w_data i)
    \<and> (if mi_w_last i
       then write_transactions (ch_mem ch') = ps \<and> ddr_write_q (ch_mem ch') = ddr_write_q (ch_mem ch) @ [p]
         \<and> axi_bus_beats_progress (tx_heap (ch_mem ch') ! p) = 1 \<and> tx_id (tx_heap (ch_mem ch') ! p) = tx_id t
       else write_transactions (ch_mem ch') = p # ps \<and> mo_w_ready ch' \<and> ddr_write_q (ch_mem ch') = ddr_write_q (ch_mem ch)
         \<and> length (tx_heap (ch_mem ch')) = length (tx_heap (ch_mem ch))
         \<and> tx_addr (tx_heap (ch_mem ch') ! p) = tx_addr t + of_int (tx_size t)
         \<and> tx_size (tx_heap (ch_mem ch') ! p) = tx_size t \<and> \<not> tx_fixed (tx_heap (ch_mem ch') ! p)
         \<and> tx_id (tx_heap (ch_mem ch') ! p) = tx_id t)"
proof -
  let ?n = "nat (DATA_BUS_BYTES P)" and ?s = "sys\<lparr>memory_transacted := memory_transacted sys + of_int (DATA_BUS_BYTES P)\<rparr>"
  have "?n \<le> 2 ^ 64" using assms(6) by simp
  with assms(4) strobe_loop_full [of "mi_w_data i" ?n "mi_w_strb i" "tx_addr t" ?s]
  obtain sys' where s: "strobe_loop (mi_w_strb i) (mi_w_data i) (tx_addr t) 0 ?n ?s = Inr sys'"
    and m: "sys_bytes sys' = mem_write (sys_bytes sys) (tx_addr t) (mi_w_data i)"
    by (auto simp: full_strobes_def)
  have v: "mi_w_valid i" using assms(4) by (simp add: full_strobes_def)
  have d: "deref (ch_mem ch) p = Inr t" unfolding t_def by (rule deref_valid [OF assms(2)])
  show ?thesis
    using assms(1-3,7) s m v
    by (cases "mi_w_last i") (simp_all add: write_beat_def Let_def d t_def [symmetric])
qed

lemma list_all_data: "list_all (full_strobes P) is \<Longrightarrow>
    length (concat (map mi_w_data is)) = length is * nat (DATA_BUS_BYTES P)"
  by (induction "is") (simp_all add: full_strobes_def)

lemma write_beats_full:
  assumes "list_all (full_strobes P) is" and "last_marked is" and "0 < DATA_BUS_BYTES P" "DATA_BUS_BYTES P < 2 ^ 32"
    and "length is * nat (DATA_BUS_BYTES P) \<le> 2 ^ 63"
    and "write_transactions (ch_mem ch) = p # ps" and "p < length (tx_heap (ch_mem ch))"
    and "mo_w_ready ch" and "\<not> tx_fixed (tx_heap (ch_mem ch) ! p)" and "tx_size (tx_heap (ch_mem ch) ! p) = DATA_BUS_BYTES P"
  shows "\<exists>ch' sys'. write_beats P is ch sys = Inr (ch', sys')
    \<and> sys_bytes sys' = mem_write (sys_bytes sys) (tx_addr (tx_heap (ch_mem ch) ! p)) (concat (map mi_w_data is))
    \<and> write_transactions (ch_mem ch') = ps \<and> ddr_write_q (ch_mem ch') = ddr_write_q (ch_mem ch) @ [p]
    \<and> axi_bus_beats_progress (tx_heap (ch_mem ch') ! p) = 1
    \<and> tx_id (tx_heap (ch_mem ch') ! p) = tx_id (tx_heap (ch_mem ch) ! p)"
  using assms(1,2,5-10)
proof (induction "is" arbitrary: ch sys rule: last_marked.induct)
  case 1
  then show ?case by simp
next
  case (2 i)
  from write_beat_full [OF 2(4,5,6) _ assms(3,4) 2(7), of i sys] 2(1,2) show ?case by auto
next
  case (3 i j "is")
  let ?t = "tx_heap (ch_mem ch) ! p" and ?n = "nat (DATA_BUS_BYTES P)"
  from 3(2,3) have nl: "\<not> mi_w_last i" and f: "full_strobes P i" by simp_all
  from write_beat_full [OF 3(5,6,7) f assms(3,4) 3(8), of sys] nl obtain ch1 sys1 where
    r: "write_beat P i ch sys = Inr (ch1, sys1)"
    and m: "sys_bytes sys1 = mem_write (sys_bytes sys) (tx_addr ?t) (mi_w_data i)"
    and c: "write_transactions (ch_mem ch1) = p # ps" "mo_w_ready ch1" "ddr_write_q (ch_mem ch1) = ddr_write_q (ch_mem ch)"
      "length (tx_heap (ch_mem ch1)) = length (tx_heap (ch_mem ch))"
      "tx_addr (tx_heap (ch_mem ch1) ! p) = tx_addr ?t + of_int (tx_size ?t)"
      "tx_size (tx_heap (ch_mem ch1) ! p) = tx_size ?t" "\<not> tx_fixed (tx_heap (ch_mem ch1) ! p)"
      "tx_id (tx_heap (ch_mem ch1) ! p) = tx_id ?t" by (simp only: if_False) blast
  have l: "length (mi_w_data i) = ?n" using f by (simp add: full_strobes_def)
  have cl: "length (concat (map mi_w_data (j # is))) = length (j # is) * ?n"
    using list_all_data [of P "j # is"] 3(2) by simp
  have a: "of_int (tx_size ?t) = (of_nat (length (mi_w_data i)) :: u64)"
  proof -
    have "tx_size ?t = int (length (mi_w_data i))" using l 3(9) assms(3) by simp
    then show ?thesis by (simp only: of_int_of_nat_eq)
  qed
  have app: "mem_write (mem_write (sys_bytes sys) (tx_addr ?t) (mi_w_data i)) (tx_addr ?t + of_nat (length (mi_w_data i)))
        (concat (map mi_w_data (j # is))) = mem_write (sys_bytes sys) (tx_addr ?t) (mi_w_data i @ concat (map mi_w_data (j # is)))"
    by (rule mem_write_append) (use 3(4) l cl assms(4) in simp_all)
  have ln: "length (j # is) * ?n \<le> 2 ^ 63" using 3(4) by simp
  have j: "list_all (full_strobes P) (j # is)" "last_marked (j # is)" using 3(2,3) by simp_all
  have p1: "p < length (tx_heap (ch_mem ch1))" and z1: "tx_size (tx_heap (ch_mem ch1) ! p) = DATA_BUS_BYTES P"
    using 3(6,9) c by simp_all
  from 3(1) [OF j ln c(1) p1 c(2,7) z1, of sys1] obtain ch' sys' where
    r2: "write_beats P (j # is) ch1 sys1 = Inr (ch', sys')"
    and m2: "sys_bytes sys' = mem_write (sys_bytes sys1) (tx_addr (tx_heap (ch_mem ch1) ! p)) (concat (map mi_w_data (j # is)))"
    and c2: "write_transactions (ch_mem ch') = ps" "ddr_write_q (ch_mem ch') = ddr_write_q (ch_mem ch1) @ [p]"
      "axi_bus_beats_progress (tx_heap (ch_mem ch') ! p) = 1" "tx_id (tx_heap (ch_mem ch') ! p) = tx_id (tx_heap (ch_mem ch1) ! p)"
    by blast
  have "sys_bytes sys' = mem_write (sys_bytes sys) (tx_addr ?t) (concat (map mi_w_data (i # j # is)))"
    unfolding m2 m c(5) a app by simp
  with r r2 c2 c(3,8) show ?case by simp
qed

section \<open>Read data\<close>

lemma set_data_loop_eq:
  assumes "k + n \<le> length d"
  shows "set_data_loop mem src 0 k n d =
    Inr (take k d @ map (\<lambda>j. load32 mem (src + 4 * of_nat j)) [k..<k + n] @ drop (k + n) d)"
  using assms
proof (induction n arbitrary: k d)
  case 0
  then show ?case by simp
next
  case (Suc n)
  let ?d = "d[k := load32 mem (src + 4 * of_nat k)]"
  have u: "upd_res d (int k + 0) (load32 mem (src + 4 * of_nat k)) = Inr ?d"
    using Suc.prems by (simp add: upd_res_def)
  have tk: "take (Suc k) ?d = take k d @ [load32 mem (src + 4 * of_nat k)]"
    using Suc.prems by (simp add: take_upd_next)
  have dr: "drop (Suc k + n) ?d = drop (k + Suc n) d" by (simp add: drop_update_cancel)
  have up: "[k..<Suc (k + n)] = k # [Suc k..<Suc (k + n)]" by (simp add: upt_conv_Cons del: upt_Suc)
  show ?case
    using Suc.IH [of "Suc k" ?d] Suc.prems u by (simp add: tk dr up del: upt_Suc take_Suc_conv_app_nth)
qed

section \<open>Bounds of the queues\<close>

definition chan_bounds :: "chan \<Rightarrow> bool" where
  "chan_bounds ch \<longleftrightarrow> num_in_flight_writes (ch_mem ch) \<le> max_in_flight_writes
     \<and> (mo_aw_ready ch \<longrightarrow> num_in_flight_writes (ch_mem ch) < max_in_flight_writes)
     \<and> length (ddr_read_q (ch_mem ch)) \<le> max_q_length"

definition chan_inv :: "chan \<Rightarrow> bool" where
  "chan_inv ch \<longleftrightarrow> chan_bounds ch \<and> (mo_ar_ready ch \<longrightarrow> length (ddr_read_q (ch_mem ch)) < max_q_length)"

lemma read_handshake_keeps:
  assumes "read_handshake P i ch sys = Inr (ch', sys')"
  shows "num_in_flight_writes (ch_mem ch') = num_in_flight_writes (ch_mem ch)" "mo_aw_ready ch' = mo_aw_ready ch"
    "ddr_read_q (ch_mem ch') = ddr_read_q (ch_mem ch)" "mo_ar_ready ch' = mo_ar_ready ch"
  using assms by (auto simp: read_handshake_def Let_def res_simps split: if_splits)

lemma accept_read_bounds:
  assumes "chan_inv ch" and "accept_read P vpi ms i ch = Inr (Next ch')"
  shows "chan_bounds ch'"
  using assms
  by (auto simp: accept_read_def make_shared_def Let_def res_simps chan_inv_def chan_bounds_def split: if_splits)

lemma response_handshake_bounds:
  assumes "chan_bounds ch" and "response_handshake i ch = Inr ch'"
  shows "chan_bounds ch'"
  using assms by (auto simp: response_handshake_def res_simps chan_bounds_def split: if_splits)

lemma drive_read_bounds:
  assumes "chan_bounds ch" and "drive_read P sys ch = Inr ch'"
  shows "chan_bounds ch'"
  using assms by (auto simp: drive_read_def Let_def res_simps chan_bounds_def split: list.splits)

lemma drive_response_bounds: "chan_bounds ch \<Longrightarrow> chan_bounds (drive_response ch)"
  by (auto simp: drive_response_def Let_def chan_bounds_def split: list.splits)

lemma accept_write_bounds:
  assumes "chan_bounds ch" and "accept_write P vpi ms i ch = Inr (Next ch')"
  shows "num_in_flight_writes (ch_mem ch') \<le> max_in_flight_writes \<and> length (ddr_read_q (ch_mem ch')) \<le> max_q_length"
  using assms
  by (auto simp: accept_write_def make_shared_def Let_def chan_bounds_def split: if_splits sum.splits)

lemma write_beat_keeps:
  assumes "write_beat P i ch sys = Inr (ch', sys')"
  shows "num_in_flight_writes (ch_mem ch') = num_in_flight_writes (ch_mem ch)"
    "ddr_read_q (ch_mem ch') = ddr_read_q (ch_mem ch)"
  using assms by (auto simp: write_beat_def Let_def res_simps split: if_splits list.splits)

lemma channel_cycle_inv:
  assumes "chan_bounds ch" and "channel_cycle P vpi ms i ch sys = Inr (Next (ch', sys'))"
  shows "chan_inv ch'"
proof -
  from assms(2) obtain c1 c2 c3 c4 where 1: "response_handshake i ch = Inr c1" and 2: "drive_read P sys c1 = Inr c2"
    and 3: "accept_write P vpi ms i (drive_response c2) = Inr (Next c3)" and 4: "write_beat P i c3 sys = Inr (c4, sys')"
    and 5: "drive_ready c4 = Inr ch'"
    by (auto simp: channel_cycle_def res_simps flow_case_eq)
  have "chan_bounds (drive_response c2)"
    by (intro drive_response_bounds drive_read_bounds [OF _ 2] response_handshake_bounds [OF assms(1) 1])
  from accept_write_bounds [OF this 3] write_beat_keeps [OF 4] 5
  show ?thesis by (auto simp: drive_ready_def res_simps chan_inv_def chan_bounds_def can_accept_read_def)
qed

lemma read_stage_Cons:
  assumes "read_stage P vpi ms (i # is) (ch # chs) sys = Inr (Next (chs', sys'))"
  obtains c1 s1 c2 cs where "read_handshake P i ch sys = Inr (c1, s1)" "accept_read P vpi ms i c1 = Inr (Next c2)"
    "read_stage P vpi ms is chs s1 = Inr (Next (cs, sys'))" "chs' = c2 # cs"
  using assms by (auto simp: res_simps flow_case_eq)

lemma write_stage_Cons:
  assumes "write_stage P vpi ms (i # is) (ch # chs) sys = Inr (Next (chs', sys'))"
  obtains c1 s1 cs where "channel_cycle P vpi ms i ch sys = Inr (Next (c1, s1))"
    "write_stage P vpi ms is chs s1 = Inr (Next (cs, sys'))" "chs' = c1 # cs"
  using assms by (auto simp: res_simps flow_case_eq)

lemma read_stage_bounds:
  assumes "length is = length chs" and "read_stage P vpi ms is chs sys = Inr (Next (chs', sys'))" and "list_all chan_inv chs"
  shows "list_all chan_bounds chs' \<and> length chs' = length chs"
  using assms
proof (induction "is" chs arbitrary: sys chs' rule: list_induct2)
  case Nil
  then show ?case by simp
next
  case (Cons i "is" ch chs)
  from Cons.prems(1) obtain c1 s1 c2 cs where 1: "read_handshake P i ch sys = Inr (c1, s1)"
    and 2: "accept_read P vpi ms i c1 = Inr (Next c2)"
    and r: "read_stage P vpi ms is chs s1 = Inr (Next (cs, sys'))" and chs': "chs' = c2 # cs"
    by (rule read_stage_Cons)
  have "chan_inv c1" using Cons.prems(2) read_handshake_keeps [OF 1] by (simp add: chan_inv_def chan_bounds_def)
  from accept_read_bounds [OF this 2] Cons.IH [OF r] Cons.prems(2) chs' show ?case by simp
qed

lemma write_stage_inv:
  assumes "length is = length chs" and "write_stage P vpi ms is chs sys = Inr (Next (chs', sys'))" and "list_all chan_bounds chs"
  shows "list_all chan_inv chs'"
  using assms
proof (induction "is" chs arbitrary: sys chs' rule: list_induct2)
  case Nil
  then show ?case by simp
next
  case (Cons i "is" ch chs)
  from Cons.prems(1) obtain c1 s1 cs where 1: "channel_cycle P vpi ms i ch sys = Inr (Next (c1, s1))"
    and r: "write_stage P vpi ms is chs s1 = Inr (Next (cs, sys'))" and chs': "chs' = c1 # cs"
    by (rule write_stage_Cons)
  from Cons.prems(2) have "chan_bounds ch" by simp
  from channel_cycle_inv [OF this 1] Cons.IH [OF r] Cons.prems(2) chs' show ?case by simp
qed

section \<open>Properties\<close>

definition demo_mem_in :: mem_in where
  "demo_mem_in = \<lparr>mi_r_ready = True, mi_ar_valid = False, mi_ar_addr = 0, mi_ar_size = 0, mi_ar_len = 0, mi_ar_id = 0,
     mi_b_ready = True, mi_aw_valid = False, mi_aw_addr = 0, mi_aw_size = 0, mi_aw_len = 0, mi_aw_burst = 1, mi_aw_id = 0,
     mi_w_valid = False, mi_w_data = [], mi_w_strb = [], mi_w_last = False\<rparr>"

definition demo_chan :: "mem_intf \<Rightarrow> chan" where
  "demo_chan m = \<lparr>ch_mem = m, mo_ar_ready = True, mo_aw_ready = True, mo_w_ready = True, mo_r_valid = False,
     mo_r_last = False, mo_r_id = 0, mo_r_data = replicate 8 0, mo_b_valid = False, mo_b_id = 0\<rparr>"

definition demo_sys :: mem_sys where
  "demo_sys = \<lparr>sys_bytes = (\<lambda>a. ucast a), memory_transacted = 0\<rparr>"

text \<open>C22: the queues of the memory interface are bounded. A cycle that runs to its end keeps, for every channel,
  at most 32 writes in flight and at most 40 reads waiting for the DRAM, and raises the address ready
  signals only when there is room; an address is accepted only under such a signal.\<close>

theorem queues_bounded:
  assumes "list_all chan_inv chs" and "length is = length chs"
    and "mem_tick P vpi ms is chs sys = Inr (Next (chs', sys'))"
  shows "list_all chan_inv chs'"
proof -
  from assms(3) obtain cs s1 where r: "read_stage P vpi ms is chs sys = Inr (Next (cs, s1))"
    and w: "write_stage P vpi ms is cs s1 = Inr (Next (chs', sys'))"
    by (auto simp: mem_tick_def res_simps flow_case_eq)
  from read_stage_bounds [OF assms(2) r assms(1)] assms(2) write_stage_inv [OF _ w] show ?thesis by simp
qed

theorem queues_bounded_witness:
  "\<exists>chs' sys'. mem_tick demo_P False example_table [demo_mem_in\<lparr>mi_ar_valid := True, mi_ar_addr := 0x1000, mi_ar_size := 5\<rparr>]
       [demo_chan empty_mem] demo_sys = Inr (Next (chs', sys')) \<and> list_all chan_inv chs'"
proof -
  let ?r = "mem_tick demo_P False example_table [demo_mem_in\<lparr>mi_ar_valid := True, mi_ar_addr := 0x1000, mi_ar_size := 5\<rparr>]
       [demo_chan empty_mem] demo_sys"
  have "case ?r of Inr (Next _) \<Rightarrow> True | _ \<Rightarrow> False" by code_simp
  then obtain chs' sys' where r: "?r = Inr (Next (chs', sys'))" by (auto split: sum.splits flow.splits)
  have "list_all chan_inv chs'"
    by (rule queues_bounded [OF _ _ r]) (simp_all add: chan_inv_def chan_bounds_def demo_chan_def empty_mem_def
        max_q_length_def max_in_flight_writes_def)
  with r show ?thesis by blast
qed

text \<open>A write burst of full-width beats with all strobes set stores its data contiguously: after the last
  beat the host memory is changed exactly in the range that starts at the burst's host address and
  holds the beats' data in order; the transaction has left the write queue for the DRAM queue, with
  the state from which it is answered once.\<close>

theorem write_burst_contiguous:
  assumes "list_all (full_strobes P) is" and "last_marked is" and "0 < DATA_BUS_BYTES P" and "DATA_BUS_BYTES P < 2 ^ 32"
    and "length is * nat (DATA_BUS_BYTES P) \<le> 2 ^ 63"
    and "write_transactions (ch_mem ch) = p # ps" and "p < length (tx_heap (ch_mem ch))"
    and "mo_w_ready ch" and "\<not> tx_fixed (tx_heap (ch_mem ch) ! p)" and "tx_size (tx_heap (ch_mem ch) ! p) = DATA_BUS_BYTES P"
  shows "\<exists>ch' sys'. write_beats P is ch sys = Inr (ch', sys')
    \<and> sys_bytes sys' = mem_write (sys_bytes sys) (tx_addr (tx_heap (ch_mem ch) ! p)) (concat (map mi_w_data is))
    \<and> write_transactions (ch_mem ch') = ps \<and> ddr_write_q (ch_mem ch') = ddr_write_q (ch_mem ch) @ [p]
    \<and> axi_bus_beats_progress (tx_heap (ch_mem ch') ! p) = 1
    \<and> tx_id (tx_heap (ch_mem ch') ! p) = tx_id (tx_heap (ch_mem ch) ! p)"
  by (rule write_beats_full [OF assms])

definition demo_write :: "u8 \<Rightarrow> bool \<Rightarrow> mem_in" where
  "demo_write b l = demo_mem_in\<lparr>mi_w_valid := True, mi_w_data := replicate 32 b, mi_w_strb := [- 1], mi_w_last := l\<rparr>"

definition one_write :: "u64 \<Rightarrow> int \<Rightarrow> mem_intf" where
  "one_write a sz = empty_mem\<lparr>tx_heap := [new_transaction demo_P a sz 2 0 False 5 0x1000 False], write_transactions := [0]\<rparr>"

theorem write_burst_contiguous_witness:
  "\<exists>ch' sys'. write_beats demo_P [demo_write 1 False, demo_write 2 True] (demo_chan (one_write 0x7000 32)) demo_sys = Inr (ch', sys')
    \<and> sys_bytes sys' = mem_write (\<lambda>a. ucast a) 0x7000 (replicate 32 1 @ replicate 32 2)"
proof -
  have "\<forall>k < 32. strb_bit [- 1] k"
    by (auto simp: strb_bit_def)
  then have "list_all (full_strobes demo_P) [demo_write 1 False, demo_write 2 True]"
    by (simp add: full_strobes_def demo_write_def demo_P_def)
  from write_burst_contiguous [OF this, of "demo_chan (one_write 0x7000 32)" 0 "[]" demo_sys] show ?thesis
    by (auto simp: demo_write_def demo_P_def demo_chan_def one_write_def empty_mem_def new_transaction_def demo_sys_def)
qed

text \<open>The read channel shows the host memory at the beat's address. When the beat in front of the queue is
  as wide as the bus, the words driven are the host words at its address, in order; the last flag is
  raised exactly for a beat that may be last.\<close>

theorem read_data_driven:
  assumes "\<not> read_queue_lock (ch_mem ch)" and "read_transactions (ch_mem ch) = p # ps" and "p < length (tx_heap (ch_mem ch))"
    and "tx_heap (ch_mem ch) ! p = beat P tx k" and "tx_size tx = DATA_BUS_BYTES P" and "0 < DATA_BUS_BYTES P"
    and "length (mo_r_data ch) = nat (DATA_BUS_BYTES P div 4)"
  shows "\<exists>ch'. drive_read P sys ch = Inr ch' \<and> mo_r_valid ch' \<and> mo_r_last ch' = (Suc k = n_beats P tx) \<and> mo_r_id ch' = tx_id tx
    \<and> mo_r_data ch' = map (\<lambda>j. load32 (sys_bytes sys) (tx_addr tx + of_int (tx_size tx * int k) + 4 * of_nat j))
        [0..<nat (DATA_BUS_BYTES P div 4)]"
proof -
  let ?n = "nat (DATA_BUS_BYTES P div 4)"
  have d: "deref (ch_mem ch) p = Inr (beat P tx k)" using deref_valid [OF assms(3)] assms(4) by simp
  have f: "tx_addr (beat P tx k) = tx_addr tx + of_int (tx_size tx * int k)" "tx_size (beat P tx k) = DATA_BUS_BYTES P"
    "axi_bus_beats_progress (beat P tx k) = 0" "tx_len (beat P tx k) = 1" "tx_id (beat P tx k) = tx_id tx"
    "can_be_last (beat P tx k) = (Suc k = n_beats P tx)"
    using assms(5) by (simp_all add: beat_def new_transaction_def Let_def)
  have "set_data_loop (sys_bytes sys) (tx_addr (beat P tx k)) 0 0 ?n (mo_r_data ch) =
      Inr (map (\<lambda>j. load32 (sys_bytes sys) (tx_addr (beat P tx k) + 4 * of_nat j)) [0..<?n])"
    using set_data_loop_eq [of 0 ?n "mo_r_data ch"] assms(7) by simp
  then show ?thesis
    using assms(1,2) d f by (simp add: drive_read_def Let_def mutex_lock_def)
qed

theorem read_data_driven_witness:
  "\<exists>ch'. drive_read demo_P demo_sys (demo_chan (empty_mem\<lparr>tx_heap := [beat demo_P (new_transaction demo_P 0x7000 32 2 0 False 5 0x1000 False) 1],
      read_transactions := [0]\<rparr>)) = Inr ch' \<and> mo_r_last ch'
    \<and> mo_r_data ch' = map (\<lambda>j. load32 (\<lambda>a. ucast a) (0x7020 + 4 * of_nat j)) [0..<8]"
  using read_data_driven [of "demo_chan (empty_mem\<lparr>tx_heap := [beat demo_P (new_transaction demo_P 0x7000 32 2 0 False 5 0x1000 False) 1],
      read_transactions := [0]\<rparr>)" 0 "[]" demo_P "new_transaction demo_P 0x7000 32 2 0 False 5 0x1000 False" 1 demo_sys]
  by (auto simp: demo_chan_def empty_mem_def demo_P_def demo_sys_def new_transaction_def n_beats_def axi_bus_beats_length_def)

lemma write_locked_blocks:
  assumes "write_queue_lock m"
  shows "write_callback a m = Inl Blocked" and "\<not> is_ok (try_to_enqueue_ddr P acc m)"
    and "\<not> is_ok (channel_cycle P vpi ms i (ch\<lparr>ch_mem := m\<rparr>) sys)"
proof -
  have k: "issue_read P p m = Inr m1 \<Longrightarrow> write_queue_lock m1" for p m1
    using assms by (auto simp: issue_read_def Let_def res_simps)
  show "write_callback a m = Inl Blocked" using assms by (simp add: write_callback_def mutex_lock_def)
  show "\<not> is_ok (try_to_enqueue_ddr P acc m)"
    using assms k by (auto simp: is_ok_iff try_to_enqueue_ddr_def res_simps split: option.splits)
  have "write_queue_lock (ch_mem c)" if "response_handshake i (ch\<lparr>ch_mem := m\<rparr>) = Inr c1" "drive_read P sys c1 = Inr c" for c c1
    using that assms by (auto simp: response_handshake_def drive_read_def Let_def res_simps split: if_splits list.splits)
  then show "\<not> is_ok (channel_cycle P vpi ms i (ch\<lparr>ch_mem := m\<rparr>) sys)"
    by (auto simp: is_ok_iff channel_cycle_def res_simps)
qed

text \<open>C38: a write to an address without mapping stops the simulation. When such an address is taken, and the stages of the cycle before it go
  through, the Verilator builds throw; in the VPI builds the cycle returns early, with the write lock of the channel held for good: from then on every completion
  of a write, every attempt to hand a request to the DRAM and every further cycle of the channel fails.\<close>

theorem unmapped_write_blocks:
  assumes "wf_mappings ms" and "\<forall>p \<in> set ms. \<not> covers p (mi_aw_addr i)" and "mi_aw_valid i" and "mo_aw_ready ch"
    and "response_handshake i ch = Inr c1" and "drive_read P sys c1 = Inr c2" and "\<not> write_queue_lock (ch_mem ch)"
  shows "if vpi then \<exists>ch'. channel_cycle P vpi ms i ch sys = Inr (Return (ch', sys))
      \<and> (\<forall>a. write_callback a (ch_mem ch') = Inl Blocked) \<and> (\<forall>acc. \<not> is_ok (try_to_enqueue_ddr P acc (ch_mem ch')))
      \<and> (\<forall>j sys'. \<not> is_ok (channel_cycle P vpi ms j ch' sys'))
    else channel_cycle P vpi ms i ch sys = Inl Std_exception"
proof -
  have t: "translate vpi ms (mi_aw_addr i) = (if vpi then Inr 0 else Inl Std_exception)" by (rule translate_miss [OF assms(1,2)])
  have 1: "mo_aw_ready c1" "\<not> write_queue_lock (ch_mem c1)"
    using assms(4,5,7) by (auto simp: response_handshake_def res_simps split: if_splits)
  have 2: "mo_aw_ready c2" "ch_mem c2 = ch_mem c1"
    using assms(6) 1(1) by (auto simp: drive_read_def Let_def res_simps split: list.splits)
  let ?d = "drive_response c2"
  have 3: "mo_aw_ready ?d" using 2(1) by (simp add: drive_response_def Let_def split: list.split)
  let ?ch = "?d\<lparr>ch_mem := (ch_mem ?d)\<lparr>write_queue_lock := True\<rparr>\<rparr>"
  have c: "channel_cycle P vpi ms i ch sys = (if vpi then Inr (Return (?ch, sys)) else Inl Std_exception)"
    using assms(3,5,6) 1(2) 2(2) 3 t by (simp add: channel_cycle_def mutex_lock_def accept_write_def)
  have l: "write_queue_lock (ch_mem ?ch)" by simp
  have "\<not> is_ok (channel_cycle P vpi ms j ?ch sys')" for j sys'
    using write_locked_blocks(3) [OF l, where ch = ?ch] by (metis chan.surjective chan.update_convs(1))
  with c write_locked_blocks(1,2) [OF l] show ?thesis by (cases vpi) (auto intro!: exI [of _ ?ch])
qed

theorem unmapped_write_blocks_witness:
  "\<exists>ch'. channel_cycle demo_P True example_table (demo_mem_in\<lparr>mi_aw_valid := True, mi_aw_addr := 0x9999\<rparr>)
       (demo_chan empty_mem) demo_sys = Inr (Return (ch', demo_sys)) \<and> write_callback 0x1000 (ch_mem ch') = Inl Blocked"
proof -
  let ?i = "demo_mem_in\<lparr>mi_aw_valid := True, mi_aw_addr := 0x9999\<rparr>" and ?c = "(demo_chan empty_mem)\<lparr>mo_r_valid := False, mo_r_last := False\<rparr>"
  have n: "\<forall>p \<in> set example_table. \<not> covers p (mi_aw_addr ?i)" by (simp add: example_table_eq covers_def)
  have r: "response_handshake ?i (demo_chan empty_mem) = Inr (demo_chan empty_mem)" "drive_read demo_P demo_sys (demo_chan empty_mem) = Inr ?c"
    by (simp_all add: response_handshake_def drive_read_def demo_chan_def empty_mem_def mutex_lock_def Let_def)
  have s: "mi_aw_valid ?i" "mo_aw_ready (demo_chan empty_mem)" "\<not> write_queue_lock (ch_mem (demo_chan empty_mem))"
    by (simp_all add: demo_chan_def empty_mem_def)
  from unmapped_write_blocks [OF example_table_wf n s(1,2) r s(3), where vpi = True] show ?thesis by auto
qed

text \<open>A write beat narrower than the bus is stored at the wrong place. The bytes of a lane are stored at the
  transaction's address plus the lane's position on the bus, but in AXI the lane is already given by
  the address: a four-byte write to offset 4 of a bus word, on lanes 4 to 7, ends at offset 8.\<close>

theorem narrow_write_displaced:
  "case write_beat demo_P (demo_mem_in\<lparr>mi_w_valid := True, mi_w_last := True, mi_w_data := replicate 32 0xAA, mi_w_strb := [0xF0]\<rparr>)
      (demo_chan (one_write 0x7004 4)) (demo_sys\<lparr>sys_bytes := (\<lambda>a. 0)\<rparr>) of
     Inl e \<Rightarrow> False
   | Inr (ch', sys') \<Rightarrow> map (sys_bytes sys') [0x7004, 0x7005, 0x7006, 0x7007] = [0, 0, 0, 0]
       \<and> map (sys_bytes sys') [0x7008, 0x7009, 0x700A, 0x700B] = [0xAA, 0xAA, 0xAA, 0xAA]"
  by code_simp

section \<open>The DRAM clock\<close>

fun ddr_ticks :: "nat \<Rightarrow> rat \<Rightarrow> rat \<Rightarrow> nat \<times> rat" where
  "ddr_ticks 0 inc acc = (0, acc)"
| "ddr_ticks (Suc n) inc acc =
     (let (k, acc) = ddr_clock inc acc; (k', acc) = ddr_ticks n inc acc in (k + k', acc))"

lemma ddr_clock_frac:
  assumes "0 \<le> acc" and "0 \<le> inc"
  shows "ddr_clock inc acc = (nat (floor (acc + inc)), frac (acc + inc))"
proof (cases "acc + inc < 1")
  case True
  then have "frac (acc + inc) = acc + inc" using assms by (simp add: frac_eq)
  then show ?thesis by (simp add: ddr_clock_def)
qed (simp add: ddr_clock_def)

text \<open>The DRAM clock does not drift. After any number of cycles the DRAM has been ticked exactly as often as
  the elapsed cycles times the clock ratio, rounded down, and the remainder is kept.\<close>

theorem ddr_clock_no_drift:
  assumes "0 \<le> acc" and "acc < 1" and "0 \<le> inc"
  shows "ddr_ticks n inc acc = (nat (floor (acc + of_nat n * inc)), frac (acc + of_nat n * inc))"
  using assms(1,2)
proof (induction n arbitrary: acc)
  case 0
  then have "floor acc = 0" "frac acc = acc" by (auto simp: floor_eq_iff frac_eq)
  then show ?case by simp
next
  case (Suc n)
  define k where "k = floor (acc + inc)"
  define y where "y = frac (acc + inc) + of_nat n * inc"
  have a0: "0 \<le> k" using Suc.prems assms(3) by (simp add: k_def)
  have IH: "ddr_ticks n inc (frac (acc + inc)) = (nat (floor y), frac y)"
    unfolding y_def by (rule Suc.IH) (simp_all add: frac_lt_1)
  have e: "acc + of_nat (Suc n) * inc = of_int k + y"
    by (simp add: k_def y_def frac_def algebra_simps)
  have f: "floor (of_int k + y) = k + floor y" by simp
  have "frac (of_int k + y) = frac y" unfolding frac_def f by simp
  moreover have "0 \<le> y" using assms(3) by (simp add: y_def frac_ge_0)
  then have "nat (floor (of_int k + y)) = nat k + nat (floor y)"
    unfolding f using a0 by (simp add: nat_add_distrib)
  ultimately show ?case
    unfolding e by (simp add: ddr_clock_frac [OF Suc.prems(1) assms(3)] IH k_def [symmetric])
qed

theorem ddr_clock_no_drift_witness: "fst (ddr_ticks 100 (2 / 3) 0) = 66"
proof -
  have "floor (200 / 3 :: rat) = 66" by (simp add: floor_eq_iff)
  then show ?thesis using ddr_clock_no_drift [of 0 "2 / 3" 100] by simp
qed

end
