(* ===== verification/Dma_Engine.thy ===== *)
theory Dma_Engine
  imports Data_Server Mem_Tick
begin

text \<open>
  The DMA engine of the simulation: the last part of \<open>tick_signals\<close> (src/sim/tick.cc), compiled with
  \<open>BEETHOVEN_HAS_DMA\<close>. The data server posts a block (\<open>dma_chunk\<close>, src/data_server.cc) and waits on
  \<open>dma_wait_lock\<close>; the engine plays the block on the AXI port \<open>dma\<close> and releases the lock.

  \<open>dma_engine\<close> is the state shared by the two threads with the signals the runtime drives on the port,
  \<open>dma_in\<close> what the accelerator drives in one cycle (and the value of \<open>rand()\<close>), \<open>dma_tick\<close> one
  cycle. \<open>w\<close> is \<open>DATA_BUS_WIDTH\<close>. A write sends \<open>w / 32\<close> words per beat but always \<open>dma_len / 64\<close> beats; a
  read compares 64 bytes per beat with the host memory and stops the simulator at the first difference.
\<close>

section \<open>Model\<close>

record dma_in =
  di_aw_ready :: bool
  di_w_ready :: bool
  di_b_valid :: bool
  di_b_id :: nat
  di_ar_ready :: bool
  di_r_valid :: bool
  di_r_data :: "u8 list"
  di_rand :: nat

record dma_engine =
  dma_valid :: bool
  dma_in_progress :: bool
  dma_chunk_of :: dma_chunk
  dma_txprogress :: int
  dma_txlength :: int
  dma_id1 :: nat
  dma_id2 :: nat
  dma_wait_lock :: bool
  do_aw_valid :: bool
  do_aw_addr :: u64
  do_aw_id :: nat
  do_aw_size :: nat
  do_aw_len :: u64
  do_aw_burst :: nat
  do_ar_valid :: bool
  do_ar_addr :: u64
  do_ar_id :: nat
  do_ar_size :: nat
  do_ar_len :: u64
  do_ar_burst :: nat
  do_w_valid :: bool
  do_w_data :: "u32 list"
  do_w_last :: bool
  do_b_ready :: bool
  do_r_ready :: bool

text \<open>The data server posts a block under \<open>dma_lock\<close>.\<close>

definition dma_post :: "dma_chunk \<Rightarrow> dma_engine \<Rightarrow> dma_engine" where
  "dma_post c s = s\<lparr>dma_chunk_of := c, dma_valid := True, dma_in_progress := False\<rparr>"

definition dma_idle_signals :: "dma_engine \<Rightarrow> dma_engine" where
  "dma_idle_signals s = s\<lparr>do_aw_valid := False, do_ar_valid := False, do_b_ready := False,
     do_w_valid := False, do_r_ready := False\<rparr>"

text \<open>The address phase.\<close>

definition dma_start :: "dma_in \<Rightarrow> dma_engine \<Rightarrow> dma_engine" where
  "dma_start i s =
     (if dma_valid s \<and> \<not> dma_in_progress s then
        (let c = dma_chunk_of s;
             s = s\<lparr>dma_txprogress := 0, dma_txlength := sint (ucast (drop_bit 6 (dma_len c)) :: u32)\<rparr>
         in if dma_write c then
              (let s = s\<lparr>do_aw_valid := True, do_aw_addr := dma_fpga_addr c, dma_id1 := di_rand i mod 16,
                      do_aw_id := di_rand i mod 16, do_aw_size := 6, do_aw_len := dma_len c div 64 - 1, do_aw_burst := 1\<rparr>
               in if di_aw_ready i \<and> do_aw_valid s then s\<lparr>dma_in_progress := True\<rparr> else s)
            else
              (let s = s\<lparr>do_ar_valid := True, do_ar_addr := dma_fpga_addr c, dma_id2 := di_rand i mod 16,
                      do_ar_id := di_rand i mod 16, do_ar_size := 6, do_ar_len := dma_len c div 64 - 1, do_ar_burst := 1\<rparr>
               in if di_ar_ready i \<and> do_ar_valid s then s\<lparr>dma_in_progress := True\<rparr> else s))
      else s)"

definition dma_finish :: "dma_engine \<Rightarrow> dma_engine" where
  "dma_finish s = s\<lparr>dma_valid := False, dma_in_progress := False, dma_wait_lock := False\<rparr>"

text \<open>The data phase of a write: the beats, then the response (a wrong id is only reported on the console).\<close>

definition dma_write_phase :: "nat \<Rightarrow> bytes \<Rightarrow> dma_in \<Rightarrow> dma_engine \<Rightarrow> dma_engine res" where
  "dma_write_phase w mem i s =
     (if dma_txprogress s < dma_txlength s then
        rbind (set_data_loop mem (dma_ptr (dma_chunk_of s) + 4 * of_int (int (w div 32) * dma_txprogress s)) 0 0 (w div 32)
                 (do_w_data s)) (\<lambda>d.
        (let s = s\<lparr>do_w_valid := True, do_w_data := d, do_w_last := (dma_txprogress s + 1 = dma_txlength s)\<rparr>
         in Inr (if di_w_ready i then s\<lparr>dma_txprogress := dma_txprogress s + 1\<rparr> else s)))
      else
        (let s = s\<lparr>do_b_ready := True\<rparr>
         in Inr (if do_b_ready s \<and> di_b_valid i then dma_finish s else s)))"

text \<open>The comparison of one beat of a read with the host memory.\<close>

fun dma_compare :: "u8 list \<Rightarrow> bytes \<Rightarrow> u64 \<Rightarrow> nat \<Rightarrow> nat \<Rightarrow> unit res" where
  "dma_compare rval mem src_val i 0 = Inr ()"
| "dma_compare rval mem src_val i (Suc n) =
     rbind (nth_res rval (int i)) (\<lambda>b.
     if b \<noteq> mem (src_val + of_nat i) then Inl (Exit 1) else dma_compare rval mem src_val (Suc i) n)"

definition dma_read_phase :: "bytes \<Rightarrow> dma_in \<Rightarrow> dma_engine \<Rightarrow> dma_engine res" where
  "dma_read_phase mem i s =
     (let s = s\<lparr>do_r_ready := True\<rparr>
      in if do_r_ready s \<and> di_r_valid i then
           rbind (dma_compare (di_r_data i) mem (dma_ptr (dma_chunk_of s) + of_int (64 * dma_txprogress s)) 0 64) (\<lambda>_.
           (let s = s\<lparr>dma_txprogress := dma_txprogress s + 1\<rparr>
            in Inr (if dma_txprogress s = dma_txlength s then dma_finish s else s)))
         else Inr s)"

definition dma_tick :: "nat \<Rightarrow> bytes \<Rightarrow> dma_in \<Rightarrow> dma_engine \<Rightarrow> dma_engine res" where
  "dma_tick w mem i s =
     (let s = dma_start i (dma_idle_signals s)
      in if dma_in_progress s then
           (if dma_write (dma_chunk_of s) then dma_write_phase w mem i s else dma_read_phase mem i s)
         else Inr s)"

section \<open>What is seen on the port\<close>

datatype dma_event =
    AW_fire u64 nat u64          \<comment> \<open>address, size, length\<close>
  | W_fire "u32 list" bool
  | B_fire
  | AR_fire u64 nat u64
  | R_fire "u8 list"

definition dma_observe :: "dma_in \<Rightarrow> dma_engine \<Rightarrow> dma_event list" where
  "dma_observe i s =
     (if do_aw_valid s \<and> di_aw_ready i then [AW_fire (do_aw_addr s) (do_aw_size s) (do_aw_len s)] else [])
     @ (if do_ar_valid s \<and> di_ar_ready i then [AR_fire (do_ar_addr s) (do_ar_size s) (do_ar_len s)] else [])
     @ (if do_w_valid s \<and> di_w_ready i then [W_fire (do_w_data s) (do_w_last s)] else [])
     @ (if do_b_ready s \<and> di_b_valid i then [B_fire] else [])
     @ (if do_r_ready s \<and> di_r_valid i then [R_fire (di_r_data i)] else [])"

fun dma_run :: "nat \<Rightarrow> bytes \<Rightarrow> dma_in list \<Rightarrow> dma_engine \<Rightarrow> (dma_event list \<times> dma_engine) res" where
  "dma_run w mem [] s = Inr ([], s)"
| "dma_run w mem (i # is) s =
     rbind (dma_tick w mem i s) (\<lambda>s'.
     rbind (dma_run w mem is s') (\<lambda>(es, s''). Inr (dma_observe i s' @ es, s'')))"

text \<open>The traffic of a block that is written, and of one that is read back.\<close>

definition host_words :: "bytes \<Rightarrow> u64 \<Rightarrow> nat \<Rightarrow> u32 list" where
  "host_words mem a n = map (\<lambda>j. load32 mem (a + 4 * of_nat j)) [0..<n]"

definition block_beats :: "dma_chunk \<Rightarrow> nat" where
  "block_beats c = unat (dma_len c) div 64"

definition w_beat :: "nat \<Rightarrow> bytes \<Rightarrow> dma_chunk \<Rightarrow> nat \<Rightarrow> dma_event" where
  "w_beat w mem c k = W_fire (host_words mem (dma_ptr c + 4 * of_nat (w div 32 * k)) (w div 32)) (Suc k = block_beats c)"

definition write_traffic :: "nat \<Rightarrow> bytes \<Rightarrow> dma_chunk \<Rightarrow> dma_event list" where
  "write_traffic w mem c =
     AW_fire (dma_fpga_addr c) 6 (dma_len c div 64 - 1) # map (w_beat w mem c) [0..<block_beats c] @ [B_fire]"

section \<open>Properties\<close>

definition observe_address :: "dma_in \<Rightarrow> dma_engine \<Rightarrow> dma_event list" where
  "observe_address i s =
     (if do_aw_valid s \<and> di_aw_ready i then [AW_fire (do_aw_addr s) (do_aw_size s) (do_aw_len s)] else [])
     @ (if do_ar_valid s \<and> di_ar_ready i then [AR_fire (do_ar_addr s) (do_ar_size s) (do_ar_len s)] else [])"

definition observe_data :: "dma_in \<Rightarrow> dma_engine \<Rightarrow> dma_event list" where
  "observe_data i s =
     (if do_w_valid s \<and> di_w_ready i then [W_fire (do_w_data s) (do_w_last s)] else [])
     @ (if do_b_ready s \<and> di_b_valid i then [B_fire] else [])
     @ (if do_r_ready s \<and> di_r_valid i then [R_fire (di_r_data i)] else [])"

lemma observe_split: "dma_observe i s = observe_address i s @ observe_data i s"
  by (simp add: dma_observe_def observe_address_def observe_data_def)

definition dma_pos :: "nat \<Rightarrow> dma_engine \<Rightarrow> nat" where
  "dma_pos fin s = (if \<not> dma_valid s then fin else if \<not> dma_in_progress s then 0 else Suc (nat (dma_txprogress s)))"

definition dma_inv :: "nat \<Rightarrow> dma_chunk \<Rightarrow> dma_engine \<Rightarrow> bool" where
  "dma_inv w c s \<longleftrightarrow> length (do_w_data s) = w div 32 \<and> dma_wait_lock s = dma_valid s
     \<and> (dma_in_progress s \<longrightarrow> dma_valid s)
     \<and> (dma_valid s \<longrightarrow> dma_chunk_of s = c)
     \<and> (dma_in_progress s \<longrightarrow> dma_txlength s = int (block_beats c) \<and> 0 \<le> dma_txprogress s
          \<and> dma_txprogress s \<le> int (block_beats c))"

lemma txlength_beats:
  assumes "unat (dma_len c) < 2 ^ 37"
  shows "sint (ucast (drop_bit 6 (dma_len c)) :: u32) = int (block_beats c)"
proof -
  have u: "unat (drop_bit 6 (dma_len c)) = block_beats c"
    by (simp add: block_beats_def drop_bit_eq_div unat_div)
  have b: "block_beats c < 2 ^ 31" using assms by (simp add: block_beats_def less_mult_imp_div_less)
  have "unat (ucast (drop_bit 6 (dma_len c)) :: u32) = block_beats c"
    using u b by (simp add: unsigned_ucast_eq take_bit_nat_eq_self)
  then have "uint (ucast (drop_bit 6 (dma_len c)) :: u32) = int (block_beats c)"
    by (metis uint_nat)
  then show ?thesis using b by (simp add: sint_uint signed_take_bit_int_eq_self)
qed

lemma length_write_traffic [simp]: "length (write_traffic w mem c) = block_beats c + 2"
  by (simp add: write_traffic_def)

lemma drop_write_traffic:
  "k < block_beats c \<Longrightarrow> drop (Suc k) (write_traffic w mem c) = w_beat w mem c k # drop (Suc (Suc k)) (write_traffic w mem c)"
  "drop (Suc (block_beats c)) (write_traffic w mem c) = [B_fire]"
  by (simp_all add: write_traffic_def drop_map upt_conv_Cons [of k "block_beats c"] del: upt_Suc)

text \<open>The data phase moves along the traffic of the block.\<close>

lemma write_phase_step:
  assumes inv: "dma_inv w c t" and "dma_in_progress t"
    and off: "\<not> do_w_valid t" "\<not> do_b_ready t" "\<not> do_r_ready t"
  shows "\<exists>t'. dma_write_phase w mem i t = Inr t' \<and> dma_inv w c t' \<and> observe_address i t' = observe_address i t
    \<and> drop (dma_pos (block_beats c + 2) t) (write_traffic w mem c) =
        observe_data i t' @ drop (dma_pos (block_beats c + 2) t') (write_traffic w mem c)"
proof -
  obtain k where k: "dma_txprogress t = int k" "k \<le> block_beats c"
    using inv assms(2) by (metis dma_inv_def nat_eq_iff2 of_nat_le_iff zero_le_imp_eq_int)
  have t: "dma_valid t" "dma_txlength t = int (block_beats c)" "dma_chunk_of t = c" "length (do_w_data t) = w div 32"
      "dma_wait_lock t"
    using inv assms(2) by (auto simp: dma_inv_def)
  have pos: "dma_pos (block_beats c + 2) t = Suc k" using t k assms(2) by (simp add: dma_pos_def)
  show ?thesis
  proof (cases "k < block_beats c")
    case True
    have d: "set_data_loop mem (dma_ptr c + 4 * of_int (int (w div 32) * int k)) 0 0 (w div 32) (do_w_data t) =
        Inr (host_words mem (dma_ptr c + 4 * of_nat (w div 32 * k)) (w div 32))"
      using set_data_loop_eq [of 0 "w div 32" "do_w_data t"] t(4)
      by (simp add: host_words_def flip: of_nat_mult)
    let ?t = "t\<lparr>do_w_valid := True, do_w_data := host_words mem (dma_ptr c + 4 * of_nat (w div 32 * k)) (w div 32),
        do_w_last := (int k + 1 = int (block_beats c))\<rparr>"
    let ?t' = "if di_w_ready i then ?t\<lparr>dma_txprogress := int k + 1\<rparr> else ?t"
    have "dma_write_phase w mem i t = Inr ?t'"
      using True d t k by (simp add: dma_write_phase_def Let_def)
    moreover have "dma_inv w c ?t'"
      using True inv t k assms(2) by (simp add: dma_inv_def host_words_def)
    moreover have "observe_address i ?t' = observe_address i t" by (simp add: observe_address_def)
    moreover have "drop (Suc k) (write_traffic w mem c) =
        observe_data i ?t' @ drop (dma_pos (block_beats c + 2) ?t') (write_traffic w mem c)"
      using drop_write_traffic(1) [OF True, of w mem] t k off assms(2)
      by (auto simp: observe_data_def dma_pos_def w_beat_def nat_add_distrib)
    ultimately show ?thesis using pos by metis
  next
    case False
    with k have kn: "k = block_beats c" by simp
    let ?t = "t\<lparr>do_b_ready := True\<rparr>"
    let ?t' = "if di_b_valid i then dma_finish ?t else ?t"
    have "dma_write_phase w mem i t = Inr ?t'"
      using kn t k by (simp add: dma_write_phase_def Let_def)
    moreover have "dma_inv w c ?t'"
      using inv t k assms(2) by (simp add: dma_inv_def dma_finish_def)
    moreover have "observe_address i ?t' = observe_address i t" by (simp add: observe_address_def dma_finish_def)
    moreover have "drop (Suc k) (write_traffic w mem c) =
        observe_data i ?t' @ drop (dma_pos (block_beats c + 2) ?t') (write_traffic w mem c)"
      using drop_write_traffic(2) [of c w mem] t k kn off assms(2)
      by (auto simp: observe_data_def dma_pos_def dma_finish_def)
    ultimately show ?thesis using pos by metis
  qed
qed

lemma write_tick:
  assumes inv: "dma_inv w c s" and wr: "dma_write c" and len: "unat (dma_len c) < 2 ^ 37"
  shows "\<exists>s'. dma_tick w mem i s = Inr s' \<and> dma_inv w c s'
    \<and> drop (dma_pos (block_beats c + 2) s) (write_traffic w mem c) =
        dma_observe i s' @ drop (dma_pos (block_beats c + 2) s') (write_traffic w mem c)"
proof -
  define t where "t = dma_start i (dma_idle_signals s)"
  note defs = t_def dma_start_def dma_idle_signals_def Let_def
  have off: "\<not> do_w_valid t" "\<not> do_b_ready t" "\<not> do_r_ready t" by (simp_all add: defs)
  have ti: "dma_inv w c t"
    using inv wr txlength_beats [OF len] by (simp add: defs dma_inv_def)
  have pos: "drop (dma_pos (block_beats c + 2) s) (write_traffic w mem c) =
      observe_address i t @ drop (dma_pos (block_beats c + 2) t) (write_traffic w mem c)"
    using inv wr by (simp add: defs dma_inv_def dma_pos_def observe_address_def write_traffic_def)
  have tw: "dma_in_progress t \<Longrightarrow> dma_write (dma_chunk_of t)" using ti wr by (simp add: dma_inv_def)
  show ?thesis
  proof (cases "dma_in_progress t")
    case True
    from write_phase_step [OF ti this off, of mem i] obtain t' where
      "dma_write_phase w mem i t = Inr t'" "dma_inv w c t'" "observe_address i t' = observe_address i t"
      "drop (dma_pos (block_beats c + 2) t) (write_traffic w mem c) =
        observe_data i t' @ drop (dma_pos (block_beats c + 2) t') (write_traffic w mem c)"
      by blast
    then show ?thesis using True tw pos by (simp add: dma_tick_def observe_split flip: t_def)
  next
    case False
    then have "dma_tick w mem i s = Inr t" by (simp add: dma_tick_def flip: t_def)
    moreover have "observe_data i t = []" using off by (simp add: observe_data_def)
    ultimately show ?thesis using pos ti by (simp add: observe_split)
  qed
qed

lemma write_run:
  assumes "dma_inv w c s" and wr: "dma_write c" and len: "unat (dma_len c) < 2 ^ 37"
  shows "\<exists>es s'. dma_run w mem is s = Inr (es, s') \<and> dma_inv w c s'
    \<and> drop (dma_pos (block_beats c + 2) s) (write_traffic w mem c) =
        es @ drop (dma_pos (block_beats c + 2) s') (write_traffic w mem c)"
  using assms(1)
proof (induction "is" arbitrary: s)
  case Nil
  then show ?case by simp
next
  case (Cons i "is")
  from write_tick [OF Cons.prems wr len, of mem i] obtain s1 where s1: "dma_tick w mem i s = Inr s1" "dma_inv w c s1"
    "drop (dma_pos (block_beats c + 2) s) (write_traffic w mem c) =
        dma_observe i s1 @ drop (dma_pos (block_beats c + 2) s1) (write_traffic w mem c)" by blast
  from Cons.IH [OF s1(2)] s1 show ?case by auto
qed

definition dma_ready :: "dma_in \<Rightarrow> bool" where
  "dma_ready i \<longleftrightarrow> di_aw_ready i \<and> di_w_ready i \<and> di_b_valid i"

lemma write_phase_ready:
  assumes "dma_ready i" and "dma_write_phase w mem i t = Inr t'" and "dma_in_progress t" and "dma_valid t"
    and "0 \<le> dma_txprogress t" and "dma_txprogress t \<le> dma_txlength t" and "dma_txlength t = int n"
  shows "dma_pos (n + 2) t < dma_pos (n + 2) t'"
  using assms
  by (auto simp: dma_write_phase_def dma_ready_def dma_pos_def dma_finish_def Let_def res_simps nat_add_distrib split: if_splits)

lemma write_tick_ready:
  assumes inv: "dma_inv w c s" and wr: "dma_write c" and len: "unat (dma_len c) < 2 ^ 37" and rdy: "dma_ready i"
    and tk: "dma_tick w mem i s = Inr s'"
  shows "\<not> dma_valid s' \<or> dma_pos (block_beats c + 2) s < dma_pos (block_beats c + 2) s'"
proof (cases "dma_valid s")
  case True
  define t where "t = dma_start i (dma_idle_signals s)"
  note defs = t_def dma_start_def dma_idle_signals_def Let_def
  have t: "dma_in_progress t" "dma_valid t" "dma_chunk_of t = c" "dma_txlength t = int (block_beats c)"
    "0 \<le> dma_txprogress t" "dma_txprogress t \<le> dma_txlength t"
    "dma_pos (block_beats c + 2) s \<le> dma_pos (block_beats c + 2) t"
    using True inv wr rdy txlength_beats [OF len] by (simp_all add: defs dma_inv_def dma_ready_def dma_pos_def)
  with tk wr have "dma_write_phase w mem i t = Inr s'" by (simp add: dma_tick_def flip: t_def)
  from write_phase_ready [OF rdy this t(1,2,5,6,4)] t(7) show ?thesis by simp
next
  case False
  with inv tk show ?thesis
    by (auto simp: dma_tick_def dma_start_def dma_idle_signals_def dma_inv_def)
qed

lemma write_run_ready:
  assumes "dma_inv w c s" and wr: "dma_write c" and len: "unat (dma_len c) < 2 ^ 37"
    and "dma_run w mem is s = Inr (es, s')" and "\<forall>i\<in>set is. dma_ready i"
    and "dma_pos (block_beats c + 2) s + length is \<ge> block_beats c + 2"
  shows "\<not> dma_valid s'"
  using assms(1,4-)
proof (induction "is" arbitrary: s es)
  case Nil
  then show ?case by (auto simp: dma_pos_def dma_inv_def split: if_splits)
next
  case (Cons i "is")
  from Cons.prems obtain s1 es1 where s1: "dma_tick w mem i s = Inr s1" "dma_run w mem is s1 = Inr (es1, s')"
    by (auto simp: res_simps)
  have inv1: "dma_inv w c s1" using write_tick [OF Cons.prems(1) wr len, of mem i] s1(1) by auto
  have "\<not> dma_valid s1 \<or> dma_pos (block_beats c + 2) s < dma_pos (block_beats c + 2) s1"
    using write_tick_ready [OF Cons.prems(1) wr len _ s1(1)] Cons.prems(3) by simp
  then have "block_beats c + 2 \<le> dma_pos (block_beats c + 2) s1 + length is"
    using Cons.prems(4) by (auto simp: dma_pos_def)
  then show ?case using Cons.IH [OF inv1 s1(2)] Cons.prems(3) by simp
qed

lemma dma_pos_end: "dma_inv w c s \<Longrightarrow> block_beats c + 2 \<le> dma_pos (block_beats c + 2) s \<longleftrightarrow> \<not> dma_valid s"
  by (auto simp: dma_pos_def dma_inv_def)

lemma dma_inv_post:
  "length (do_w_data s) = w div 32 \<Longrightarrow> dma_wait_lock s \<Longrightarrow> dma_inv w c (dma_post c s)"
  by (simp add: dma_inv_def dma_post_def)

lemma dma_write_block_run:
  assumes "dma_write c" and "unat (dma_len c) < 2 ^ 37"
    and "length (do_w_data s) = w div 32" and "dma_wait_lock s"
  shows "\<exists>es s'. dma_run w mem is (dma_post c s) = Inr (es, s')
    \<and> es = take (length es) (write_traffic w mem c)
    \<and> (\<not> dma_wait_lock s' \<longleftrightarrow> es = write_traffic w mem c)
    \<and> (block_beats c + 2 \<le> length is \<and> (\<forall>i\<in>set is. dma_ready i) \<longrightarrow> \<not> dma_wait_lock s')"
proof -
  note inv = dma_inv_post [OF assms(3,4), of c]
  have p0: "dma_pos (block_beats c + 2) (dma_post c s) = 0" by (simp add: dma_pos_def dma_post_def)
  from write_run [OF inv assms(1,2), of mem "is"] obtain es s' where
    r: "dma_run w mem is (dma_post c s) = Inr (es, s')" "dma_inv w c s'"
      "write_traffic w mem c = es @ drop (dma_pos (block_beats c + 2) s') (write_traffic w mem c)"
    unfolding p0 by auto
  have lk: "dma_wait_lock s' = dma_valid s'" using r(2) by (simp add: dma_inv_def)
  have "es = take (length es) (write_traffic w mem c)" by (metis r(3) append_eq_conv_conj)
  moreover have "\<not> dma_valid s' \<longleftrightarrow> es = write_traffic w mem c"
    using r(3) dma_pos_end [OF r(2)] by (metis append_Nil2 append_self_conv drop_eq_Nil length_write_traffic)
  moreover have "\<not> dma_valid s'" if "block_beats c + 2 \<le> length is" and "\<forall>i\<in>set is. dma_ready i"
    using write_run_ready [OF inv assms(1,2) r(1)] that p0 by simp
  ultimately show ?thesis using r(1) lk by auto
qed

text \<open>C19: for every timing of the handshakes on the port, a block that the data server posts for writing appears
  there as one address handshake, the words of the host memory from \<open>dma_ptr\<close> on in \<open>dma_len / 64\<close> beats of
  the bus width, the last one marked, and one response; never more, never in another order. The server is
  released exactly when all of it has been seen, and that is so after \<open>dma_len / 64 + 2\<close> cycles of an
  accelerator that is always ready.\<close>

theorem dma_write_block:
  assumes "dma_write c" and "unat (dma_len c) < 2 ^ 37"
    and "length (do_w_data s) = w div 32" and "dma_wait_lock s"
  shows "\<exists>es s'. dma_run w mem is (dma_post c s) = Inr (es, s')
    \<and> es = take (length es) (write_traffic w mem c)
    \<and> (\<not> dma_wait_lock s' \<longleftrightarrow> es = write_traffic w mem c)
    \<and> (block_beats c + 2 \<le> length is \<and> (\<forall>i\<in>set is. dma_ready i) \<longrightarrow> \<not> dma_wait_lock s')"
  by (rule dma_write_block_run [OF assms])

definition demo_engine :: dma_engine where
  "demo_engine = \<lparr>dma_valid = False, dma_in_progress = False,
     dma_chunk_of = \<lparr>dma_len = 0, dma_ptr = 0, dma_fpga_addr = 0, dma_write = False\<rparr>,
     dma_txprogress = 0, dma_txlength = 0, dma_id1 = 0, dma_id2 = 0, dma_wait_lock = True,
     do_aw_valid = False, do_aw_addr = 0, do_aw_id = 0, do_aw_size = 0, do_aw_len = 0, do_aw_burst = 0,
     do_ar_valid = False, do_ar_addr = 0, do_ar_id = 0, do_ar_size = 0, do_ar_len = 0, do_ar_burst = 0,
     do_w_valid = False, do_w_data = replicate 16 0, do_w_last = False, do_b_ready = False, do_r_ready = False\<rparr>"

definition demo_dma_in :: dma_in where
  "demo_dma_in = \<lparr>di_aw_ready = True, di_w_ready = True, di_b_valid = True, di_b_id = 0, di_ar_ready = True,
     di_r_valid = True, di_r_data = map of_nat [0..<64], di_rand = 7\<rparr>"

definition demo_chunk :: "bool \<Rightarrow> dma_chunk" where
  "demo_chunk wr = \<lparr>dma_len = 128, dma_ptr = 0x7000, dma_fpga_addr = 0x100, dma_write = wr\<rparr>"

theorem dma_write_block_witness:
  "\<exists>es s'. dma_run 512 (\<lambda>a. ucast a) (replicate 4 demo_dma_in) (dma_post (demo_chunk True) demo_engine) = Inr (es, s')
    \<and> \<not> dma_wait_lock s' \<and> es = write_traffic 512 (\<lambda>a. ucast a) (demo_chunk True)"
  using dma_write_block [of "demo_chunk True" demo_engine 512 "\<lambda>a. ucast a" "replicate 4 demo_dma_in"]
  by (auto simp: demo_chunk_def demo_engine_def demo_dma_in_def dma_ready_def block_beats_def)

lemma dma_compare_eq:
  assumes "i + n \<le> length rval"
  shows "dma_compare rval mem a i n =
    (if \<forall>j\<in>{i..<i + n}. rval ! j = mem (a + of_nat j) then Inr () else Inl (Exit 1))"
  using assms
proof (induction n arbitrary: i)
  case 0
  then show ?case by simp
next
  case (Suc n)
  have "{i..<i + Suc n} = insert i {Suc i..<Suc i + n}" by auto
  with Suc show ?case by (simp add: nth_res_int)
qed

lemma dma_compare_64:
  assumes "64 \<le> length rval"
  shows "dma_compare rval mem a 0 64 = (if take 64 rval = mem_read mem a 64 then Inr () else Inl (Exit 1))"
proof -
  have "take 64 rval = mem_read mem a 64 \<longleftrightarrow> (\<forall>j\<in>{0..<64}. rval ! j = mem (a + of_nat j))"
    using assms by (auto simp: list_eq_iff_nth_eq)
  then show ?thesis using dma_compare_eq [of 0 64 rval mem a] assms by simp
qed

text \<open>What has been seen of a block that is read: the address, then the beats \<open>ds\<close>.\<close>

definition read_seen :: "bytes \<Rightarrow> dma_chunk \<Rightarrow> dma_event list \<Rightarrow> dma_engine \<Rightarrow> bool" where
  "read_seen mem c es s \<longleftrightarrow>
     (dma_valid s \<and> \<not> dma_in_progress s \<longrightarrow> es = [])
     \<and> (dma_in_progress s \<or> \<not> dma_valid s \<longrightarrow>
          (\<exists>ds. es = AR_fire (dma_fpga_addr c) 6 (dma_len c div 64 - 1) # map R_fire ds
             \<and> concat (map (take 64) ds) = mem_read mem (dma_ptr c) (64 * length ds)
             \<and> (if dma_valid s then int (length ds) = dma_txprogress s \<and> length ds < block_beats c
                else length ds = block_beats c)))"

lemma read_phase_step:
  assumes inv: "dma_inv w c t" and "dma_in_progress t" and len: "64 \<le> length (di_r_data i)"
    and off: "\<not> do_w_valid t" "\<not> do_b_ready t" "\<not> do_r_ready t" and seen: "read_seen mem c es t"
  shows "case dma_read_phase mem i t of
      Inl e \<Rightarrow> e = Exit 1 \<and> di_r_valid i
    | Inr t' \<Rightarrow> dma_inv w c t' \<and> observe_address i t' = observe_address i t \<and> read_seen mem c (es @ observe_data i t') t'"
proof -
  have t: "dma_valid t" "dma_txlength t = int (block_beats c)" "dma_chunk_of t = c" "dma_wait_lock t"
    using inv assms(2) by (auto simp: dma_inv_def)
  with seen assms(2) obtain ds where ds: "es = AR_fire (dma_fpga_addr c) 6 (dma_len c div 64 - 1) # map R_fire ds"
      "concat (map (take 64) ds) = mem_read mem (dma_ptr c) (64 * length ds)"
      "dma_txprogress t = int (length ds)" "length ds < block_beats c"
    by (auto simp: read_seen_def)
  show ?thesis
  proof (cases "di_r_valid i")
    case False
    then show ?thesis using inv seen off
      by (simp add: dma_read_phase_def Let_def dma_inv_def read_seen_def observe_address_def observe_data_def)
  next
    case True
    let ?a = "dma_ptr c + of_int (64 * int (length ds))"
    have a: "?a = dma_ptr c + of_nat (64 * length ds)" by simp
    show ?thesis
    proof (cases "take 64 (di_r_data i) = mem_read mem ?a 64")
      case ok: False
      then show ?thesis using True len t ds by (simp add: dma_read_phase_def Let_def dma_compare_64)
    next
      case ok: True
      let ?t = "t\<lparr>do_r_ready := True, dma_txprogress := int (length ds) + 1\<rparr>"
      let ?t' = "if int (length ds) + 1 = int (block_beats c) then dma_finish ?t else ?t"
      have "dma_read_phase mem i t = Inr ?t'"
        using True len t ds ok by (simp add: dma_read_phase_def Let_def dma_compare_64)
      moreover have "dma_inv w c ?t'" using inv t ds assms(2) by (simp add: dma_inv_def dma_finish_def)
      moreover have "observe_address i ?t' = observe_address i t" by (simp add: observe_address_def dma_finish_def)
      moreover have "observe_data i ?t' = [R_fire (di_r_data i)]"
        using off True by (simp add: observe_data_def dma_finish_def)
      moreover have "read_seen mem c (es @ [R_fire (di_r_data i)]) ?t'"
      proof -
        have "concat (map (take 64) (ds @ [di_r_data i])) = mem_read mem (dma_ptr c) (64 * length (ds @ [di_r_data i]))"
          using ds(2) ok mem_read_append [of mem "dma_ptr c" "64 * length ds" 64] unfolding a
          by (simp add: add.commute)
        moreover have "es @ [R_fire (di_r_data i)] =
            AR_fire (dma_fpga_addr c) 6 (dma_len c div 64 - 1) # map R_fire (ds @ [di_r_data i])" using ds(1) by simp
        ultimately show ?thesis using t ds(3,4) assms(2)
          unfolding read_seen_def by (intro conjI impI exI [of _ "ds @ [di_r_data i]"]) (auto simp: dma_finish_def split: if_splits)
      qed
      ultimately show ?thesis by simp
    qed
  qed
qed

lemma read_tick:
  assumes inv: "dma_inv w c s" and rd: "\<not> dma_write c" and len: "unat (dma_len c) < 2 ^ 37" and n: "0 < block_beats c"
    and d: "64 \<le> length (di_r_data i)" and seen: "read_seen mem c es s"
  shows "case dma_tick w mem i s of
      Inl e \<Rightarrow> e = Exit 1 \<and> di_r_valid i
    | Inr s' \<Rightarrow> dma_inv w c s' \<and> read_seen mem c (es @ dma_observe i s') s'"
proof -
  define t where "t = dma_start i (dma_idle_signals s)"
  note defs = t_def dma_start_def dma_idle_signals_def Let_def
  have off: "\<not> do_w_valid t" "\<not> do_b_ready t" "\<not> do_r_ready t" by (simp_all add: defs)
  have ti: "dma_inv w c t"
    using inv rd txlength_beats [OF len] by (simp add: defs dma_inv_def)
  have st: "read_seen mem c (es @ observe_address i t) t"
    using inv rd seen n by (auto simp: defs dma_inv_def read_seen_def observe_address_def mem_read_def)
  have tr: "dma_in_progress t \<Longrightarrow> \<not> dma_write (dma_chunk_of t)" using ti rd by (simp add: dma_inv_def)
  show ?thesis
  proof (cases "dma_in_progress t")
    case True
    then have eq: "dma_tick w mem i s = dma_read_phase mem i t" using tr by (simp add: dma_tick_def flip: t_def)
    show ?thesis
      using read_phase_step [OF ti True d off st] unfolding eq
      by (cases "dma_read_phase mem i t") (simp_all add: observe_split)
  next
    case False
    then have "dma_tick w mem i s = Inr t" by (simp add: dma_tick_def flip: t_def)
    moreover have "observe_data i t = []" using off by (simp add: observe_data_def)
    ultimately show ?thesis using st ti by (simp add: observe_split)
  qed
qed

lemma read_run:
  assumes "dma_inv w c s" and rd: "\<not> dma_write c" and len: "unat (dma_len c) < 2 ^ 37" and n: "0 < block_beats c"
    and "\<forall>i\<in>set is. 64 \<le> length (di_r_data i)" and "read_seen mem c es s"
  shows "case dma_run w mem is s of
      Inl e \<Rightarrow> e = Exit 1
    | Inr (es', s') \<Rightarrow> dma_inv w c s' \<and> read_seen mem c (es @ es') s'"
  using assms(1,5-)
proof (induction "is" arbitrary: s es)
  case Nil
  then show ?case by simp
next
  case (Cons i "is")
  note t = read_tick [OF Cons.prems(1) rd len n _ Cons.prems(3), of i]
  show ?case
  proof (cases "dma_tick w mem i s")
    case (Inl e)
    with t Cons.prems(2) show ?thesis by simp
  next
    case (Inr s1)
    with t Cons.prems(2) have "dma_inv w c s1" "read_seen mem c (es @ dma_observe i s1) s1" by simp_all
    from Cons.IH [OF this(1) _ this(2)] Cons.prems(2) Inr show ?thesis
      by (cases "dma_run w mem is s1") auto
  qed
qed

text \<open>C20: reading a block back is a check of the device memory. For every timing and every data the accelerator
  returns, the only failure is the exit with status 1; as long as the simulation goes on, what was seen is the
  address handshake followed by beats that are, byte for byte, the host memory from \<open>dma_ptr\<close> on, and the
  server is released exactly at the last of the \<open>dma_len / 64\<close> beats.\<close>

theorem dma_read_block:
  assumes "\<not> dma_write c" and "unat (dma_len c) < 2 ^ 37" and "0 < block_beats c"
    and "\<forall>i\<in>set is. 64 \<le> length (di_r_data i)"
    and "length (do_w_data s) = w div 32" and "dma_wait_lock s"
  shows "case dma_run w mem is (dma_post c s) of
      Inl e \<Rightarrow> e = Exit 1
    | Inr (es, s') \<Rightarrow>
        (es = [] \<and> dma_wait_lock s')
        \<or> (\<exists>ds. es = AR_fire (dma_fpga_addr c) 6 (dma_len c div 64 - 1) # map R_fire ds
             \<and> concat (map (take 64) ds) = mem_read mem (dma_ptr c) (64 * length ds)
             \<and> length ds \<le> block_beats c \<and> (\<not> dma_wait_lock s' \<longleftrightarrow> length ds = block_beats c))"
proof -
  note inv = dma_inv_post [OF assms(5,6), of c]
  have "read_seen mem c [] (dma_post c s)" by (simp add: read_seen_def dma_post_def)
  note r = read_run [OF inv assms(1-4) this]
  show ?thesis
  proof (cases "dma_run w mem is (dma_post c s)")
    case (Inl e)
    with r show ?thesis by simp
  next
    case (Inr p)
    obtain es s' where p: "p = (es, s')" by (cases p)
    with Inr r have i: "dma_inv w c s'" and sn: "read_seen mem c es s'" by simp_all
    have lk: "dma_wait_lock s' = dma_valid s'" using i by (simp add: dma_inv_def)
    show ?thesis
    proof (cases "dma_valid s' \<and> \<not> dma_in_progress s'")
      case True
      then show ?thesis using sn lk by (simp add: Inr p read_seen_def)
    next
      case False
      with sn have "\<exists>ds. es = AR_fire (dma_fpga_addr c) 6 (dma_len c div 64 - 1) # map R_fire ds
             \<and> concat (map (take 64) ds) = mem_read mem (dma_ptr c) (64 * length ds)
             \<and> (if dma_valid s' then int (length ds) = dma_txprogress s' \<and> length ds < block_beats c
                else length ds = block_beats c)"
        unfolding read_seen_def by blast
      then show ?thesis using lk unfolding Inr p by (auto split: if_splits)
    qed
  qed
qed

theorem dma_read_block_witness:
  "case dma_run 512 (\<lambda>a. ucast a) [demo_dma_in] (dma_post (demo_chunk False) demo_engine) of
      Inl e \<Rightarrow> False
    | Inr (es, s') \<Rightarrow> es = [AR_fire 0x100 6 1, R_fire (map of_nat [0..<64])] \<and> dma_wait_lock s'"
proof -
  have "dma_run 512 (\<lambda>a. ucast a) [demo_dma_in] (dma_post (demo_chunk False) demo_engine) \<noteq> Inl (Exit 1)
      \<and> (case dma_run 512 (\<lambda>a. ucast a) [demo_dma_in] (dma_post (demo_chunk False) demo_engine) of
          Inl e \<Rightarrow> False | Inr (es, s') \<Rightarrow> es = [AR_fire 0x100 6 1, R_fire (map of_nat [0..<64])])"
    by code_simp
  then show ?thesis
    using dma_read_block [of "demo_chunk False" "[demo_dma_in]" demo_engine 512 "\<lambda>a. ucast a"]
    by (auto simp: demo_chunk_def demo_dma_in_def demo_engine_def block_beats_def split: sum.splits)
qed

subsection \<open>Composition with the data server\<close>

text \<open>The words of the write beats, and the conversation of the two threads over a list of blocks: the server posts a
  block, takes \<open>dma_wait_lock\<close> (a second time: it waits for the engine to release it) and goes on.\<close>

fun w_words :: "dma_event list \<Rightarrow> u32 list" where
  "w_words [] = []"
| "w_words (W_fire d l # es) = d @ w_words es"
| "w_words (e # es) = w_words es"

fun dma_session :: "nat \<Rightarrow> bytes \<Rightarrow> (dma_chunk \<times> dma_in list) list \<Rightarrow> dma_engine \<Rightarrow> (dma_event list \<times> dma_engine) res" where
  "dma_session w mem [] s = Inr ([], s)"
| "dma_session w mem ((c, is) # xs) s =
     rbind (dma_run w mem is (dma_post c s)) (\<lambda>(es, s').
     rbind (mutex_lock (dma_wait_lock s')) (\<lambda>l.
     rbind (dma_session w mem xs (s'\<lparr>dma_wait_lock := l\<rparr>)) (\<lambda>(es', s'').
     Inr (es @ es', s''))))"

lemma w_words_append: "w_words (xs @ ys) = w_words xs @ w_words ys"
  by (induction xs rule: w_words.induct) auto

lemma host_words_append: "host_words mem a (m + n) = host_words mem a m @ host_words mem (a + 4 * of_nat m) n"
  by (rule nth_equalityI) (auto simp: host_words_def nth_append algebra_simps)

lemma w_words_beats:
  "w_words (map (w_beat w mem c) [0..<k]) = host_words mem (dma_ptr c) (w div 32 * k)"
proof (induction k)
  case 0
  then show ?case by (simp add: host_words_def)
next
  case (Suc k)
  have "w div 32 * Suc k = w div 32 * k + w div 32" by simp
  with Suc show ?case by (simp only: host_words_append) (simp add: w_words_append w_beat_def)
qed

lemma w_words_traffic: "w_words (write_traffic w mem c) = host_words mem (dma_ptr c) (w div 32 * block_beats c)"
  by (simp add: write_traffic_def w_words_append w_words_beats)

lemma dma_run_data_width:
  assumes "dma_inv w c s" and "dma_write c" and "unat (dma_len c) < 2 ^ 37" and "dma_run w mem is s = Inr (es, s')"
  shows "length (do_w_data s') = w div 32"
  using write_run [OF assms(1-3), of mem "is"] assms(4) by (auto simp: dma_inv_def)

lemma session_tiles:
  assumes "tiles True (map fst xs) p q n" and "length (do_w_data s) = 16" and "dma_wait_lock s"
    and "dma_session 512 mem xs s = Inr (es, s')"
  shows "w_words es = host_words mem p (n div 4)"
  using assms
proof (induction xs arbitrary: p q n s es)
  case Nil
  then show ?case by (simp add: host_words_def)
next
  case (Cons x xs)
  obtain c "is" where x: "x = (c, is)" by (cases x)
  from Cons.prems(1) have c: "dma_write c" "dma_ptr c = p" "64 dvd unat (dma_len c)" "unat (dma_len c) \<le> 63 * 64"
      "unat (dma_len c) \<le> n" and ts: "tiles True (map fst xs) (p + dma_len c) (q + dma_len c) (n - unat (dma_len c))"
    by (auto simp: x)
  have len: "unat (dma_len c) < 2 ^ 37" using c(4) by simp
  from Cons.prems(4) obtain es1 s1 es2 where r: "dma_run 512 mem is (dma_post c s) = Inr (es1, s1)"
      "\<not> dma_wait_lock s1" "dma_session 512 mem xs (s1\<lparr>dma_wait_lock := True\<rparr>) = Inr (es2, s')" "es = es1 @ es2"
    by (auto simp: x res_simps)
  have s16: "length (do_w_data s) = 512 div 32" using Cons.prems(2) by simp
  have es1: "es1 = write_traffic 512 mem c"
    using dma_write_block_run [OF c(1) len s16 Cons.prems(3), of mem "is"] r(1,2) by auto
  have "length (do_w_data s1) = 512 div 32"
    by (rule dma_run_data_width [OF dma_inv_post [OF s16 Cons.prems(3)] c(1) len r(1)])
  then have es2: "w_words es2 = host_words mem (p + dma_len c) ((n - unat (dma_len c)) div 4)"
    using Cons.IH [OF ts _ _ r(3)] by simp
  obtain k where k: "unat (dma_len c) = 64 * k" using c(3) by (auto simp: dvd_def)
  have "n = (n - 64 * k) + (16 * k) * 4" using c(5) k by simp
  then have "n div 4 = 16 * k + (n - 64 * k) div 4" by (metis div_mult_self1 zero_neq_numeral)
  moreover have "dma_len c = 4 * of_nat (16 * k)"
  proof -
    have "dma_len c = of_nat (64 * k)" using arg_cong [OF k, of "of_nat :: nat \<Rightarrow> u64"] by simp
    then show ?thesis by simp
  qed
  ultimately have "host_words mem p (n div 4) = host_words mem p (16 * k) @ host_words mem (p + dma_len c) ((n - 64 * k) div 4)"
    by (simp only: host_words_append)
  then show ?case
    using es1 es2 r(4) k c(2) by (simp add: w_words_append w_words_traffic block_beats_def)
qed
lemma session_ends:
  assumes "tiles True (map fst xs) p q n" and "length (do_w_data s) = 16" and "dma_wait_lock s"
    and "\<forall>(c, is)\<in>set xs. 65 \<le> length is \<and> (\<forall>i\<in>set is. dma_ready i)"
  shows "is_ok (dma_session 512 mem xs s)"
  using assms
proof (induction xs arbitrary: p q n s)
  case Nil
  then show ?case by simp
next
  case (Cons x xs)
  obtain c "is" where x: "x = (c, is)" by (cases x)
  from Cons.prems(1) have c: "dma_write c" "unat (dma_len c) \<le> 63 * 64"
      and ts: "tiles True (map fst xs) (p + dma_len c) (q + dma_len c) (n - unat (dma_len c))"
    by (auto simp: x)
  have len: "unat (dma_len c) < 2 ^ 37" and n: "block_beats c + 2 \<le> 65"
    using c(2) by (simp_all add: block_beats_def)
  have rdy: "65 \<le> length is" "\<forall>i\<in>set is. dma_ready i" using Cons.prems(4) by (simp_all add: x)
  have s16: "length (do_w_data s) = 512 div 32" using Cons.prems(2) by simp
  from dma_write_block_run [OF c(1) len s16 Cons.prems(3), of mem "is"] rdy n obtain es1 s1 where
    r: "dma_run 512 mem is (dma_post c s) = Inr (es1, s1)" "\<not> dma_wait_lock s1" by auto
  have "length (do_w_data s1) = 512 div 32"
    by (rule dma_run_data_width [OF dma_inv_post [OF s16 Cons.prems(3)] c(1) len r(1)])
  then have "is_ok (dma_session 512 mem xs (s1\<lparr>dma_wait_lock := True\<rparr>))"
    using Cons.IH [OF ts] Cons.prems(4) by simp
  then show ?case using r by (auto simp: x res_simps mutex_lock_def)
qed

text \<open>C13: a move of \<open>amt\<close> bytes to the accelerator, over a data bus of 512 bits, the width at which a beat is the 64 bytes that the engine
  counts, with \<open>amt\<close> a multiple of 64 (\<open>xs\<close> has each block that the loop of the data server posts, for any random sizes, with what the port shows in the cycles until the
  server goes on). If the conversation goes through, that is, no block is still in progress when its cycles are used up, the words of all write beats, in the order they are
  seen on the port, are the words of the host range. It does go through when each block has at least 65 cycles and the accelerator is ready in all of them;
  for other timings that is not claimed.\<close>

theorem dma_move_sends_range:
  assumes "64 dvd unat amt" and "dma_loop rnd 0 True amt p q = Inr (map fst xs)"
    and "length (do_w_data s) = 16" and "dma_wait_lock s"
  shows "(case dma_session 512 mem xs s of Inl e \<Rightarrow> True | Inr (es, s') \<Rightarrow> w_words es = host_words mem p (unat amt div 4))
    \<and> ((\<forall>(c, is)\<in>set xs. 65 \<le> length is \<and> (\<forall>i\<in>set is. dma_ready i)) \<longrightarrow> is_ok (dma_session 512 mem xs s))"
proof -
  have ts: "tiles True (map fst xs) p q (unat amt)"
    using dma_loop_aligned [OF assms(1), of rnd 0 True p q] assms(2) by simp
  show ?thesis
    using session_tiles [OF ts assms(3,4)] session_ends [OF ts assms(3,4)] by (auto split: sum.splits)
qed

definition demo_blocks :: "(dma_chunk \<times> dma_in list) list" where
  "demo_blocks = [(demo_chunk True\<lparr>dma_len := 64\<rparr>, replicate 65 demo_dma_in),
     (demo_chunk True\<lparr>dma_len := 64, dma_ptr := 0x7040, dma_fpga_addr := 0x140\<rparr>, replicate 65 demo_dma_in)]"

theorem dma_move_sends_range_witness:
  "dma_loop (\<lambda>i. 1) 0 True 128 0x7000 0x100 = Inr (map fst demo_blocks)
    \<and> (case dma_session 512 (\<lambda>a. ucast a) demo_blocks demo_engine of
        Inl e \<Rightarrow> False | Inr (es, s') \<Rightarrow> w_words es = host_words (\<lambda>a. ucast a) 0x7000 32)"
proof -
  have l: "dma_loop (\<lambda>i. 1) 0 True 128 0x7000 0x100 = Inr (map fst demo_blocks)" by code_simp
  have "\<forall>(c, is)\<in>set demo_blocks. 65 \<le> length is \<and> (\<forall>i\<in>set is. dma_ready i)"
    by (simp add: demo_blocks_def dma_ready_def demo_dma_in_def)
  then show ?thesis
    using dma_move_sends_range [OF _ l, of demo_engine "\<lambda>a. ucast a"] l
    by (cases "dma_session 512 (\<lambda>a. ucast a) demo_blocks demo_engine") (simp_all add: demo_engine_def)
qed

text \<open>While the accelerator does not accept the address, the ID driven with it changes from cycle to cycle, although the
  AXI protocol asks a master to hold the address signals once \<open>VALID\<close> is high.\<close>

lemma dma_id_not_held:
  assumes "dma_valid s" and "\<not> dma_in_progress s" and "dma_write (dma_chunk_of s)"
    and "\<not> di_aw_ready i" and "\<not> di_aw_ready j" and "di_rand i mod 16 \<noteq> di_rand j mod 16"
  shows "case dma_tick w mem i s of
      Inl e \<Rightarrow> False
    | Inr s1 \<Rightarrow> (case dma_tick w mem j s1 of
        Inl e \<Rightarrow> False
      | Inr s2 \<Rightarrow> do_aw_valid s1 \<and> do_aw_valid s2 \<and> do_aw_id s1 \<noteq> do_aw_id s2)"
  using assms by (simp add: dma_tick_def dma_start_def dma_idle_signals_def Let_def)

end
