(* ===== verification/Chipkit_Uart.thy ===== *)
theory Chipkit_Uart
  imports Runtime_Prelude
begin

text \<open>
  The serial port of the ChipKit simulations (include/sim/chipkit/state_machine.h and the baud rate selection of
  src/sim/chipkit/front_bus_ctrl_chipkit.cc).

  \<open>uart\<close> is the struct \<open>ChipkitControlIntf\<close>; \<open>uart_tick\<close> is its \<open>tick\<close>: the sender shifts the bytes of
  \<open>in_stream\<close> out on \<open>rxd\<close>, the receiver samples \<open>txd\<close> into \<open>out_stream\<close>. \<open>d\<close> is the global \<open>baud_div\<close>.
  The waveform of one byte is stated as the list of the values of \<open>rxd\<close> after each tick.
\<close>

section \<open>Model\<close>

unbundle bit_operations_syntax

definition baud_table :: "int list" where
  "baud_table = [1302, 217, 108, 54, 27, 22, 20, 19, 16, 15, 10, 8, 6, 5, 4, 2]"

text \<open>\<open>set_baud\<close> returns the new \<open>baud_sel\<close> and \<open>baud_div\<close>.\<close>

definition set_baud :: "u32 \<Rightarrow> (u32 \<times> int) res" where
  "set_baud baud_flag =
     (if baud_flag = 15 then Inl Assert_failed
      else rbind (nth_res baud_table (uint baud_flag)) (\<lambda>t. Inr (baud_flag, t * 4)))"

datatype uart_state_t = IDLE | START_BAUD | START | BITS | BITS_BAUD | STOP

record uart =
  rxd :: u8
  out_byte :: u8
  in_state :: uart_state_t
  out_state :: uart_state_t
  baud_count_in :: int
  baud_count_out :: int
  in_byte_progress :: nat
  out_byte_progress :: nat
  in_stream :: "u8 list"
  out_stream :: "u8 list"
  in_enable :: bool
  out_enable :: bool

definition uart_init :: "u8 \<Rightarrow> uart" where
  "uart_init r = \<lparr>rxd = r, out_byte = 0, in_state = IDLE, out_state = IDLE, baud_count_in = 0, baud_count_out = 0,
     in_byte_progress = 0, out_byte_progress = 0, in_stream = [], out_stream = [], in_enable = True, out_enable = False\<rparr>"

text \<open>\<open>set\<close> and \<open>set_u\<close>: one bit of the target becomes one bit of the source.\<close>

definition copy_bit :: "u8 \<Rightarrow> nat \<Rightarrow> u8 \<Rightarrow> nat \<Rightarrow> u8" where
  "copy_bit target target_idx src src_idx =
     (target AND NOT (push_bit target_idx 1)) OR push_bit target_idx (drop_bit src_idx (src AND push_bit src_idx 1))"

definition uart_send :: "int \<Rightarrow> uart \<Rightarrow> uart res" where
  "uart_send d s =
     (case in_state s of
        IDLE \<Rightarrow>
          if in_stream s \<noteq> [] \<and> in_enable s then
            Inr (s\<lparr>rxd := 0, in_byte_progress := 0, in_state := START, baud_count_in := baud_count_in s + 1\<rparr>)
          else Inr (s\<lparr>rxd := 1\<rparr>)
      | START_BAUD \<Rightarrow> Inr s
      | START \<Rightarrow>
          (let s = s\<lparr>baud_count_in := baud_count_in s + 1\<rparr>
           in if baud_count_in s = d then
                rbind (q_front (in_stream s)) (\<lambda>b.
                Inr (s\<lparr>rxd := copy_bit (rxd s) 0 b (in_byte_progress s), in_byte_progress := in_byte_progress s + 1,
                       baud_count_in := 0, in_state := BITS_BAUD\<rparr>))
              else Inr s)
      | BITS \<Rightarrow>
          rbind (q_front (in_stream s)) (\<lambda>b.
          (let s = s\<lparr>rxd := copy_bit (rxd s) 0 b (in_byte_progress s), in_byte_progress := in_byte_progress s + 1,
                     baud_count_in := 0\<rparr>
           in if d > 1 then Inr (s\<lparr>in_state := BITS_BAUD\<rparr>)
              else if in_byte_progress s = 8 then
                rbind (q_pop (in_stream s)) (\<lambda>q. Inr (s\<lparr>in_state := STOP, in_stream := q, baud_count_in := 0\<rparr>))
              else Inr (s\<lparr>in_state := BITS\<rparr>)))
      | BITS_BAUD \<Rightarrow>
          (let s = s\<lparr>baud_count_in := baud_count_in s + 1\<rparr>
           in if baud_count_in s = d then
                (let s = s\<lparr>baud_count_in := 0, in_state := BITS\<rparr>
                 in if in_byte_progress s = 8 then
                      rbind (q_pop (in_stream s)) (\<lambda>q. Inr (s\<lparr>in_state := STOP, in_stream := q, baud_count_in := 0\<rparr>))
                    else Inr s)
              else Inr s)
      | STOP \<Rightarrow>
          (let s = s\<lparr>rxd := 1, baud_count_in := baud_count_in s + 1\<rparr>
           in Inr (if baud_count_in s = 2 * d then s\<lparr>in_state := IDLE, baud_count_in := 0\<rparr> else s)))"

definition uart_receive :: "int \<Rightarrow> u8 \<Rightarrow> uart \<Rightarrow> uart" where
  "uart_receive d txd s =
     (case out_state s of
        IDLE \<Rightarrow>
          if txd = 0 \<and> out_enable s then
            (let s = s\<lparr>out_byte := 0\<rparr>
             in if d = 1 then s\<lparr>out_state := BITS, out_byte_progress := 0\<rparr>
                else s\<lparr>baud_count_out := 1, out_state := START_BAUD\<rparr>)
          else s
      | START_BAUD \<Rightarrow>
          (let s = s\<lparr>baud_count_out := baud_count_out s + 1\<rparr>
           in if baud_count_out s = d then s\<lparr>out_state := BITS, out_byte_progress := 0, baud_count_out := 0\<rparr> else s)
      | START \<Rightarrow> s
      | BITS \<Rightarrow>
          (let s = s\<lparr>out_byte := copy_bit (out_byte s) (out_byte_progress s) txd 0,
                     out_byte_progress := out_byte_progress s + 1\<rparr>
           in if d = 1 then
                (if out_byte_progress s = 8 then s\<lparr>baud_count_out := 0, out_state := STOP\<rparr> else s)
              else s\<lparr>baud_count_out := 1, out_state := BITS_BAUD\<rparr>)
      | BITS_BAUD \<Rightarrow>
          (let s = s\<lparr>baud_count_out := baud_count_out s + 1\<rparr>;
               s = (if baud_count_out s = d then
                      (if out_byte_progress s = 8 then s\<lparr>baud_count_out := 0, out_state := STOP\<rparr>
                       else s\<lparr>out_state := BITS\<rparr>)
                    else s)
           in s\<lparr>baud_count_out := 0\<rparr>)
      | STOP \<Rightarrow>
          (let s = s\<lparr>baud_count_out := baud_count_out s + 1\<rparr>
           in if baud_count_out s = 2 * d then
                s\<lparr>out_state := IDLE, out_stream := q_push (out_stream s) (out_byte s), out_byte := 0\<rparr>
              else s))"

definition uart_tick :: "int \<Rightarrow> u8 \<Rightarrow> uart \<Rightarrow> uart res" where
  "uart_tick d txd s = rbind (uart_send d s) (\<lambda>s. Inr (uart_receive d txd s))"

section \<open>The waveform\<close>

text \<open>A run over the values of \<open>txd\<close>, with the values of \<open>rxd\<close> it produces.\<close>

fun uart_run :: "int \<Rightarrow> u8 list \<Rightarrow> uart \<Rightarrow> (u8 list \<times> uart) res" where
  "uart_run d [] s = Inr ([], s)"
| "uart_run d (t # ts) s =
     rbind (uart_tick d t s) (\<lambda>s'.
     rbind (uart_run d ts s') (\<lambda>(w, s''). Inr (rxd s' # w, s'')))"

definition data_bit :: "u8 \<Rightarrow> nat \<Rightarrow> u8" where
  "data_bit b k = of_bool (bit b k)"

definition frame :: "nat \<Rightarrow> u8 \<Rightarrow> u8 list" where
  "frame d b = replicate (d - 1) 0 @ concat (map (\<lambda>k. replicate (Suc d) (data_bit b k)) [0..<8]) @ replicate (2 * d) 1"

subsection \<open>Runs with a known waveform\<close>

text \<open>From every state of \<open>P\<close>, whatever arrives on \<open>txd\<close>, the next ticks drive \<open>w\<close> and end in \<open>Q\<close>.\<close>

definition yields :: "int \<Rightarrow> (uart \<Rightarrow> bool) \<Rightarrow> u8 list \<Rightarrow> (uart \<Rightarrow> bool) \<Rightarrow> bool" where
  "yields d P w Q \<longleftrightarrow> (\<forall>s ts. P s \<longrightarrow> length ts = length w \<longrightarrow> (\<exists>s'. uart_run d ts s = Inr (w, s') \<and> Q s'))"

lemma yields_Nil: "(\<And>s. P s \<Longrightarrow> Q s) \<Longrightarrow> yields d P [] Q"
  by (simp add: yields_def)

lemma uart_run_append:
  "uart_run d (ts @ us) s =
     rbind (uart_run d ts s) (\<lambda>(w, s'). rbind (uart_run d us s') (\<lambda>(w', s''). Inr (w @ w', s'')))"
proof (induction ts arbitrary: s)
  case Nil
  then show ?case by (cases "uart_run d us s") auto
next
  case (Cons t ts)
  show ?case
  proof (cases "uart_tick d t s")
    case (Inr s')
    show ?thesis
      by (cases "uart_run d ts s'") (auto simp: Inr Cons rbind_assoc split_def)
  qed simp
qed

lemma yields_append:
  assumes "yields d P v Q" and "yields d Q w R"
  shows "yields d P (v @ w) R"
  unfolding yields_def
proof (intro allI impI)
  fix s and ts :: "u8 list"
  assume P: "P s" and len: "length ts = length (v @ w)"
  define xs ys where "xs = take (length v) ts" and "ys = drop (length v) ts"
  with len have ts: "ts = xs @ ys" "length xs = length v" "length ys = length w" by simp_all
  from assms(1) P ts(2) obtain s1 where r1: "uart_run d xs s = Inr (v, s1)" "Q s1" unfolding yields_def by blast
  from assms(2) r1(2) ts(3) obtain s2 where r2: "uart_run d ys s1 = Inr (w, s2)" "R s2" unfolding yields_def by blast
  show "\<exists>s'. uart_run d ts s = Inr (v @ w, s') \<and> R s'"
    using r1 r2 by (simp add: ts(1) uart_run_append)
qed

lemma receive_fields [simp]:
  "rxd (uart_receive d t s) = rxd s" "in_state (uart_receive d t s) = in_state s"
  "baud_count_in (uart_receive d t s) = baud_count_in s" "in_byte_progress (uart_receive d t s) = in_byte_progress s"
  "in_stream (uart_receive d t s) = in_stream s" "in_enable (uart_receive d t s) = in_enable s"
  "out_enable (uart_receive d t s) = out_enable s"
  by (simp_all add: uart_receive_def Let_def split: uart_state_t.split)

lemma yields_tick:
  assumes "\<And>s t. P s \<Longrightarrow> \<exists>s'. uart_send d s = Inr s' \<and> rxd s' = r \<and> Q (uart_receive d t s')"
  shows "yields d P [r] Q"
  unfolding yields_def
proof (intro allI impI)
  fix s :: uart and ts :: "u8 list"
  assume P: "P s" and "length ts = length [r]"
  then obtain t where ts: "ts = [t]" by (auto simp: length_Suc_conv)
  from assms [OF P, of t] obtain s' where "uart_send d s = Inr s'" "rxd s' = r" "Q (uart_receive d t s')" by blast
  then show "\<exists>s'. uart_run d ts s = Inr ([r], s') \<and> Q s'" by (simp add: ts uart_tick_def)
qed

lemma yields_hold:
  assumes "\<And>i. i < n \<Longrightarrow> yields d (P i) [r] (P (Suc i))"
  shows "yields d (P 0) (replicate n r) (P n)"
  using assms
proof (induction n)
  case 0
  then show ?case by (simp add: yields_Nil)
next
  case (Suc n)
  then have "yields d (P 0) (replicate n r) (P n)" and "yields d (P n) [r] (P (Suc n))" by simp_all
  from yields_append [OF this] show ?case by (simp add: replicate_append_same)
qed

subsection \<open>The states of the sender\<close>

definition sender :: "uart_state_t \<Rightarrow> int \<Rightarrow> nat \<Rightarrow> u8 list \<Rightarrow> u8 \<Rightarrow> uart \<Rightarrow> bool" where
  "sender st c p q r s \<longleftrightarrow> in_state s = st \<and> baud_count_in s = c \<and> in_byte_progress s = p \<and> in_stream s = q
     \<and> in_enable s \<and> rxd s = r"

definition idle :: "u8 list \<Rightarrow> uart \<Rightarrow> bool" where
  "idle q s \<longleftrightarrow> in_state s = IDLE \<and> baud_count_in s = 0 \<and> in_stream s = q \<and> in_enable s"

lemma copy_bit_0: "r = 0 \<or> r = 1 \<Longrightarrow> copy_bit r 0 b k = data_bit b k"
proof -
  assume "r = 0 \<or> r = 1"
  then have r: "r AND NOT 1 = 0" by auto
  have "drop_bit k (b AND push_bit k 1) = (of_bool (bit b k) :: u8)"
  proof (rule bit_word_eqI)
    fix n assume "n < LENGTH(8)"
    show "bit (drop_bit k (b AND push_bit k 1)) n = bit (of_bool (bit b k) :: u8) n"
      by (auto simp: bit_simps dest: bit_imp_le_length)
  qed
  with r show ?thesis by (simp add: copy_bit_def data_bit_def)
qed

lemma data_bit_01 [simp]: "data_bit b k = 0 \<or> data_bit b k = 1"
  by (simp add: data_bit_def)

lemmas send_defs = uart_send_def sender_def idle_def Let_def

lemma start_bit:
  assumes "2 \<le> d"
  shows "yields (int d) (idle (b # q)) (replicate (d - 1) 0) (sender START (int d - 1) 0 (b # q) 0)"
proof -
  obtain e where e: "d = Suc (Suc e)" using assms by (metis add_2_eq_Suc le_Suc_ex)
  have 1: "yields (int d) (idle (b # q)) [0] (sender START 1 0 (b # q) 0)"
    by (rule yields_tick) (simp add: send_defs)
  let ?P = "\<lambda>i. sender START (int i + 1) 0 (b # q) 0"
  have "yields (int d) (?P i) [0] (?P (Suc i))" if "i < e" for i
    using that by (intro yields_tick) (simp add: send_defs e)
  from yields_hold [of e "int d" ?P, OF this]
  have 2: "yields (int d) (sender START 1 0 (b # q) 0) (replicate e 0) (?P e)" by simp
  show ?thesis using yields_append [OF 1 2] by (simp add: e add.commute)
qed

lemma hold_bit:
  assumes "2 \<le> d" and "p \<le> 8"
  shows "yields (int d) (sender BITS_BAUD 0 p (b # q) r) (replicate d r)
    (if p = 8 then sender STOP 0 8 q r else sender BITS 0 p (b # q) r)"
proof -
  let ?P = "\<lambda>i. sender BITS_BAUD (int i) p (b # q) r"
  obtain e where e: "d = Suc e" using assms by (cases d) simp_all
  have "yields (int d) (?P i) [r] (?P (Suc i))" if "i < e" for i
    using that by (intro yields_tick) (simp add: send_defs e)
  from yields_hold [of e "int d" ?P, OF this]
  have 1: "yields (int d) (?P 0) (replicate e r) (?P e)" by simp
  have 2: "yields (int d) (?P e) [r] (if p = 8 then sender STOP 0 8 q r else sender BITS 0 p (b # q) r)"
    by (rule yields_tick) (simp add: send_defs e)
  show ?thesis using yields_append [OF 1 2] by (simp add: e replicate_append_same)
qed

text \<open>The state in which the next tick drives bit \<open>k\<close>.\<close>

definition before_bit :: "nat \<Rightarrow> u8 \<Rightarrow> u8 list \<Rightarrow> nat \<Rightarrow> uart \<Rightarrow> bool" where
  "before_bit d b q k =
     (if k = 0 then sender START (int d - 1) 0 (b # q) 0
      else if k = 8 then sender STOP 0 8 q (data_bit b 7)
      else sender BITS 0 k (b # q) (data_bit b (k - 1)))"

lemma one_bit:
  assumes "2 \<le> d" and "k < 8"
  shows "yields (int d) (before_bit d b q k) (replicate (Suc d) (data_bit b k)) (before_bit d b q (Suc k))"
proof -
  have 1: "yields (int d) (before_bit d b q k) [data_bit b k] (sender BITS_BAUD 0 (Suc k) (b # q) (data_bit b k))"
    using assms by (intro yields_tick) (auto simp: send_defs before_bit_def copy_bit_0 split: if_splits)
  have "(if Suc k = 8 then sender STOP 0 8 q (data_bit b k) else sender BITS 0 (Suc k) (b # q) (data_bit b k))
      = before_bit d b q (Suc k)"
    using assms(2) by (auto simp: before_bit_def)
  with yields_append [OF 1 hold_bit [OF assms(1), of "Suc k" b q "data_bit b k"]] assms(2)
  show ?thesis by simp
qed

lemma data_bits:
  assumes "2 \<le> d" and "k \<le> 8"
  shows "yields (int d) (before_bit d b q 0) (concat (map (\<lambda>j. replicate (Suc d) (data_bit b j)) [0..<k])) (before_bit d b q k)"
  using assms(2)
proof (induction k)
  case 0
  then show ?case by (simp add: yields_Nil)
next
  case (Suc k)
  then show ?case using yields_append [OF _ one_bit [OF assms(1), of k b q]] by simp
qed

lemma stop_bits:
  assumes "2 \<le> d"
  shows "yields (int d) (sender STOP 0 8 q r) (replicate (2 * d) 1) (idle q)"
proof -
  obtain e where e: "2 * d = Suc (Suc e)" using assms by (metis add_2_eq_Suc le_Suc_ex mult_le_mono2 mult_2 nat_1_add_1 numeral_2_eq_2 trans_le_add1)
  have e': "int d * 2 = int e + 2" using e by linarith
  have 1: "yields (int d) (sender STOP 0 8 q r) [1] (sender STOP 1 8 q 1)"
    using assms by (intro yields_tick) (simp add: send_defs)
  let ?P = "\<lambda>i. sender STOP (int i + 1) 8 q 1"
  have "yields (int d) (?P i) [1] (?P (Suc i))" if "i < e" for i
    using that e' by (intro yields_tick) (simp add: send_defs)
  from yields_hold [of e "int d" ?P, OF this]
  have 2: "yields (int d) (sender STOP 1 8 q 1) (replicate e 1) (?P e)" by simp
  have 3: "yields (int d) (?P e) [1] (idle q)"
    using e' by (intro yields_tick) (simp add: send_defs)
  show ?thesis using yields_append [OF yields_append [OF 1 2] 3] by (simp add: e replicate_append_same)
qed

lemma send_frame:
  assumes "2 \<le> d"
  shows "yields (int d) (idle (b # q)) (frame d b) (idle q)"
proof -
  have "before_bit d b q 0 = sender START (int d - 1) 0 (b # q) 0" and "before_bit d b q 8 = sender STOP 0 8 q (data_bit b 7)"
    by (simp_all add: before_bit_def)
  then show ?thesis
    using yields_append [OF yields_append [OF start_bit [OF assms, of b q]] stop_bits [OF assms]]
      data_bits [OF assms, of 8 b q] unfolding frame_def by (metis append.assoc order_refl)
qed

lemma send_stream:
  assumes "2 \<le> d"
  shows "yields (int d) (idle (bs @ q)) (concat (map (frame d) bs)) (idle q)"
proof (induction bs)
  case Nil
  then show ?case by (simp add: yields_Nil)
next
  case (Cons b bs)
  from yields_append [OF send_frame [OF assms] this] show ?case by simp
qed

section \<open>Properties\<close>

text \<open>C26: the sender puts the bytes of \<open>in_stream\<close> on the line one frame after the other, in order and without loss,
  whatever arrives on the other line: per byte a start bit of \<open>baud_div - 1\<close> ticks, eight data bits, least
  significant first, of \<open>baud_div + 1\<close> ticks each, and \<open>2 * baud_div\<close> ticks of stop. After the last frame the
  queue is empty and the sender idle, so the loading loop, which waits for the empty queue, ends.\<close>

theorem uart_sends_frames:
  assumes "2 \<le> d" and "in_state s = IDLE" and "baud_count_in s = 0" and "in_enable s"
    and "length ts = length (in_stream s) * (11 * d + 7)"
  shows "\<exists>s'. uart_run (int d) ts s = Inr (concat (map (frame d) (in_stream s)), s')
    \<and> in_stream s' = [] \<and> in_state s' = IDLE"
proof -
  have f: "length (frame d b) = 11 * d + 7" for b
    using assms(1) by (simp add: frame_def length_concat comp_def sum_list_triv)
  have "length ts = length (concat (map (frame d) (in_stream s)))"
    using assms(5) by (simp add: length_concat comp_def f sum_list_triv)
  moreover have "idle (in_stream s @ []) s" using assms(2-4) by (simp add: idle_def)
  ultimately show ?thesis
    using send_stream [OF assms(1), of "in_stream s" "[]"] unfolding yields_def idle_def by auto
qed

theorem uart_sends_frames_witness:
  "\<exists>s'. uart_run 16 (replicate 366 1) (uart_init 1\<lparr>in_stream := [0x41, 0x0A]\<rparr>) = Inr (frame 16 0x41 @ frame 16 0x0A, s')
    \<and> in_stream s' = [] \<and> in_state s' = IDLE"
  using uart_sends_frames [of 16 "uart_init 1\<lparr>in_stream := [0x41, 0x0A]\<rparr>" "replicate 366 1"]
  by (simp add: uart_init_def)

lemma nth_concat_blocks:
  "k < n \<Longrightarrow> i < m \<Longrightarrow> concat (map (\<lambda>k. replicate m (f k)) [0..<n]) ! (k * m + i) = f k"
proof (induction n)
  case 0
  then show ?case by simp
next
  case (Suc n)
  have l: "length (concat (map (\<lambda>k. replicate m (f k)) [0..<n])) = n * m"
    by (simp add: length_concat comp_def sum_list_triv)
  show ?case
  proof (cases "k < n")
    case True
    then have "k * m + i < n * m"
      using Suc.prems(2) by (metis add_mult_distrib2 add.commute less_le_trans add_less_cancel_right mult.commute mult_Suc mult_le_mono1 Suc_leI)
    then show ?thesis using Suc True l by (simp add: nth_append)
  next
    case False
    then have "k = n" using Suc.prems(1) by simp
    then show ?thesis using l Suc.prems(2) by (simp add: nth_append)
  qed
qed

lemma frame_data:
  assumes "k < 8" and "i < Suc d"
  shows "frame d b ! (d - 1 + (k * Suc d + i)) = data_bit b k"
proof -
  let ?c = "concat (map (\<lambda>k. replicate (Suc d) (data_bit b k)) [0..<8])"
  have l: "length ?c = 8 * Suc d" by (simp add: length_concat comp_def sum_list_triv)
  have "k * Suc d + i < 8 * Suc d"
  proof -
    have "k * Suc d + i < k * Suc d + Suc d" using assms(2) by simp
    also have "\<dots> = Suc k * Suc d" by simp
    also have "\<dots> \<le> 8 * Suc d" using assms(1) by (intro mult_le_mono1) simp
    finally show ?thesis .
  qed
  then show ?thesis
    using nth_concat_blocks [OF assms, of "data_bit b"] l unfolding frame_def
    by (simp add: nth_append del: mult_Suc_right)
qed

lemma frame_stop:
  assumes "9 * d + 7 \<le> j" and "j < 11 * d + 7" and "1 \<le> d"
  shows "frame d b ! j = 1"
proof -
  let ?c = "concat (map (\<lambda>k. replicate (Suc d) (data_bit b k)) [0..<8])"
  have l: "length ?c = 8 * Suc d" by (simp add: length_concat comp_def sum_list_triv)
  have j: "\<not> j < d - 1" "\<not> j - (d - 1) < 8 * Suc d" "j - (d - 1) - 8 * Suc d < 2 * d" using assms by simp_all
  show ?thesis unfolding frame_def nth_append length_replicate l using j by (simp only: if_False nth_replicate)
qed

lemma baud_table_length: "length baud_table = 16"
  by (simp add: baud_table_def)

lemma baud_table_ge:
  assumes "i < 15"
  shows "4 \<le> baud_table ! i"
proof -
  have "list_all (\<lambda>x. 4 \<le> x) (take 15 baud_table)" by code_simp
  then show ?thesis using assms by (simp add: list_all_length baud_table_length)
qed

lemma set_baud_Inr:
  assumes "set_baud f = Inr (sel, dv)"
  shows "16 \<le> dv"
proof -
  from assms have "f \<noteq> 15" by (auto simp: set_baud_def)
  with assms have r: "rbind (nth_res baud_table (uint f)) (\<lambda>t. Inr (f, t * 4)) = Inr (sel, dv)" by (simp add: set_baud_def)
  then have u: "uint f < 16" and dv: "dv = baud_table ! nat (uint f) * 4"
    by (auto simp: rbind_eq_Inr nth_res_Inr baud_table_length)
  have "uint f \<noteq> 15"
  proof
    assume "uint f = 15"
    then have "f = word_of_int 15" by (metis word_of_int_uint)
    with \<open>f \<noteq> 15\<close> show False by simp
  qed
  with u have "nat (uint f) < 15" by linarith
  from baud_table_ge [OF this] dv show ?thesis by simp
qed

text \<open>C39: at every baud rate that can be selected, a receiver that samples the line in the middle of each bit of the
  nominal length \<open>baud_div\<close> reads the start bit, the eight data bits and the stop bit of a frame. The selection
  15, which \<open>set_baud\<close> rejects, has a divisor of 8: there the surplus tick of each data bit adds up until the last
  sample reads bit 6 in place of bit 7.\<close>

theorem uart_sampling:
  assumes "set_baud f = Inr (sel, int d)"
  shows "frame d b ! (d div 2) = 0
    \<and> (\<forall>k<8. frame d b ! (Suc k * d + d div 2) = data_bit b k)
    \<and> frame d b ! (9 * d + d div 2) = 1
    \<and> frame 8 b ! (Suc 7 * 8 + 8 div 2) = data_bit b 6"
proof (intro conjI allI impI)
  have d: "16 \<le> d" using set_baud_Inr [OF assms] by simp
  show "frame d b ! (d div 2) = 0"
    using d by (simp add: frame_def nth_append)
  show "frame d b ! (9 * d + d div 2) = 1"
    by (rule frame_stop) (use d in auto)
  show "frame 8 b ! (Suc 7 * 8 + 8 div 2) = data_bit b 6"
    using frame_data [of 6 7 8 b] by simp
  fix k :: nat
  assume k: "k < 8"
  have "Suc k * d + d div 2 = d - 1 + (k * Suc d + (d div 2 + 1 - k))"
    using d k by simp
  moreover have "d div 2 + 1 - k < Suc d" using d by auto
  ultimately show "frame d b ! (Suc k * d + d div 2) = data_bit b k"
    using frame_data [OF k, of "d div 2 + 1 - k" d b] by metis
qed

theorem uart_sampling_witness:
  "set_baud 14 = Inr (14, int 16) \<and> frame 16 0x95 ! (Suc 7 * 16 + 16 div 2) = 1"
proof -
  have s: "set_baud 14 = Inr (14, int 16)" by code_simp
  have "data_bit 0x95 7 = 1" by code_simp
  moreover have "frame 16 0x95 ! (Suc 7 * 16 + 16 div 2) = data_bit 0x95 7"
    using uart_sampling [OF s, of "0x95", THEN conjunct2, THEN conjunct1, rule_format, of 7] by simp
  ultimately show ?thesis using s by metis
qed

subsection \<open>The receiver\<close>

text \<open>The receiver is stuck in \<open>BITS_BAUD\<close> with a count below the divisor, or has not got there yet; no byte is complete.\<close>

definition receiver_stuck :: "uart \<Rightarrow> bool" where
  "receiver_stuck s \<longleftrightarrow> out_state s \<in> {IDLE, START_BAUD, BITS} \<or> (out_state s = BITS_BAUD \<and> baud_count_out s \<le> 1)"

lemma send_receiver_fields:
  "uart_send d s = Inr s' \<Longrightarrow> out_state s' = out_state s \<and> baud_count_out s' = baud_count_out s \<and> out_stream s' = out_stream s"
  by (auto simp: uart_send_def Let_def res_simps split: uart_state_t.splits if_splits)

lemma receive_stuck:
  assumes "3 \<le> d" and "receiver_stuck s"
  shows "receiver_stuck (uart_receive d t s) \<and> out_stream (uart_receive d t s) = out_stream s"
  using assms by (auto simp: receiver_stuck_def uart_receive_def Let_def split: uart_state_t.split)

lemma tick_stuck:
  assumes "3 \<le> d" and "receiver_stuck s" and "uart_tick d t s = Inr s'"
  shows "receiver_stuck s' \<and> out_stream s' = out_stream s \<and> (out_state s = BITS_BAUD \<longrightarrow> out_state s' = BITS_BAUD)"
proof -
  from assms(3) obtain s1 where s1: "uart_send d s = Inr s1" "s' = uart_receive d t s1"
    by (auto simp: uart_tick_def res_simps)
  note f = send_receiver_fields [OF s1(1)]
  then have "receiver_stuck s1" using assms(2) by (simp add: receiver_stuck_def)
  moreover from this have "out_state s1 = BITS_BAUD \<longrightarrow> out_state s' = BITS_BAUD"
    using assms(1) by (auto simp: s1(2) uart_receive_def Let_def receiver_stuck_def)
  ultimately show ?thesis using receive_stuck [OF assms(1), of s1 t] f by (simp add: s1(2))
qed

lemma run_stuck:
  assumes "3 \<le> d" and "receiver_stuck s" and "uart_run d ts s = Inr (w, s')"
  shows "receiver_stuck s' \<and> out_stream s' = out_stream s \<and> (out_state s = BITS_BAUD \<longrightarrow> out_state s' = BITS_BAUD)"
  using assms(2,3)
proof (induction ts arbitrary: s w)
  case Nil
  then show ?case by simp
next
  case (Cons t ts)
  then obtain s1 w1 where r: "uart_tick d t s = Inr s1" "uart_run d ts s1 = Inr (w1, s')" by (auto simp: res_simps)
  note s1 = tick_stuck [OF assms(1) Cons.prems(1) r(1)]
  from Cons.IH [OF _ r(2)] s1 show ?case by simp
qed

text \<open>C40: with every divisor above 2, so at every baud rate that can be selected, no byte is ever received: whatever
  arrives on \<open>txd\<close>, the receiver that waits for its second data bit (\<open>BITS_BAUD\<close>) stays there for good, because
  the count is cleared in every tick of that state.\<close>

theorem uart_receives_nothing:
  assumes "set_baud f = Inr (sel, d)" and "out_state s = IDLE" and "uart_run d ts s = Inr (w, s')"
  shows "out_stream s' = out_stream s
    \<and> (\<forall>us v s''. out_state s' = BITS_BAUD \<and> uart_run d us s' = Inr (v, s'') \<longrightarrow> out_state s'' = BITS_BAUD)"
proof -
  have d: "3 \<le> d" using set_baud_Inr [OF assms(1)] by simp
  have s: "receiver_stuck s" using assms(2) by (simp add: receiver_stuck_def)
  note r = run_stuck [OF d s assms(3)]
  then show ?thesis using run_stuck [OF d] by blast
qed

text \<open>The start bit of a byte and its first data bit.\<close>

definition demo_line :: "u8 list" where
  "demo_line = replicate 16 0 @ replicate 8 1"

theorem uart_receives_nothing_witness:
  "case uart_run 16 demo_line (uart_init 1\<lparr>out_enable := True\<rparr>) of
      Inl e \<Rightarrow> False
    | Inr (w, s') \<Rightarrow> out_stream s' = [] \<and> out_state s' = BITS_BAUD \<and> out_byte_progress s' = 1"
proof -
  have s: "set_baud 14 = Inr (14, 16)" by code_simp
  have c: "case uart_run 16 demo_line (uart_init 1\<lparr>out_enable := True\<rparr>) of
      Inl e \<Rightarrow> False | Inr (w, s') \<Rightarrow> out_state s' = BITS_BAUD \<and> out_byte_progress s' = 1" by code_simp
  show ?thesis
  proof (cases "uart_run 16 demo_line (uart_init 1\<lparr>out_enable := True\<rparr>)")
    case (Inl e)
    with c show ?thesis by simp
  next
    case (Inr p)
    obtain w s' where p: "p = (w, s')" by (cases p)
    have "out_stream s' = []"
      using uart_receives_nothing [OF s, of "uart_init 1\<lparr>out_enable := True\<rparr>" demo_line w s'] Inr p
      by (simp add: uart_init_def)
    with c Inr p show ?thesis by simp
  qed
qed

end
