(* ===== verification/Chipkit_Loader.thy ===== *)
theory Chipkit_Loader
  imports Chipkit_Uart
begin

text \<open>
  Loading a program into a ChipKit simulation: the reader of memory files (src/sim/chipkit/util.cc), the loop that
  shifts the resulting bytes out over the serial port (src/sim/chipkit/verilator_chipkit_frontend.cc), the per-tick
  driver of the VCS build (include/sim/chipkit/tick.h) and the growing memory array of the frontend.

  A file is the list of its characters; \<open>getc\<close>, \<open>ungetc\<close>, \<open>fscanf\<close> with \<open>%s\<close> and \<open>strtol\<close> with base 16 are
  written out as far as the reader uses them, with a signed \<open>char\<close> (the byte 0xFF reads as \<open>EOF\<close>).
\<close>

section \<open>Model\<close>

subsection \<open>Reading a memory file\<close>

definition isspace :: "char \<Rightarrow> bool" where
  "isspace c \<longleftrightarrow> c \<in> {CHR '' '', CHR 0x09, CHR 0x0A, CHR 0x0B, CHR 0x0C, CHR 0x0D}"

definition EOF_char :: char where
  "EOF_char = CHR 0xFF"

text \<open>\<open>fscanf(f, "%s", buf)\<close>: the token, if there is one, and the rest of the file.\<close>

definition scan_token :: "string \<Rightarrow> string option \<times> string" where
  "scan_token f =
     (let r = dropWhile isspace f
      in if r = [] then (None, []) else (Some (takeWhile (\<lambda>c. \<not> isspace c) r), dropWhile (\<lambda>c. \<not> isspace c) r))"

fun hex_digit :: "char \<Rightarrow> nat option" where
  "hex_digit c =
     (let n = of_char c :: nat
      in if 48 \<le> n \<and> n \<le> 57 then Some (n - 48)
         else if 97 \<le> n \<and> n \<le> 102 then Some (n - 87)
         else if 65 \<le> n \<and> n \<le> 70 then Some (n - 55)
         else None)"

declare hex_digit.simps [simp del]

fun hex_value :: "nat \<Rightarrow> string \<Rightarrow> nat" where
  "hex_value acc [] = acc"
| "hex_value acc (c # cs) = (case hex_digit c of None \<Rightarrow> acc | Some d \<Rightarrow> hex_value (16 * acc + d) cs)"

fun hex_prefix :: "string \<Rightarrow> string" where
  "hex_prefix (a # b # c # cs) =
     (if a = CHR ''0'' \<and> (b = CHR ''x'' \<or> b = CHR ''X'') \<and> hex_digit c \<noteq> None then c # cs else a # b # c # cs)"
| "hex_prefix cs = cs"

text \<open>\<open>strtol(buf, nullptr, 16)\<close> with a 64-bit \<open>long\<close>: sign, optional \<open>0x\<close>, digits, saturation.\<close>

definition strtol16 :: "string \<Rightarrow> int" where
  "strtol16 s =
     (let s = dropWhile isspace s;
          (neg, s) = (case s of
              [] \<Rightarrow> (False, s)
            | c # r \<Rightarrow> if c = CHR ''-'' then (True, r) else if c = CHR ''+'' then (False, r) else (False, s));
          v = int (hex_value 0 (hex_prefix s))
      in if neg then max (- v) (- (2 ^ 63)) else min v (2 ^ 63 - 1))"

text \<open>The state of the reader: \<open>addr\<close>, the first \<open>inst_idx\<close> bytes of \<open>inst_buf\<close>, the token buffer (\<open>None\<close> while it
  is uninitialised) and the queue.\<close>

record loader =
  ld_addr :: u32
  ld_inst :: "u8 list"
  ld_buf :: "string option"
  ld_vec :: "u8 list"

definition push_val32 :: "u32 \<Rightarrow> u8 list \<Rightarrow> u8 list" where
  "push_val32 v vec = vec @ map (\<lambda>i. ucast (drop_bit (8 * i) v)) [0..<4]"

definition push_val :: "u8 list \<Rightarrow> u8 list \<Rightarrow> u8 list" where
  "push_val buf vec = vec @ take 4 buf"

text \<open>\<open>fscanf\<close> into the 256 bytes of \<open>buf\<close>, which a longer token overruns.\<close>

definition scan_buf :: "string \<Rightarrow> loader \<Rightarrow> (string \<times> string \<times> loader) res" where
  "scan_buf f s =
     (case scan_token f of
        (Some t, r) \<Rightarrow> if 256 \<le> length t then Inl Out_of_range else Inr (t, r, s\<lparr>ld_buf := Some t\<rparr>)
      | (None, r) \<Rightarrow> (case ld_buf s of None \<Rightarrow> Inl No_value | Some b \<Rightarrow> Inr (b, r, s)))"

definition store_byte :: "u8 \<Rightarrow> loader \<Rightarrow> loader" where
  "store_byte b s =
     (let s = s\<lparr>ld_inst := ld_inst s @ [b]\<rparr>
      in if length (ld_inst s) = 4 then
           s\<lparr>ld_vec := push_val (ld_inst s) (push_val32 (ld_addr s) (ld_vec s @ [0x77])) @ [0x0A],
             ld_inst := [], ld_addr := ld_addr s + 4\<rparr>
         else s)"

lemma length_dropWhile_less: "length (dropWhile P xs) < Suc (length xs)"
  by (simp add: length_dropWhile_le less_Suc_eq_le)

lemma scan_token_length: "length (snd (scan_token f)) \<le> length f"
  by (simp add: scan_token_def Let_def) (meson length_dropWhile_le order_trans)

lemma scan_buf_length: "scan_buf f s = Inr (t, r, s') \<Longrightarrow> length r \<le> length f"
  using scan_token_length [of f]
  by (auto simp: scan_buf_def split: prod.splits option.splits if_splits)

lemma scan_buf_shrinks:
  assumes "scan_buf (c # f) s = Inr (t, r, s')" and "\<not> isspace c"
  shows "length r < length (c # f)"
  using assms length_dropWhile_le [of "\<lambda>c. \<not> isspace c" f]
  by (auto simp: scan_buf_def scan_token_def split: option.splits if_splits)

text \<open>One turn of the reading loop per character at hand: white space is skipped, \<open>@\<close> is consumed and sets the address,
  anything else is put back and starts a byte. (\<open>q == '@'\<close> cannot hold, since \<open>q\<close> is the character that was put back.)\<close>

function read_loop :: "string \<Rightarrow> loader \<Rightarrow> loader res" where
  "read_loop f s =
     (case dropWhile isspace f of
        [] \<Rightarrow> Inr s
      | c # r \<Rightarrow>
          if c = EOF_char then Inr s
          else if c = CHR ''@'' then
            (case scan_buf r s of
               Inl e \<Rightarrow> Inl e
             | Inr (t, r', s') \<Rightarrow> read_loop r' (s'\<lparr>ld_addr := of_int (strtol16 t)\<rparr>))
          else
            (case scan_buf (c # r) s of
               Inl e \<Rightarrow> Inl e
             | Inr (t, r', s') \<Rightarrow> read_loop r' (store_byte (of_int (strtol16 t)) s')))"
  by pat_completeness auto

lemma dropWhile_Cons_head: "dropWhile P xs = c # r \<Longrightarrow> \<not> P c \<and> length r < length xs"
  using hd_dropWhile [of P xs] length_dropWhile_le [of P xs] by auto

lemma read_loop_decreases:
  assumes "dropWhile isspace f = c # r"
  shows "scan_buf r s = Inr (t, r', s') \<Longrightarrow> length r' < length f"
    and "scan_buf (c # r) s = Inr (t, r', s') \<Longrightarrow> length r' < length f"
  using dropWhile_Cons_head [OF assms] scan_buf_length [of r s t r' s'] scan_buf_shrinks [of c r s t r' s'] by auto

termination read_loop
  by (relation "measure (\<lambda>(f, s). length f)") (auto dest: read_loop_decreases)

declare read_loop.simps [simp del]

text \<open>\<open>fopen\<close> fails with a null pointer, which \<open>getc\<close> then dereferences. The byte count is checked at the end.\<close>

definition readMemFile2ChipkitDMA :: "u8 list \<Rightarrow> string option \<Rightarrow> u8 list res" where
  "readMemFile2ChipkitDMA vec file =
     (case file of
        None \<Rightarrow> Inl Null_pointer
      | Some f \<Rightarrow>
          rbind (read_loop f \<lparr>ld_addr = 0, ld_inst = [], ld_buf = None, ld_vec = vec\<rparr>) (\<lambda>s.
          if ld_inst s \<noteq> [] then Inl Assert_failed else Inr (ld_vec s)))"

subsection \<open>Sending it\<close>

text \<open>\<open>while (!in_stream.empty() || CHIP_UART_M_RXD == 0)\<close>: one clock cycle of the chip, of which only the level of its
  \<open>txd\<close> matters here, and one tick of the serial port. The first argument bounds the number of ticks.\<close>

fun load_loop :: "int \<Rightarrow> u8 list \<Rightarrow> uart \<Rightarrow> uart res" where
  "load_loop d [] s = (if in_stream s \<noteq> [] \<or> rxd s = 0 then Inl Diverges else Inr s)"
| "load_loop d (t # ts) s =
     (if in_stream s \<noteq> [] \<or> rxd s = 0 then rbind (uart_tick d t s) (load_loop d ts) else Inr s)"

definition load_file :: "int \<Rightarrow> u8 list \<Rightarrow> string option \<Rightarrow> uart \<Rightarrow> uart res" where
  "load_file d ts file s =
     rbind (readMemFile2ChipkitDMA (in_stream s) file) (\<lambda>q. load_loop d ts (s\<lparr>in_stream := q\<rparr>))"

subsection \<open>The driver of the VCS build\<close>

text \<open>The globals of tick.h with the signals \<open>chip_aspsel\<close> and \<open>reset\<close>. \<open>tick_chip\<close> takes the two serial ports by value: what
  the copies do reaches the caller only through the signal \<open>rxd\<close>. \<open>rest\<close> stands for the part of \<open>tick_signals\<close>
  after \<open>ctrl->tick()\<close>.\<close>

record chip_globals =
  has_moved_memory :: bool
  has_moved_program :: bool
  has_reset :: bool
  static_steps :: int
  chip_aspsel :: bool
  chip_reset :: bool

text \<open>The files are put into the queue, one per call.\<close>

definition chip_fill ::
  "(string \<Rightarrow> string option) \<Rightarrow> string option \<Rightarrow> string option \<Rightarrow> uart \<Rightarrow> chip_globals \<Rightarrow> (uart \<times> chip_globals) res" where
  "chip_fill fs dma_file trace_file cf g =
     (if dma_file \<noteq> None \<and> \<not> has_moved_memory g then
        rbind (readMemFile2ChipkitDMA (in_stream cf) (fs (the dma_file))) (\<lambda>q.
        Inr (cf\<lparr>in_stream := q\<rparr>, g\<lparr>chip_aspsel := False, has_moved_memory := True\<rparr>))
      else if in_stream cf = [] \<and> \<not> has_moved_program g then
        (case trace_file of
           None \<Rightarrow> Inl Null_pointer
         | Some n \<Rightarrow>
             rbind (readMemFile2ChipkitDMA (in_stream cf) (fs n)) (\<lambda>q.
             Inr (cf\<lparr>in_stream := q\<rparr>, g\<lparr>chip_aspsel := True, has_moved_program := True\<rparr>)))
      else Inr (cf, g))"

definition chip_reset_step :: "bool \<Rightarrow> uart \<Rightarrow> chip_globals \<Rightarrow> chip_globals" where
  "chip_reset_step active_reset cf g =
     (if has_moved_memory g \<and> \<not> has_reset g \<and> rxd cf = 1 then
        (let g = g\<lparr>static_steps := static_steps g + 1\<rparr>
         in if static_steps g = 20 then g\<lparr>chip_reset := active_reset, has_reset := True\<rparr> else g)
      else g\<lparr>chip_reset := \<not> active_reset\<rparr>)"

definition tick_chip ::
  "(string \<Rightarrow> string option) \<Rightarrow> ('m \<Rightarrow> 'm res) \<Rightarrow> bool \<Rightarrow> int \<Rightarrow> string option \<Rightarrow> string option \<Rightarrow> u8 \<Rightarrow> u8
     \<Rightarrow> uart \<Rightarrow> uart \<Rightarrow> chip_globals \<Rightarrow> 'm \<Rightarrow> (uart \<times> uart \<times> chip_globals \<times> 'm) res" where
  "tick_chip fs rest active_reset d dma_file trace_file std_txd chip_txd stdfront chipfront g m =
     rbind (chip_fill fs dma_file trace_file chipfront g) (\<lambda>(cf, g).
     (let g = chip_reset_step active_reset cf g
      in rbind (uart_tick d chip_txd cf) (\<lambda>cf.
         rbind (if has_reset g then
                  rbind (uart_tick d std_txd stdfront) (\<lambda>sf. rbind (rest m) (\<lambda>m. Inr (sf, m)))
                else Inr (stdfront, m)) (\<lambda>(sf, m).
         Inr (stdfront\<lparr>rxd := rxd sf\<rparr>, chipfront\<lparr>rxd := rxd cf\<rparr>, g, m)))))"

subsection \<open>The memory array of the frontend\<close>

partial_function (option) pow2_loop :: "u64 \<Rightarrow> u64 \<Rightarrow> u64 option" where
  "pow2_loop n p = (if p \<le> n then pow2_loop n (push_bit 1 p) else Some p)"

definition smallestpow2over :: "u64 \<Rightarrow> u64 option" where
  "smallestpow2over n = pow2_loop n 1"

definition resize :: "nat \<Rightarrow> u8 list \<Rightarrow> u8 list" where
  "resize n xs = take n xs @ replicate (n - length xs) 0"

definition mem_grow :: "u64 \<Rightarrow> u8 list \<Rightarrow> u8 list option" where
  "mem_grow addr arr =
     (if unat addr \<ge> length arr then map_option (\<lambda>n. resize (unat n) arr) (smallestpow2over (addr + 1)) else Some arr)"

definition mem_get :: "u64 \<Rightarrow> u8 list \<Rightarrow> (u8 \<times> u8 list) res" where
  "mem_get addr arr =
     (case mem_grow addr arr of
        None \<Rightarrow> Inl Diverges
      | Some arr \<Rightarrow> rbind (nth_res arr (uint addr)) (\<lambda>v. Inr (v, arr)))"

definition mem_set :: "u64 \<Rightarrow> u8 \<Rightarrow> u8 list \<Rightarrow> u8 list res" where
  "mem_set addr v arr =
     (case mem_grow addr arr of None \<Rightarrow> Inl Diverges | Some arr \<Rightarrow> upd_res arr (uint addr) v)"

section \<open>Files in hexadecimal\<close>

definition hexc :: "nat \<Rightarrow> char" where
  "hexc d = ''0123456789abcdef'' ! d"

fun hex_digits :: "nat \<Rightarrow> nat \<Rightarrow> nat list" where
  "hex_digits 0 n = []"
| "hex_digits (Suc k) n = hex_digits k (n div 16) @ [n mod 16]"

definition hex_text :: "nat \<Rightarrow> nat \<Rightarrow> string" where
  "hex_text k n = map hexc (hex_digits k n)"

definition byte_text :: "char \<Rightarrow> u8 \<Rightarrow> string" where
  "byte_text sep b = hex_text 2 (unat b) @ [sep]"

text \<open>A segment of a memory file: the address after \<open>@\<close>, then the bytes, each followed by white space.\<close>

definition segment_text :: "char \<Rightarrow> u32 \<times> u8 list \<Rightarrow> string" where
  "segment_text sep seg = ''@'' @ hex_text 8 (unat (fst seg)) @ [sep] @ concat (map (byte_text sep) (snd seg))"

text \<open>What the boot loader of the chip is sent for it: a write command per four bytes.\<close>

fun write_commands :: "u32 \<Rightarrow> u8 list \<Rightarrow> u8 list" where
  "write_commands a (b0 # b1 # b2 # b3 # bs) =
     0x77 # map (\<lambda>i. ucast (drop_bit (8 * i) a)) [0..<4] @ [b0, b1, b2, b3, 0x0A] @ write_commands (a + 4) bs"
| "write_commands a bs = []"

lemma length_hex_digits [simp]: "length (hex_digits k n) = k"
  by (induction k n rule: hex_digits.induct) auto

lemma hex_digits_less: "d \<in> set (hex_digits k n) \<Longrightarrow> d < 16"
  by (induction k n rule: hex_digits.induct) auto

definition plain :: "char \<Rightarrow> bool" where
  "plain c \<longleftrightarrow> \<not> isspace c \<and> c \<notin> {EOF_char, CHR ''@'', CHR ''-'', CHR ''+'', CHR ''x'', CHR ''X''}"

lemma hexc_facts:
  assumes "d < 16"
  shows "hex_digit (hexc d) = Some d" and "plain (hexc d)"
proof -
  have "d = 0 \<or> d = 1 \<or> d = 2 \<or> d = 3 \<or> d = 4 \<or> d = 5 \<or> d = 6 \<or> d = 7 \<or> d = 8 \<or> d = 9 \<or> d = 10 \<or> d = 11
      \<or> d = 12 \<or> d = 13 \<or> d = 14 \<or> d = 15"
    using assms by arith
  then have "hex_digit (hexc d) = Some d \<and> plain (hexc d)"
    by (elim disjE) (simp_all add: hexc_def hex_digit.simps plain_def isspace_def EOF_char_def)
  then show "hex_digit (hexc d) = Some d" and "plain (hexc d)" by simp_all
qed

lemma hex_value_append:
  "\<forall>d\<in>set ds. d < 16 \<Longrightarrow> hex_value acc (map hexc ds @ cs) = hex_value (foldl (\<lambda>a d. 16 * a + d) acc ds) cs"
  by (induction ds arbitrary: acc) (simp_all add: hexc_facts)

lemma foldl_hex_digits: "foldl (\<lambda>a d. 16 * a + d) 0 (hex_digits k n) = n mod 16 ^ k"
proof (induction k n rule: hex_digits.induct)
  case (1 n)
  then show ?case by simp
next
  case (2 k n)
  then show ?case by (simp add: mod_mult2_eq)
qed

lemma hex_text_chars: "c \<in> set (hex_text k n) \<Longrightarrow> plain c"
  using hexc_facts(2) hex_digits_less by (auto simp: hex_text_def)

lemma hex_prefix_text: "\<forall>c\<in>set s. c \<notin> {CHR ''x'', CHR ''X''} \<Longrightarrow> hex_prefix s = s"
  by (induction s rule: hex_prefix.induct) auto

lemma strtol16_hex_text:
  assumes "0 < k" and "n < 16 ^ k" and "n < 2 ^ 63"
  shows "strtol16 (hex_text k n) = int n"
proof -
  have "length (hex_text k n) = k" by (simp add: hex_text_def)
  then obtain c cs where c: "hex_text k n = c # cs" using assms(1) by (metis length_0_conv neq_Nil_conv not_gr_zero)
  have "\<not> isspace c" "c \<noteq> CHR ''-''" "c \<noteq> CHR ''+''" using hex_text_chars [of c k n] c by (auto simp: plain_def)
  moreover have "hex_prefix (c # cs) = c # cs"
    using hex_text_chars [of _ k n] unfolding c [symmetric] by (intro hex_prefix_text) (auto simp: plain_def)
  moreover have "hex_value 0 (c # cs) = n"
    using hex_value_append [of "hex_digits k n" 0 "[]"] foldl_hex_digits [of k n] hex_digits_less [of _ k n] assms(2)
    unfolding c [symmetric] hex_text_def by auto
  ultimately show ?thesis using assms(3) unfolding c strtol16_def Let_def by (simp del: hex_prefix.simps hex_value.simps)
qed

subsection \<open>Reading a token\<close>

lemma scan_token_text:
  assumes "\<forall>c\<in>set t. \<not> isspace c" and "t \<noteq> []" and "isspace sep"
  shows "scan_token (t @ sep # r) = (Some t, sep # r)"
proof -
  obtain c cs where t: "t = c # cs" using assms(2) by (cases t) auto
  have "dropWhile isspace (t @ sep # r) = t @ sep # r" using assms(1) t by simp
  then show ?thesis using assms by (simp add: scan_token_def dropWhile_append2 takeWhile_append2)
qed

lemma read_loop_space: "isspace sep \<Longrightarrow> read_loop (sep # r) s = read_loop r s"
  by (subst (1 2) read_loop.simps) simp

lemma read_loop_byte:
  assumes "isspace sep"
  shows "read_loop (byte_text sep b @ r) s = read_loop r (store_byte b (s\<lparr>ld_buf := Some (hex_text 2 (unat b))\<rparr>))"
proof -
  let ?t = "hex_text 2 (unat b)"
  have l: "length ?t = 2" by (simp add: hex_text_def)
  then obtain c cs where c: "?t = c # cs" by (cases ?t) auto
  have ch: "\<not> isspace c" "c \<noteq> EOF_char" "c \<noteq> CHR ''@''" using hex_text_chars [of c 2 "unat b"] c by (auto simp: plain_def)
  have "unat b < 16 ^ 2" using unsigned_less [of b, where 'a = nat] by simp
  then have v: "strtol16 ?t = int (unat b)" by (intro strtol16_hex_text) auto
  have sc: "scan_token (?t @ sep # r) = (Some ?t, sep # r)"
    using hex_text_chars [of _ 2 "unat b"] assms c by (intro scan_token_text) (auto simp: plain_def)
  have "read_loop (?t @ sep # r) s = read_loop (sep # r) (store_byte b (s\<lparr>ld_buf := Some ?t\<rparr>))"
    using ch l v sc by (subst read_loop.simps) (simp add: c scan_buf_def)
  then show ?thesis using read_loop_space [OF assms] by (simp add: byte_text_def)
qed

lemma read_loop_addr:
  assumes "isspace sep"
  shows "read_loop (''@'' @ hex_text 8 (unat a) @ [sep] @ r) s =
    read_loop r (s\<lparr>ld_buf := Some (hex_text 8 (unat a)), ld_addr := a\<rparr>)"
proof -
  let ?t = "hex_text 8 (unat a)"
  have l: "length ?t = 8" by (simp add: hex_text_def)
  have at: "\<not> isspace CHR ''@''" "CHR ''@'' \<noteq> EOF_char" by (simp_all add: isspace_def EOF_char_def)
  have "unat a < 16 ^ 8" using unsigned_less [of a, where 'a = nat] by simp
  then have v: "strtol16 ?t = int (unat a)" by (intro strtol16_hex_text) auto
  have "?t \<noteq> []" using l by auto
  then have sc: "scan_token (?t @ sep # r) = (Some ?t, sep # r)"
    using hex_text_chars [of _ 8 "unat a"] assms by (intro scan_token_text) (auto simp: plain_def)
  have "read_loop (CHR ''@'' # ?t @ sep # r) s = read_loop (sep # r) (s\<lparr>ld_buf := Some ?t, ld_addr := a\<rparr>)"
    using at l v sc by (subst read_loop.simps) (simp add: scan_buf_def)
  then show ?thesis using read_loop_space [OF assms] by simp
qed

lemma loader_buf_same: "s\<lparr>ld_buf := ld_buf s\<rparr> = s"
  by (cases s) simp

lemma read_loop_bytes:
  assumes "isspace sep" and "length bs mod 4 = 0" and "ld_inst s = []"
  shows "\<exists>buf. read_loop (concat (map (byte_text sep) bs) @ r) s =
    read_loop r (s\<lparr>ld_buf := buf, ld_addr := ld_addr s + of_nat (length bs), ld_vec := ld_vec s @ write_commands (ld_addr s) bs\<rparr>)"
  using assms(2,3)
proof (induction "ld_addr s" bs arbitrary: s rule: write_commands.induct)
  case (1 b0 b1 b2 b3 bs)
  let ?s = "s\<lparr>ld_buf := Some (hex_text 2 (unat b3)), ld_addr := ld_addr s + 4,
      ld_vec := ld_vec s @ 0x77 # map (\<lambda>i. ucast (drop_bit (8 * i) (ld_addr s))) [0..<4] @ [b0, b1, b2, b3, 0x0A]\<rparr>"
  have "read_loop (concat (map (byte_text sep) (b0 # b1 # b2 # b3 # bs)) @ r) s =
      read_loop (concat (map (byte_text sep) bs) @ r) ?s"
    using 1(3) by (cases s) (simp add: read_loop_byte [OF assms(1)] store_byte_def push_val_def push_val32_def)
  moreover have "\<exists>buf. read_loop (concat (map (byte_text sep) bs) @ r) ?s =
      read_loop r (?s\<lparr>ld_buf := buf, ld_addr := ld_addr ?s + of_nat (length bs), ld_vec := ld_vec ?s @ write_commands (ld_addr ?s) bs\<rparr>)"
    by (rule 1(1)) (use 1(2,3) in \<open>simp_all add: mod_Suc split: if_splits\<close>)
  ultimately show ?case by (simp add: algebra_simps)
qed (simp_all, metis loader_buf_same)

lemma read_loop_segments:
  assumes "isspace sep" and "\<forall>seg\<in>set segs. length (snd seg) mod 4 = 0" and "ld_inst s = []"
  shows "\<exists>s'. read_loop (concat (map (segment_text sep) segs)) s = Inr s' \<and> ld_inst s' = []
    \<and> ld_vec s' = ld_vec s @ concat (map (\<lambda>(a, bs). write_commands a bs) segs)"
  using assms(2,3)
proof (induction segs arbitrary: s)
  case Nil
  then show ?case by (simp add: read_loop.simps)
next
  case (Cons seg segs)
  obtain a bs where seg: "seg = (a, bs)" by (cases seg)
  let ?r = "concat (map (segment_text sep) segs)"
  let ?s1 = "s\<lparr>ld_buf := Some (hex_text 8 (unat a)), ld_addr := a\<rparr>"
  have 1: "read_loop (concat (map (segment_text sep) (seg # segs))) s =
      read_loop (concat (map (byte_text sep) bs) @ ?r) ?s1"
    using read_loop_addr [OF assms(1), of a "concat (map (byte_text sep) bs) @ ?r" s]
    by (simp add: segment_text_def seg)
  from read_loop_bytes [OF assms(1), of bs ?s1 ?r] Cons.prems seg obtain buf where
    2: "read_loop (concat (map (byte_text sep) bs) @ ?r) ?s1 =
      read_loop ?r (?s1\<lparr>ld_buf := buf, ld_addr := a + of_nat (length bs), ld_vec := ld_vec s @ write_commands a bs\<rparr>)"
    by auto
  let ?s2 = "?s1\<lparr>ld_buf := buf, ld_addr := a + of_nat (length bs), ld_vec := ld_vec s @ write_commands a bs\<rparr>"
  have "\<exists>s'. read_loop ?r ?s2 = Inr s' \<and> ld_inst s' = []
      \<and> ld_vec s' = ld_vec ?s2 @ concat (map (\<lambda>(a, bs). write_commands a bs) segs)"
    by (rule Cons.IH) (use Cons.prems in simp_all)
  then show ?case unfolding 1 2 by (simp add: seg)
qed

lemma read_file_segments:
  assumes "isspace sep" and "\<forall>seg\<in>set segs. length (snd seg) mod 4 = 0"
  shows "readMemFile2ChipkitDMA vec (Some (concat (map (segment_text sep) segs))) =
    Inr (vec @ concat (map (\<lambda>(a, bs). write_commands a bs) segs))"
  using read_loop_segments [OF assms, of "\<lparr>ld_addr = 0, ld_inst = [], ld_buf = None, ld_vec = vec\<rparr>"]
  by (auto simp: readMemFile2ChipkitDMA_def)

section \<open>Properties\<close>

text \<open>C27: reading a memory file inverts writing one. For every list of segments with whole words and any white space
  between the items, the reader queues, in order, one write command per word: \<open>w\<close>, the address in little endian,
  the four bytes and a line feed, with the address of a segment counted up by four.\<close>

theorem memory_file_roundtrip:
  assumes "isspace sep" and "\<forall>seg\<in>set segs. length (snd seg) mod 4 = 0"
  shows "readMemFile2ChipkitDMA vec (Some (concat (map (segment_text sep) segs))) =
    Inr (vec @ concat (map (\<lambda>(a, bs). write_commands a bs) segs))"
  by (rule read_file_segments [OF assms])

lemma hex_digits_numeral: "hex_digits (numeral k) n = hex_digits (pred_numeral k) (n div 16) @ [n mod 16]"
  by (simp only: numeral_eq_Suc [of k] hex_digits.simps)

theorem memory_file_roundtrip_witness:
  "readMemFile2ChipkitDMA [] (Some ''@20000000 de ad be ef '') =
    Inr [0x77, 0, 0, 0, 0x20, 0xDE, 0xAD, 0xBE, 0xEF, 0x0A]"
proof -
  have sp: "isspace CHR '' ''" by (simp add: isspace_def)
  have t: "concat (map (segment_text CHR '' '') [(0x20000000, [0xDE, 0xAD, 0xBE, 0xEF])]) = ''@20000000 de ad be ef ''"
    by (simp add: segment_text_def byte_text_def hex_text_def hexc_def hex_digits_numeral)
  have w: "concat (map (\<lambda>(a, bs). write_commands a bs) [(0x20000000, [0xDE, 0xAD, 0xBE, 0xEF])]) =
      [0x77, 0, 0, 0, 0x20, 0xDE, 0xAD, 0xBE, 0xEF, 0x0A]" by code_simp
  show ?thesis
    using memory_file_roundtrip [OF sp, of "[(0x20000000, [0xDE, 0xAD, 0xBE, 0xEF])]" "[]"] unfolding t w by simp
qed

text \<open>What the reader queues is a sequence of commands, whatever the file.\<close>

definition command_ok :: "u8 list \<Rightarrow> bool" where
  "command_ok x \<longleftrightarrow> length x = 10 \<and> x ! 0 = 0x77 \<and> x ! 9 = 0x0A"

definition loader_ok :: "u8 list \<Rightarrow> loader \<Rightarrow> bool" where
  "loader_ok vec s \<longleftrightarrow> length (ld_inst s) < 4 \<and> (\<exists>xs. ld_vec s = vec @ concat xs \<and> list_all command_ok xs)"

lemma store_byte_ok:
  assumes "loader_ok vec s"
  shows "loader_ok vec (store_byte b s)"
proof -
  from assms obtain xs where xs: "ld_vec s = vec @ concat xs" "list_all command_ok xs" "length (ld_inst s) < 4"
    by (auto simp: loader_ok_def)
  show ?thesis
  proof (cases "length (ld_inst s) = 3")
    case True
    define x where "x = 0x77 # map (\<lambda>i. ucast (drop_bit (8 * i) (ld_addr s))) [0..<4] @ (ld_inst s @ [b]) @ [0x0A]"
    have "command_ok x" using True by (simp add: command_ok_def x_def nth_append upt_rec)
    moreover have "ld_vec (store_byte b s) = vec @ concat (xs @ [x])" and "ld_inst (store_byte b s) = []"
      using True xs(1) by (simp_all add: store_byte_def push_val_def push_val32_def x_def)
    ultimately show ?thesis unfolding loader_ok_def using xs(2)
      by (intro conjI exI [of _ "xs @ [x]"]) simp_all
  next
    case False
    then show ?thesis using xs by (auto simp: loader_ok_def store_byte_def)
  qed
qed

lemma scan_buf_ok: "scan_buf f s = Inr (t, r, s') \<Longrightarrow> loader_ok vec s \<Longrightarrow> loader_ok vec s'"
  by (auto simp: scan_buf_def loader_ok_def split: prod.splits option.splits if_splits)

lemma read_loop_ok: "read_loop f s = Inr s' \<Longrightarrow> loader_ok vec s \<Longrightarrow> loader_ok vec s'"
proof (induction f s rule: read_loop.induct)
  case (1 f s)
  show ?case
  proof (cases "dropWhile isspace f")
    case Nil
    with 1(3,4) show ?thesis by (simp add: read_loop.simps)
  next
    case c: (Cons c r)
    consider (stop) "c = EOF_char" | (addr) "c \<noteq> EOF_char" "c = CHR ''@''" | (byte) "c \<noteq> EOF_char" "c \<noteq> CHR ''@''" by blast
    then show ?thesis
    proof cases
      case stop
      with 1(3,4) c show ?thesis by (simp add: read_loop.simps)
    next
      case addr
      then obtain t r' s1 where sc: "scan_buf r s = Inr (t, r', s1)"
        and rd: "read_loop r' (s1\<lparr>ld_addr := of_int (strtol16 t)\<rparr>) = Inr s'"
        using 1(3) c by (subst (asm) read_loop.simps) (auto split: sum.splits)
      have "loader_ok vec (s1\<lparr>ld_addr := of_int (strtol16 t)\<rparr>)"
        using scan_buf_ok [OF sc 1(4)] by (simp add: loader_ok_def)
      with 1(1) [OF c addr sc _ _ rd] show ?thesis by simp
    next
      case byte
      then obtain t r' s1 where sc: "scan_buf (c # r) s = Inr (t, r', s1)"
        and rd: "read_loop r' (store_byte (of_int (strtol16 t)) s1) = Inr s'"
        using 1(3) c by (subst (asm) read_loop.simps) (auto split: sum.splits)
      have "loader_ok vec (store_byte (of_int (strtol16 t)) s1)"
        using scan_buf_ok [OF sc 1(4)] by (rule store_byte_ok)
      with 1(2) [OF c byte sc _ _ rd] show ?thesis by simp
    qed
  qed
qed

text \<open>C29: whatever the file, if the reader returns, what it has appended to the queue is a sequence of whole commands of
  ten bytes, each from \<open>w\<close> to line feed; and the four bytes of \<open>inst_buf\<close> are never overrun.\<close>

theorem memory_file_commands:
  assumes "readMemFile2ChipkitDMA vec (Some f) = Inr q"
  shows "\<exists>xs. q = vec @ concat xs \<and> list_all command_ok xs"
proof -
  let ?s = "\<lparr>ld_addr = 0, ld_inst = [], ld_buf = None, ld_vec = vec\<rparr>"
  from assms obtain s where r: "read_loop f ?s = Inr s" "q = ld_vec s"
    by (auto simp: readMemFile2ChipkitDMA_def res_simps split: if_splits)
  have "loader_ok vec ?s" by (auto simp: loader_ok_def intro: exI [of _ "[]"])
  from read_loop_ok [OF r(1) this] show ?thesis by (auto simp: loader_ok_def r(2))
qed

definition demo_segments :: "(u32 \<times> u8 list) list" where
  "demo_segments = [(0, [1, 2, 3, 4]), (0x100, [5, 6, 7, 8])]"

lemma demo_file:
  "readMemFile2ChipkitDMA [] (Some (concat (map (segment_text CHR '' '') demo_segments))) =
    Inr (concat (map (\<lambda>(a, bs). write_commands a bs) demo_segments))"
  using read_file_segments [of "CHR '' ''" demo_segments "[]"] by (simp add: isspace_def demo_segments_def)

theorem memory_file_commands_witness:
  "\<exists>q xs. readMemFile2ChipkitDMA [] (Some (concat (map (segment_text CHR '' '') demo_segments))) = Inr q
    \<and> q = concat xs \<and> list_all command_ok xs \<and> length q = 20"
proof -
  have "length (concat (map (\<lambda>(a, bs). write_commands a bs) demo_segments)) = 20"
    by (simp add: demo_segments_def)
  then show ?thesis using memory_file_commands [OF demo_file] demo_file by auto
qed

subsection \<open>The loading loop\<close>

definition load_done :: "uart \<Rightarrow> bool" where
  "load_done s \<longleftrightarrow> in_stream s = [] \<and> rxd s \<noteq> 0"

lemma load_loop_ends:
  assumes "uart_run d ts s = Inr (w, s')" and "load_done s'"
  shows "\<exists>k s1. k \<le> length ts \<and> load_loop d (ts @ us) s = Inr s1 \<and> load_done s1 \<and> uart_run d (take k ts) s = Inr (take k w, s1)"
  using assms
proof (induction ts arbitrary: s w)
  case Nil
  then show ?case by (cases us) (auto simp: load_done_def)
next
  case (Cons t ts)
  show ?case
  proof (cases "load_done s")
    case True
    then show ?thesis by (intro exI [of _ 0] exI [of _ s]) (simp add: load_done_def)
  next
    case False
    from Cons.prems obtain s2 w2 where r: "uart_tick d t s = Inr s2" "uart_run d ts s2 = Inr (w2, s')" "w = rxd s2 # w2"
      by (auto simp: res_simps)
    from Cons.IH [OF r(2) Cons.prems(2)] obtain k s1 where
      k: "k \<le> length ts" "load_loop d (ts @ us) s2 = Inr s1" "load_done s1" "uart_run d (take k ts) s2 = Inr (take k w2, s1)"
      by blast
    show ?thesis
      using False k r by (intro exI [of _ "Suc k"] exI [of _ s1]) (auto simp: load_done_def)
  qed
qed

lemma uart_run_length: "uart_run d ts s = Inr (w, s') \<Longrightarrow> length w = length ts"
  by (induction ts arbitrary: s w) (auto simp: res_simps)

lemma uart_run_last: "uart_run d ts s = Inr (w, s') \<Longrightarrow> ts \<noteq> [] \<Longrightarrow> rxd s' = last w"
proof (induction ts arbitrary: s w)
  case Nil
  then show ?case by simp
next
  case (Cons t ts)
  from Cons.prems(1) obtain s1 w1 where r: "uart_run d ts s1 = Inr (w1, s')" "w = rxd s1 # w1"
    by (auto simp: res_simps)
  have "length w1 = length ts" by (rule uart_run_length [OF r(1)])
  then show ?case using Cons.IH [OF r(1)] r by (cases "ts = []") auto
qed

lemma idle_frames_high:
  assumes "2 \<le> d" and "idle (bs @ []) s" and "bs \<noteq> []" and "length ts = length (concat (map (frame d) bs))"
  shows "\<exists>s'. uart_run (int d) ts s = Inr (concat (map (frame d) bs), s') \<and> load_done s'"
proof -
  obtain s' where r: "uart_run (int d) ts s = Inr (concat (map (frame d) bs), s')" "idle [] s'"
    using send_stream [OF assms(1), of bs "[]"] assms(2,4) unfolding yields_def by blast
  have ne: "ts \<noteq> []" using assms by (cases bs) (auto simp: frame_def)
  have "rxd s' = last (concat (map (frame d) bs))"
    by (rule uart_run_last [OF r(1) ne])
  moreover have "last (concat (map (frame d) bs)) = 1"
    using assms(1,3) by (induction bs rule: rev_induct) (auto simp: frame_def)
  ultimately show ?thesis using r by (auto simp: load_done_def idle_def)
qed

text \<open>Loading a file ends. From an idle serial port with an empty queue, at every baud rate, a readable file with at
  least one word is sent completely: the loop stops with an empty queue and the line high, after at most
  \<open>11 * baud_div + 7\<close> ticks per byte, whatever the chip answers; and what was on the line are the frames of the write
  commands, up to the point where the loop stops.\<close>

theorem load_file_ends:
  assumes "2 \<le> d" and "in_state s = IDLE" and "baud_count_in s = 0" and "in_enable s" and "in_stream s = []"
    and "readMemFile2ChipkitDMA [] file = Inr q" and "q \<noteq> []" and "length q * (11 * d + 7) \<le> length ts"
  shows "\<exists>s1 k. load_file (int d) ts file s = Inr s1 \<and> in_stream s1 = [] \<and> rxd s1 \<noteq> 0
    \<and> uart_run (int d) (take k ts) (s\<lparr>in_stream := q\<rparr>) = Inr (take k (concat (map (frame d) q)), s1)"
proof -
  let ?s = "s\<lparr>in_stream := q\<rparr>"
  let ?n = "length q * (11 * d + 7)"
  have f: "length (frame d b) = 11 * d + 7" for b
    using assms(1) by (simp add: frame_def length_concat comp_def sum_list_triv)
  have n: "length (take ?n ts) = length (concat (map (frame d) q))"
    using assms(8) by (simp add: length_concat comp_def f sum_list_triv)
  have "idle (q @ []) ?s" using assms(2-4) by (simp add: idle_def)
  from idle_frames_high [OF assms(1) this assms(7) n] obtain s' where
    r: "uart_run (int d) (take ?n ts) ?s = Inr (concat (map (frame d) q), s')" "load_done s'" by blast
  from load_loop_ends [OF r, of "drop ?n ts"] obtain k s1 where
    k: "k \<le> length (take ?n ts)" "load_loop (int d) ts ?s = Inr s1" "load_done s1"
      "uart_run (int d) (take k (take ?n ts)) ?s = Inr (take k (concat (map (frame d) q)), s1)" by auto
  then have "take k (take ?n ts) = take k ts" by (simp add: min.absorb1)
  with k assms(5,6) show ?thesis by (auto simp: load_file_def load_done_def)
qed

theorem load_file_ends_witness:
  "\<exists>s1. load_file 16 (replicate 3660 1) (Some (concat (map (segment_text CHR '' '') demo_segments))) (uart_init 1) = Inr s1
    \<and> in_stream s1 = [] \<and> rxd s1 \<noteq> 0"
proof -
  have l: "length (concat (map (\<lambda>(a, bs). write_commands a bs) demo_segments)) = 20"
    by (simp add: demo_segments_def)
  then have ne: "concat (map (\<lambda>(a, bs). write_commands a bs) demo_segments) \<noteq> []" by (metis list.size(3) zero_neq_numeral)
  have u: "in_state (uart_init 1) = IDLE" "baud_count_in (uart_init 1) = 0" "in_enable (uart_init 1)" "in_stream (uart_init 1) = []"
    by (simp_all add: uart_init_def)
  have "\<exists>s1 k. load_file (int 16) (replicate 3660 1) (Some (concat (map (segment_text CHR '' '') demo_segments))) (uart_init 1) = Inr s1
      \<and> in_stream s1 = [] \<and> rxd s1 \<noteq> 0
      \<and> uart_run (int 16) (take k (replicate 3660 1)) (uart_init 1\<lparr>in_stream := concat (map (\<lambda>(a, bs). write_commands a bs) demo_segments)\<rparr>)
        = Inr (take k (concat (map (frame 16) (concat (map (\<lambda>(a, bs). write_commands a bs) demo_segments)))), s1)"
    by (rule load_file_ends [OF _ u demo_file ne]) (use l in simp_all)
  then show ?thesis by auto
qed

subsection \<open>The VCS driver loses what it loads\<close>

lemma uart_tick_idle:
  "in_state s = IDLE \<Longrightarrow> in_stream s = [] \<Longrightarrow> \<exists>s'. uart_tick d t s = Inr s' \<and> rxd s' = 1"
  by (simp add: uart_tick_def uart_send_def)

lemma uart_tick_start:
  "in_state s = IDLE \<Longrightarrow> in_stream s \<noteq> [] \<Longrightarrow> in_enable s \<Longrightarrow> \<exists>s'. uart_tick d t s = Inr s' \<and> rxd s' = 0"
  by (simp add: uart_tick_def uart_send_def)

text \<open>\<open>tick_chip\<close> receives the serial ports by value, so a call changes nothing of the caller's ports but the level of
  the line: the queue it has filled and the position in the frame are gone when it returns. Once both files have been
  read, an idle port with an empty queue therefore drives the line high in every call, for good: the chip is never
  sent a byte.\<close>

theorem tick_chip_loses_stream:
  assumes "tick_chip fs rest ar d dma_file trace_file t1 t2 stdfront chipfront g m = Inr (sf', cf', g', m')"
  shows "cf' = chipfront\<lparr>rxd := rxd cf'\<rparr> \<and> sf' = stdfront\<lparr>rxd := rxd sf'\<rparr>
    \<and> (in_state chipfront = IDLE \<and> in_stream chipfront = [] \<and> has_moved_program g \<and> (dma_file = None \<or> has_moved_memory g)
        \<longrightarrow> rxd cf' = 1)"
proof -
  from assms have "\<exists>cf1 g1 cf2. chip_fill fs dma_file trace_file chipfront g = Inr (cf1, g1) \<and> uart_tick d t2 cf1 = Inr cf2
      \<and> rxd cf' = rxd cf2 \<and> cf' = chipfront\<lparr>rxd := rxd cf'\<rparr> \<and> sf' = stdfront\<lparr>rxd := rxd sf'\<rparr>"
    by (auto simp: tick_chip_def Let_def rbind_eq_Inr)
  then obtain cf1 g1 cf2 where
    f: "chip_fill fs dma_file trace_file chipfront g = Inr (cf1, g1)" and tk: "uart_tick d t2 cf1 = Inr cf2"
    and cf': "rxd cf' = rxd cf2" "cf' = chipfront\<lparr>rxd := rxd cf'\<rparr>" and sf': "sf' = stdfront\<lparr>rxd := rxd sf'\<rparr>"
    by blast
  have "rxd cf' = 1" if "in_state chipfront = IDLE" "in_stream chipfront = []" "has_moved_program g" "dma_file = None \<or> has_moved_memory g"
  proof -
    have "cf1 = chipfront" using f that by (auto simp: chip_fill_def)
    then show ?thesis using uart_tick_idle [OF that(1,2), of d t2] tk cf'(1) by auto
  qed
  then show ?thesis using cf'(2) sf' by blast
qed

definition demo_globals :: chip_globals where
  "demo_globals = \<lparr>has_moved_memory = False, has_moved_program = False, has_reset = False, static_steps = 0,
     chip_aspsel = False, chip_reset = False\<rparr>"

theorem tick_chip_loses_stream_witness:
  "\<exists>cf'. tick_chip (\<lambda>n. Some (concat (map (segment_text CHR '' '') demo_segments))) Inr True 16 None (Some ''prog'') 1 1
      (uart_init 1) (uart_init 1) demo_globals () =
        Inr (uart_init 1, cf', demo_globals\<lparr>chip_aspsel := True, has_moved_program := True\<rparr>, ())
    \<and> cf' = uart_init 1\<lparr>rxd := rxd cf'\<rparr>"
proof -
  let ?q = "concat (map (\<lambda>(a, bs). write_commands a bs) demo_segments)"
  have l: "?q \<noteq> []" by (simp add: demo_segments_def)
  have f: "chip_fill (\<lambda>n. Some (concat (map (segment_text CHR '' '') demo_segments))) None (Some ''prog'') (uart_init 1) demo_globals =
      Inr (uart_init 1\<lparr>in_stream := ?q\<rparr>, demo_globals\<lparr>chip_aspsel := True, has_moved_program := True\<rparr>)"
    using demo_file by (simp add: chip_fill_def uart_init_def demo_globals_def)
  have t: "tick_chip (\<lambda>n. Some (concat (map (segment_text CHR '' '') demo_segments))) Inr True 16 None (Some ''prog'') 1 1
      (uart_init 1) (uart_init 1) demo_globals () =
        Inr (uart_init 1, uart_init 1\<lparr>rxd := 0\<rparr>, demo_globals\<lparr>chip_aspsel := True, has_moved_program := True\<rparr>, ())"
  proof -
    obtain s' where s': "uart_tick 16 1 (uart_init 1\<lparr>in_stream := ?q\<rparr>) = Inr s'" "rxd s' = 0"
      using uart_tick_start [of "uart_init 1\<lparr>in_stream := ?q\<rparr>" 16 1] l by (auto simp: uart_init_def)
    have "chip_reset_step True (uart_init 1\<lparr>in_stream := ?q\<rparr>) (demo_globals\<lparr>chip_aspsel := True, has_moved_program := True\<rparr>) =
        demo_globals\<lparr>chip_aspsel := True, has_moved_program := True\<rparr>"
      by (simp add: chip_reset_step_def demo_globals_def)
    moreover have "\<not> has_reset demo_globals" "uart_init 1\<lparr>rxd := rxd (uart_init 1)\<rparr> = uart_init 1"
      by (simp_all add: demo_globals_def uart_init_def)
    ultimately show ?thesis by (simp add: tick_chip_def f s')
  qed
  from tick_chip_loses_stream [OF t] t show ?thesis by blast
qed

subsection \<open>The memory array\<close>

lemma pow2_loop_step: "p \<le> n \<Longrightarrow> pow2_loop n p = pow2_loop n (push_bit 1 p)"
  by (simp add: pow2_loop.simps [of n p])

lemma pow2_loop_ends:
  assumes "unat n < 2 ^ 63" and "unat p = 2 ^ k" and "k < 64" and "k = 0 \<or> 2 ^ (k - 1) \<le> unat n"
  shows "\<exists>j<64. pow2_loop n p = Some (of_nat (2 ^ j)) \<and> unat n < 2 ^ j \<and> (j = 0 \<or> 2 ^ (j - 1) \<le> unat n)"
  using assms(2-)
proof (induction "64 - k" arbitrary: k p)
  case 0
  then show ?case by simp
next
  case (Suc m)
  show ?case
  proof (cases "p \<le> n")
    case True
    then have le: "2 ^ k \<le> unat n" using Suc.prems(1) by (simp add: word_le_nat_alt)
    then have "(2 :: nat) ^ k < 2 ^ 63" using assms(1) by linarith
    then have k: "k < 63" by (rule power_less_imp_less_exp [rotated]) simp
    then have "(2 :: nat) ^ Suc k \<le> 2 ^ 63" by (intro power_increasing) auto
    then have "unat (push_bit 1 p) = 2 ^ Suc k"
      using Suc.prems(1) by (simp add: push_bit_eq_mult unat_word_ariths)
    with Suc.hyps(1) [of "Suc k" "push_bit 1 p"] Suc.hyps(2) k le show ?thesis
      by (simp add: pow2_loop_step [OF True])
  next
    case False
    then have "pow2_loop n p = Some p" by (simp add: pow2_loop.simps [of n p])
    moreover have "p = of_nat (2 ^ k)" using arg_cong [OF Suc.prems(1), of "of_nat :: nat \<Rightarrow> u64"] by simp
    ultimately show ?thesis using False Suc.prems by (auto simp: word_le_nat_alt)
  qed
qed

lemma smallestpow2over_Some:
  assumes "unat n < 2 ^ 63"
  shows "\<exists>j<64. smallestpow2over n = Some (of_nat (2 ^ j)) \<and> unat n < 2 ^ j \<and> (j = 0 \<or> 2 ^ (j - 1) \<le> unat n)"
  using pow2_loop_ends [OF assms, of 1 0] by (simp add: smallestpow2over_def)

lemma resize_grow: "length xs \<le> n \<Longrightarrow> length (resize n xs) = n \<and> take (length xs) (resize n xs) = xs"
  by (simp add: resize_def)

lemma mem_grow_ok:
  assumes "unat addr + 1 < 2 ^ 63"
  shows "\<exists>arr'. mem_grow addr arr = Some arr' \<and> unat addr < length arr'
    \<and> (\<forall>i<length arr'. arr' ! i = (if i < length arr then arr ! i else 0))
    \<and> (unat addr < length arr \<and> length arr' = length arr
       \<or> (\<exists>k. length arr' = 2 ^ k \<and> unat addr + 1 < 2 ^ k \<and> 2 ^ k \<le> 2 * (unat addr + 1)))"
proof (cases "unat addr < length arr")
  case True
  then show ?thesis by (simp add: mem_grow_def)
next
  case False
  have u: "unat (addr + 1) = unat addr + 1" using assms by (simp add: unat_word_ariths)
  with assms smallestpow2over_Some [of "addr + 1"] obtain j where
    j: "j < 64" "smallestpow2over (addr + 1) = Some (of_nat (2 ^ j))" "unat addr + 1 < 2 ^ j"
      "j = 0 \<or> 2 ^ (j - 1) \<le> unat addr + 1" by auto
  have "(2 :: nat) ^ j < 2 ^ 64" using j(1) by (intro power_strict_increasing) simp_all
  then have "unat (of_nat (2 ^ j) :: u64) = 2 ^ j" by (simp only: unat_of_nat) simp
  then have g: "mem_grow addr arr = Some (resize (2 ^ j) arr)" using False j(2) by (simp add: mem_grow_def)
  have "(2 :: nat) ^ j \<le> 2 * (unat addr + 1)" using j(3,4) by (cases j) auto
  moreover have "length (resize (2 ^ j) arr) = 2 ^ j" using False j(3) by (simp add: resize_def)
  moreover have "\<forall>i<2 ^ j. resize (2 ^ j) arr ! i = (if i < length arr then arr ! i else 0)"
    using False j(3) by (auto simp: resize_def nth_append)
  ultimately show ?thesis using g j(3) by auto
qed

text \<open>The memory array of the frontend. For every address below \<open>2 ^ 63 - 1\<close>, storing then reading gives the value
  stored, every other byte keeps its value, with zero for bytes never written, and an array that is too short grows to
  a power of two of at most twice the size needed.\<close>

theorem memory_array_roundtrip:
  assumes "unat addr + 1 < 2 ^ 63"
  shows "\<exists>arr'. mem_set addr v arr = Inr arr' \<and> mem_get addr arr' = Inr (v, arr')
    \<and> (\<forall>i<length arr'. i \<noteq> unat addr \<longrightarrow> arr' ! i = (if i < length arr then arr ! i else 0))
    \<and> (unat addr < length arr \<and> length arr' = length arr
       \<or> (\<exists>k. length arr' = 2 ^ k \<and> unat addr + 1 < 2 ^ k \<and> 2 ^ k \<le> 2 * (unat addr + 1)))"
proof -
  from mem_grow_ok [OF assms, of arr] obtain arr' where g: "mem_grow addr arr = Some arr'" "unat addr < length arr'"
    "\<forall>i<length arr'. arr' ! i = (if i < length arr then arr ! i else 0)"
    "unat addr < length arr \<and> length arr' = length arr
       \<or> (\<exists>k. length arr' = 2 ^ k \<and> unat addr + 1 < 2 ^ k \<and> 2 ^ k \<le> 2 * (unat addr + 1))" by blast
  have ui: "uint addr < int (length arr')" using g(2) by (metis of_nat_less_iff uint_nat)
  let ?arr = "arr'[unat addr := v]"
  have "mem_set addr v arr = Inr ?arr"
    using g(1) ui by (simp add: mem_set_def upd_res_def)
  moreover have "mem_get addr ?arr = Inr (v, ?arr)"
    using g(2) ui by (simp add: mem_get_def mem_grow_def nth_res_def)
  ultimately show ?thesis using g by (intro exI [of _ ?arr]) simp
qed

theorem memory_array_roundtrip_witness:
  "\<exists>arr'. mem_set 5 0xAB [1, 2] = Inr arr' \<and> mem_get 5 arr' = Inr (0xAB, arr') \<and> arr' ! 0 = 1 \<and> 6 < length arr'"
proof -
  obtain arr' where a: "mem_set 5 0xAB [1, 2] = Inr arr'" "mem_get 5 arr' = Inr (0xAB, arr')"
      "\<forall>i<length arr'. i \<noteq> 5 \<longrightarrow> arr' ! i = (if i < 2 then [1, 2] ! i else 0)"
      "\<exists>k. length arr' = 2 ^ k \<and> 6 < length arr'"
    using memory_array_roundtrip [of 5 "0xAB" "[1, 2]"] by auto
  then have "arr' ! 0 = 1" by (metis (no_types) less_trans nth_Cons_0 zero_less_numeral zero_neq_numeral)
  with a show ?thesis by blast
qed

end
