(* ===== verification/Signal_Wrappers.thy ===== *)
theory Signal_Wrappers
  imports Runtime_Prelude
begin

text \<open>
  The signals of the simulated design as the runtime reaches them: the pointer wrappers of the Verilator builds
  (include/sim/DataWrapper.h), the VPI handles of the other simulators (include/sim/axi/vpi_handle.h) and the
  AXI channels made of either (address_channel.h, data_channel.h, response_channel.h).

  A pointer wrapper is an address in the memory of the process and the size of the object there, in bytes,
  little endian. The VPI is not part of the repository: \<open>vpi_ops\<close> is its interface on a state of the simulator,
  \<open>vpi_ok\<close> states what the standard promises of it (size, reading back what was written, other signals kept).
\<close>

unbundle bit_operations_syntax

section \<open>Pointer wrappers\<close>

definition le_bytes :: "u64 \<Rightarrow> u8 list" where
  "le_bytes v = map (\<lambda>i. ucast (drop_bit (8 * i) v)) [0..<8]"

fun le_value :: "u8 list \<Rightarrow> nat" where
  "le_value [] = 0"
| "le_value (b # bs) = unat b + 256 * le_value bs"

record wrapper =
  w_ptr :: u64
  w_size :: nat

text \<open>\<open>GetSetWrapper<T>\<close>, with \<open>w_size\<close> the size of \<open>T\<close>. \<open>get(idx)\<close> reads the \<open>idx\<close>-th object of an array of \<open>T\<close>.\<close>

definition gsw_get_at :: "bytes \<Rightarrow> wrapper \<Rightarrow> int \<Rightarrow> nat res" where
  "gsw_get_at mem w idx =
     (if w_ptr w = 0 then Inl Null_pointer
      else Inr (le_value (mem_read mem (w_ptr w + of_int (int (w_size w) * idx)) (w_size w))))"

definition gsw_get :: "bytes \<Rightarrow> wrapper \<Rightarrow> nat res" where
  "gsw_get mem w = gsw_get_at mem w 0"

definition gsw_set :: "bytes \<Rightarrow> wrapper \<Rightarrow> u64 \<Rightarrow> bytes res" where
  "gsw_set mem w v =
     (if w_ptr w = 0 then Inl Null_pointer
      else if w_size w \<ge> 8 then Inr (mem_write mem (w_ptr w) (take 8 (le_bytes v)))
      else Inr (mem_write mem (w_ptr w) (take (w_size w) (le_bytes v))))"

text \<open>\<open>GetSetDataWrapper<uint8_t, l>\<close>: \<open>w_size\<close> is \<open>l\<close>. The indexed accesses are not checked in the source; an index past
  the object is an error here.\<close>

definition gsd_get_at :: "bytes \<Rightarrow> wrapper \<Rightarrow> int \<Rightarrow> u8 res" where
  "gsd_get_at mem w idx =
     (if 0 \<le> idx \<and> idx < int (w_size w) then Inr (mem (w_ptr w + of_int idx)) else Inl Out_of_range)"

definition gsd_get :: "bytes \<Rightarrow> wrapper \<Rightarrow> u8 list" where
  "gsd_get mem w = mem_read mem (w_ptr w) (w_size w)"

definition gsd_set :: "bytes \<Rightarrow> wrapper \<Rightarrow> u64 \<Rightarrow> bytes" where
  "gsd_set mem w v = mem_write mem (w_ptr w) (take (if w_size w \<ge> 8 then 8 else w_size w) (le_bytes v))"

definition gsd_set_word :: "bytes \<Rightarrow> wrapper \<Rightarrow> u32 \<Rightarrow> u32 \<Rightarrow> bytes res" where
  "gsd_set_word mem w payload idx =
     (if 4 * unat idx + 4 \<le> w_size w then
        Inr (mem_write mem (w_ptr w + of_nat (4 * unat idx)) (take 4 (le_bytes (ucast payload))))
      else Inl Out_of_range)"

definition gsd_set_bytes :: "bytes \<Rightarrow> wrapper \<Rightarrow> u8 list \<Rightarrow> bytes res" where
  "gsd_set_bytes mem w src =
     (if length src < w_size w then Inl Out_of_range else Inr (mem_write mem (w_ptr w) (take (w_size w) src)))"

section \<open>VPI handles\<close>

record ('h, 'v) vpi_ops =
  vpi_size :: "'h \<Rightarrow> int"
  vpi_get_int :: "'h \<Rightarrow> 'v \<Rightarrow> u32"
  vpi_get_vector :: "'h \<Rightarrow> 'v \<Rightarrow> u32 list"
  vpi_put_int :: "'h \<Rightarrow> u32 \<Rightarrow> 'v \<Rightarrow> 'v"
  vpi_put_vector :: "'h \<Rightarrow> u32 list \<Rightarrow> 'v \<Rightarrow> 'v"

definition chunks :: "int \<Rightarrow> nat" where
  "chunks n = nat ((n + 31) div 32)"

text \<open>The vector of a signal has one entry per 32 bits; what is put is read back, and other signals keep their values.\<close>

definition vpi_ok :: "('h, 'v) vpi_ops \<Rightarrow> bool" where
  "vpi_ok vpi \<longleftrightarrow>
     (\<forall>h v. 0 < vpi_size vpi h \<and> length (vpi_get_vector vpi h v) = chunks (vpi_size vpi h))
     \<and> (\<forall>h v xs. length xs = chunks (vpi_size vpi h) \<and> vpi_size vpi h mod 32 = 0 \<longrightarrow>
          vpi_get_vector vpi h (vpi_put_vector vpi h xs v) = xs)
     \<and> (\<forall>h h' v xs. h \<noteq> h' \<longrightarrow> vpi_get_vector vpi h' (vpi_put_vector vpi h xs v) = vpi_get_vector vpi h' v)"

definition VCSShortHandle :: "('h, 'v) vpi_ops \<Rightarrow> 'h \<Rightarrow> 'h res" where
  "VCSShortHandle vpi h = (if vpi_size vpi h div 32 > 1 then Inl (Exit 1) else Inr h)"

definition vs_get :: "('h, 'v) vpi_ops \<Rightarrow> 'h \<Rightarrow> 'v \<Rightarrow> u32" where
  "vs_get vpi h v = vpi_get_int vpi h v"

definition vs_get_chunk :: "('h, 'v) vpi_ops \<Rightarrow> 'h \<Rightarrow> int \<Rightarrow> 'v \<Rightarrow> u32 res" where
  "vs_get_chunk vpi h chunk v = nth_res (vpi_get_vector vpi h v) chunk"

definition vs_set :: "('h, 'v) vpi_ops \<Rightarrow> 'h \<Rightarrow> u32 \<Rightarrow> 'v \<Rightarrow> 'v" where
  "vs_set vpi h val v = vpi_put_int vpi h val v"

text \<open>\<open>set(payload, idx)\<close> replaces one byte; a shift by 32 bits or more is undefined.\<close>

definition vs_set_byte :: "('h, 'v) vpi_ops \<Rightarrow> 'h \<Rightarrow> u8 \<Rightarrow> u32 \<Rightarrow> 'v \<Rightarrow> 'v res" where
  "vs_set_byte vpi h payload idx v =
     (if 4 \<le> idx then Inl Out_of_range
      else
        (let x = vpi_get_int vpi h v;
             x = (x AND NOT (push_bit (unat idx * 8) 0xFF)) OR push_bit (unat idx * 8) (ucast payload)
         in Inr (vpi_put_int vpi h x v)))"

text \<open>\<open>VCSLongHandle\<close>: the member \<open>nchunks\<close> is set to the size of the signal in bits.\<close>

record 'h long_handle =
  lh_handle :: 'h
  nchunks :: int

definition VCSLongHandle :: "('h, 'v) vpi_ops \<Rightarrow> 'h \<Rightarrow> 'h long_handle" where
  "VCSLongHandle vpi h = \<lparr>lh_handle = h, nchunks = vpi_size vpi h\<rparr>"

definition vl_get_chunk :: "('h, 'v) vpi_ops \<Rightarrow> 'h long_handle \<Rightarrow> int \<Rightarrow> 'v \<Rightarrow> u32 res" where
  "vl_get_chunk vpi l idx v =
     (if nchunks l = 1 then Inr (vpi_get_int vpi (lh_handle l) v)
      else nth_res (vpi_get_vector vpi (lh_handle l) v) idx)"

fun vl_get_loop :: "u32 list \<Rightarrow> nat \<Rightarrow> nat \<Rightarrow> u8 list \<Rightarrow> u8 list res" where
  "vl_get_loop vec idx 0 ret = Inr ret"
| "vl_get_loop vec idx (Suc n) ret =
     rbind (nth_res vec (int idx)) (\<lambda>payload.
     vl_get_loop vec (Suc idx) n
       (ret @ map (\<lambda>off. ucast (drop_bit (off * 8) (payload AND push_bit (off * 8) 0xFF))) [0..<4]))"

definition vl_get :: "('h, 'v) vpi_ops \<Rightarrow> 'h long_handle \<Rightarrow> 'v \<Rightarrow> u8 list res" where
  "vl_get vpi l v = vl_get_loop (vpi_get_vector vpi (lh_handle l) v) 0 (nat (nchunks l div 4)) []"

definition vl_set :: "('h, 'v) vpi_ops \<Rightarrow> 'h long_handle \<Rightarrow> u32 \<Rightarrow> 'v \<Rightarrow> 'v" where
  "vl_set vpi l val v = vpi_put_int vpi (lh_handle l) val v"

definition vl_set_array :: "('h, 'v) vpi_ops \<Rightarrow> 'h long_handle \<Rightarrow> u32 list \<Rightarrow> 'v \<Rightarrow> 'v res" where
  "vl_set_array vpi l val v =
     (if length val < nat (nchunks l) then Inl Out_of_range
      else Inr (vpi_put_vector vpi (lh_handle l) (take (nat (nchunks l)) val) v))"

definition vl_set_chunk :: "('h, 'v) vpi_ops \<Rightarrow> 'h long_handle \<Rightarrow> u32 \<Rightarrow> u32 \<Rightarrow> 'v \<Rightarrow> 'v res" where
  "vl_set_chunk vpi l payload chunk v =
     rbind (upd_res (vpi_get_vector vpi (lh_handle l) v) (uint chunk) payload) (\<lambda>vec.
     Inr (vpi_put_vector vpi (lh_handle l) vec v))"

section \<open>AXI channels over pointer wrappers\<close>

record address_channel =
  ready_field :: wrapper
  valid_field :: wrapper
  id_field :: wrapper
  size_field :: wrapper
  burst_field :: wrapper
  addr_field :: wrapper
  len_field :: wrapper

text \<open>The fields of an address beat as the accessors \<open>getId\<close>, \<open>getSize\<close>, \<open>getBurst\<close>, \<open>getAddr\<close>, \<open>getLen\<close> return them.\<close>

record address_beat =
  ab_id :: u64
  ab_size :: u64
  ab_burst :: u64
  ab_addr :: u64
  ab_len :: u64

definition setValid :: "bytes \<Rightarrow> address_channel \<Rightarrow> bool \<Rightarrow> bytes res" where
  "setValid mem ch b = gsw_set mem (valid_field ch) (of_bool b)"

definition getValid :: "bytes \<Rightarrow> address_channel \<Rightarrow> bool res" where
  "getValid mem ch = rbind (gsw_get mem (valid_field ch)) (\<lambda>v. Inr (v \<noteq> 0))"

definition setReady :: "bytes \<Rightarrow> address_channel \<Rightarrow> bool \<Rightarrow> bytes res" where
  "setReady mem ch b = gsw_set mem (ready_field ch) (of_bool b)"

definition getReady :: "bytes \<Rightarrow> address_channel \<Rightarrow> bool res" where
  "getReady mem ch = rbind (gsw_get mem (ready_field ch)) (\<lambda>v. Inr (v \<noteq> 0))"

definition fire :: "bytes \<Rightarrow> address_channel \<Rightarrow> bool res" where
  "fire mem ch =
     rbind (gsw_get mem (ready_field ch)) (\<lambda>r.
     if r \<noteq> 0 then rbind (gsw_get mem (valid_field ch)) (\<lambda>v. Inr (v \<noteq> 0)) else Inr False)"

text \<open>The sequence of setters of \<open>tick_signals\<close> for one address: \<open>setValid\<close>, \<open>setAddr\<close>, \<open>setId\<close>, \<open>setSize\<close>, \<open>setLen\<close>,
  \<open>setBurst\<close>.\<close>

definition set_address :: "bytes \<Rightarrow> address_channel \<Rightarrow> address_beat \<Rightarrow> bytes res" where
  "set_address mem ch a =
     rbind (setValid mem ch True) (\<lambda>mem.
     rbind (gsw_set mem (addr_field ch) (ab_addr a)) (\<lambda>mem.
     rbind (gsw_set mem (id_field ch) (ab_id a)) (\<lambda>mem.
     rbind (gsw_set mem (size_field ch) (ab_size a)) (\<lambda>mem.
     rbind (gsw_set mem (len_field ch) (ab_len a)) (\<lambda>mem.
     gsw_set mem (burst_field ch) (ab_burst a))))))"

definition get_address :: "bytes \<Rightarrow> address_channel \<Rightarrow> address_beat res" where
  "get_address mem ch =
     rbind (gsw_get mem (id_field ch)) (\<lambda>i.
     rbind (gsw_get mem (size_field ch)) (\<lambda>sz.
     rbind (gsw_get mem (burst_field ch)) (\<lambda>bu.
     rbind (gsw_get_at mem (addr_field ch) 0) (\<lambda>ad.
     rbind (gsw_get mem (len_field ch)) (\<lambda>le.
     Inr \<lparr>ab_id = of_nat i, ab_size = of_nat sz, ab_burst = of_nat bu, ab_addr = of_nat ad, ab_len = of_nat le\<rparr>)))))"

section \<open>Properties\<close>

subsection \<open>Wrappers\<close>

lemma unat_byte: "unat (ucast (drop_bit (8 * k) (v :: u64)) :: u8) = unat v div 256 ^ k mod 256"
proof -
  have "unat (drop_bit (8 * k) v) = drop_bit (8 * k) (unat v)"
    using unat64_less [of v] by (simp add: unsigned_drop_bit_eq take_bit_nat_eq_self)
  then have "unat (drop_bit (8 * k) v) = unat v div 256 ^ k"
    by (simp only: drop_bit_eq_div power_mult) simp
  then show ?thesis by (simp add: unsigned_ucast_eq take_bit_eq_mod)
qed

lemma le_value_upt:
  "le_value (map (\<lambda>i. ucast (drop_bit (8 * i) (v :: u64))) [k..<k + n]) = unat v div 256 ^ k mod 256 ^ n"
proof (induction n arbitrary: k)
  case 0
  then show ?case by simp
next
  case (Suc n)
  have "[k..<k + Suc n] = k # [Suc k..<Suc k + n]" by (simp add: upt_conv_Cons del: upt_Suc)
  with Suc [of "Suc k"] show ?case
    by (simp add: unat_byte mod_mult2_eq mult.commute [of 256 "256 ^ k"] del: upt_Suc flip: div_mult2_eq)
qed

lemma le_value_bytes: "n \<le> 8 \<Longrightarrow> le_value (take n (le_bytes v)) = unat v mod 256 ^ n"
  using le_value_upt [of v 0 n] by (simp add: le_bytes_def take_map)

lemma length_le_bytes [simp]: "length (le_bytes v) = 8"
  by (simp add: le_bytes_def)

definition apart :: "wrapper \<Rightarrow> wrapper \<Rightarrow> bool" where
  "apart u w \<longleftrightarrow>
     list_all (\<lambda>i. list_all (\<lambda>j. w_ptr u + of_nat i \<noteq> w_ptr w + of_nat j) [0..<w_size w]) [0..<w_size u]"

definition field_ok :: "wrapper \<Rightarrow> bool" where
  "field_ok w \<longleftrightarrow> w_ptr w \<noteq> 0 \<and> w_size w \<le> 8"

lemma gsw_set_ok:
  assumes "field_ok w"
  shows "gsw_set mem w v = Inr (mem_write mem (w_ptr w) (take (w_size w) (le_bytes v)))"
  using assms by (auto simp: gsw_set_def field_ok_def)

lemma gsw_get_same:
  assumes "field_ok w"
  shows "gsw_get (mem_write mem (w_ptr w) (take (w_size w) (le_bytes v))) w = Inr (unat v mod 256 ^ w_size w)"
proof -
  have "length (take (w_size w) (le_bytes v)) = w_size w" using assms by (simp add: field_ok_def)
  then have "mem_read (mem_write mem (w_ptr w) (take (w_size w) (le_bytes v))) (w_ptr w) (w_size w) = take (w_size w) (le_bytes v)"
    using mem_read_write [of "take (w_size w) (le_bytes v)" mem "w_ptr w"] assms by (simp add: field_ok_def)
  then show ?thesis using assms by (simp add: gsw_get_def gsw_get_at_def le_value_bytes field_ok_def)
qed

lemma mem_read_apart:
  assumes "apart u w" and "length bs \<le> w_size w" and "w_size w < 2 ^ 64"
  shows "mem_read (mem_write mem (w_ptr w) bs) (w_ptr u) (w_size u) = mem_read mem (w_ptr u) (w_size u)"
proof (rule nth_equalityI)
  fix i
  assume "i < length (mem_read (mem_write mem (w_ptr w) bs) (w_ptr u) (w_size u))"
  then have i: "i < w_size u" by simp
  have "unat (w_ptr u + of_nat i - w_ptr w) \<noteq> j" if "j < w_size w" for j
    using assms(1,3) i that unat_offset [of j "w_ptr u + of_nat i" "w_ptr w"] by (auto simp: apart_def list_all_iff)
  then have "\<not> unat (w_ptr u + of_nat i - w_ptr w) < w_size w" by blast
  then have "\<not> unat (w_ptr u + of_nat i - w_ptr w) < length bs" using assms(2) by simp
  then show "mem_read (mem_write mem (w_ptr w) bs) (w_ptr u) (w_size u) ! i = mem_read mem (w_ptr u) (w_size u) ! i"
    using i by (simp add: mem_write_def)
qed simp

lemma gsw_get_other:
  assumes "apart u w" and "field_ok w"
  shows "gsw_get (mem_write mem (w_ptr w) (take (w_size w) (le_bytes v))) u = gsw_get mem u"
  using mem_read_apart [OF assms(1), of "take (w_size w) (le_bytes v)" mem] assms(2)
  by (simp add: gsw_get_def gsw_get_at_def field_ok_def)

fun all_apart :: "wrapper list \<Rightarrow> bool" where
  "all_apart [] = True"
| "all_apart (x # xs) = (list_all (\<lambda>y. apart x y \<and> apart y x) xs \<and> all_apart xs)"

definition channel_ok :: "address_channel \<Rightarrow> bool" where
  "channel_ok ch \<longleftrightarrow>
     list_all field_ok [ready_field ch, valid_field ch, id_field ch, size_field ch, burst_field ch, addr_field ch, len_field ch]
     \<and> all_apart [ready_field ch, valid_field ch, id_field ch, size_field ch, burst_field ch, addr_field ch, len_field ch]"

lemma channel_fields:
  assumes "channel_ok ch"
  shows "field_ok (ready_field ch)" "field_ok (valid_field ch)" "field_ok (id_field ch)" "field_ok (size_field ch)"
    "field_ok (burst_field ch)" "field_ok (addr_field ch)" "field_ok (len_field ch)"
  using assms by (simp_all add: channel_ok_def)

text \<open>What is left of a beat when its fields have the widths of the signals.\<close>

definition narrowed :: "address_channel \<Rightarrow> address_beat \<Rightarrow> address_beat" where
  "narrowed ch a = \<lparr>ab_id = of_nat (unat (ab_id a) mod 256 ^ w_size (id_field ch)),
     ab_size = of_nat (unat (ab_size a) mod 256 ^ w_size (size_field ch)),
     ab_burst = of_nat (unat (ab_burst a) mod 256 ^ w_size (burst_field ch)),
     ab_addr = of_nat (unat (ab_addr a) mod 256 ^ w_size (addr_field ch)),
     ab_len = of_nat (unat (ab_len a) mod 256 ^ w_size (len_field ch))\<rparr>"

text \<open>An address driven on a channel of the design is what the design reads there. If the signals are separate objects of
  at most eight bytes, the setters leave each field equal to the value given, truncated to the width of its signal,
  \<open>valid\<close> high and \<open>ready\<close>, which belongs to the design, untouched; so \<open>fire\<close> is then exactly \<open>ready\<close>.\<close>

theorem address_roundtrip:
  assumes "channel_ok ch" and "0 < w_size (valid_field ch)"
  shows "\<exists>mem'. set_address mem ch a = Inr mem' \<and> get_address mem' ch = Inr (narrowed ch a)
    \<and> getValid mem' ch = Inr True \<and> getReady mem' ch = getReady mem ch \<and> fire mem' ch = getReady mem ch"
proof -
  note ok = channel_fields [OF assms(1)]
  note ap = assms(1) [unfolded channel_ok_def, THEN conjunct2, simplified]
  let ?m1 = "mem_write mem (w_ptr (valid_field ch)) (take (w_size (valid_field ch)) (le_bytes 1))"
  let ?m2 = "mem_write ?m1 (w_ptr (addr_field ch)) (take (w_size (addr_field ch)) (le_bytes (ab_addr a)))"
  let ?m3 = "mem_write ?m2 (w_ptr (id_field ch)) (take (w_size (id_field ch)) (le_bytes (ab_id a)))"
  let ?m4 = "mem_write ?m3 (w_ptr (size_field ch)) (take (w_size (size_field ch)) (le_bytes (ab_size a)))"
  let ?m5 = "mem_write ?m4 (w_ptr (len_field ch)) (take (w_size (len_field ch)) (le_bytes (ab_len a)))"
  let ?m6 = "mem_write ?m5 (w_ptr (burst_field ch)) (take (w_size (burst_field ch)) (le_bytes (ab_burst a)))"
  have s: "set_address mem ch a = Inr ?m6"
    by (simp add: set_address_def setValid_def gsw_set_ok ok)
  note g = gsw_get_same [OF ok(2)] gsw_get_same [OF ok(3)] gsw_get_same [OF ok(4)] gsw_get_same [OF ok(5)]
    gsw_get_same [OF ok(6)] gsw_get_same [OF ok(7)]
  have v: "gsw_get ?m6 (valid_field ch) = Inr 1"
    using g(1) [of mem 1] assms(2) by (simp add: gsw_get_other ap ok)
  have r: "gsw_get ?m6 (ready_field ch) = gsw_get mem (ready_field ch)" by (simp add: gsw_get_other ap ok)
  have "get_address ?m6 ch = Inr (narrowed ch a)"
    unfolding get_address_def gsw_get_def [symmetric] by (simp add: gsw_get_other ap ok g narrowed_def)
  moreover have "getValid ?m6 ch = Inr True" by (simp add: getValid_def v)
  moreover have "getReady ?m6 ch = getReady mem ch" by (simp add: getReady_def r)
  moreover have "fire ?m6 ch = getReady mem ch"
    by (cases "gsw_get mem (ready_field ch)") (simp_all add: fire_def getReady_def r v)
  ultimately show ?thesis using s by blast
qed

definition demo_channel :: address_channel where
  "demo_channel = \<lparr>ready_field = \<lparr>w_ptr = 0x100, w_size = 1\<rparr>, valid_field = \<lparr>w_ptr = 0x101, w_size = 1\<rparr>,
     id_field = \<lparr>w_ptr = 0x102, w_size = 2\<rparr>, size_field = \<lparr>w_ptr = 0x104, w_size = 1\<rparr>,
     burst_field = \<lparr>w_ptr = 0x105, w_size = 1\<rparr>, addr_field = \<lparr>w_ptr = 0x108, w_size = 8\<rparr>,
     len_field = \<lparr>w_ptr = 0x110, w_size = 1\<rparr>\<rparr>"

theorem address_roundtrip_witness:
  "\<exists>mem'. set_address (\<lambda>a. 1) demo_channel \<lparr>ab_id = 7, ab_size = 6, ab_burst = 1, ab_addr = 0x1040, ab_len = 3\<rparr> = Inr mem'
    \<and> get_address mem' demo_channel = Inr \<lparr>ab_id = 7, ab_size = 6, ab_burst = 1, ab_addr = 0x1040, ab_len = 3\<rparr>
    \<and> fire mem' demo_channel = Inr True"
proof -
  let ?a = "\<lparr>ab_id = 7, ab_size = 6, ab_burst = 1, ab_addr = 0x1040, ab_len = 3\<rparr>"
  have ok: "channel_ok demo_channel" by code_simp
  have "narrowed demo_channel ?a = ?a" by (simp add: narrowed_def demo_channel_def)
  moreover have "getReady (\<lambda>a. 1) demo_channel = Inr True" by code_simp
  ultimately show ?thesis
    using address_roundtrip [OF ok, of "\<lambda>a. 1" ?a] by (auto simp: demo_channel_def)
qed

text \<open>The words of a data bus, set one after the other.\<close>

fun gsd_set_words :: "wrapper \<Rightarrow> nat \<Rightarrow> u32 list \<Rightarrow> bytes \<Rightarrow> bytes res" where
  "gsd_set_words w k [] mem = Inr mem"
| "gsd_set_words w k (x # xs) mem = rbind (gsd_set_word mem w x (of_nat k)) (gsd_set_words w (Suc k) xs)"

definition word_bytes :: "u32 \<Rightarrow> u8 list" where
  "word_bytes x = take 4 (le_bytes (ucast x))"

lemma length_word_bytes [simp]: "length (word_bytes x) = 4"
  by (simp add: word_bytes_def)

lemma length_concat_words [simp]: "length (concat (map word_bytes xs)) = 4 * length xs"
  by (induction xs) simp_all

lemma set_words_from:
  assumes "4 * (length done_ws + length xs) \<le> w_size w" and "w_size w < 2 ^ 32"
  shows "gsd_set_words w (length done_ws) xs (mem_write mem (w_ptr w) (concat (map word_bytes done_ws))) =
    Inr (mem_write mem (w_ptr w) (concat (map word_bytes (done_ws @ xs))))"
  using assms(1)
proof (induction xs arbitrary: done_ws)
  case Nil
  then show ?case by simp
next
  case (Cons x xs)
  let ?n = "length done_ws"
  let ?m = "mem_write mem (w_ptr w) (concat (map word_bytes done_ws))"
  have "?n < 2 ^ 32" using Cons.prems assms(2) by simp
  then have u: "unat (of_nat ?n :: u32) = ?n" by (simp add: unat_of_nat)
  have "mem_write ?m (w_ptr w + of_nat (4 * ?n)) (word_bytes x) = mem_write mem (w_ptr w) (concat (map word_bytes (done_ws @ [x])))"
    using mem_write_append [of "concat (map word_bytes done_ws)" "word_bytes x" mem "w_ptr w"] Cons.prems assms(2) by simp
  then have "gsd_set_word ?m w x (of_nat ?n) = Inr (mem_write mem (w_ptr w) (concat (map word_bytes (done_ws @ [x]))))"
    using Cons.prems u by (simp add: gsd_set_word_def word_bytes_def)
  then show ?case using Cons.IH [of "done_ws @ [x]"] Cons.prems by simp
qed

text \<open>A data bus set word by word is read back as the bytes of the words in little endian, and the words written never
  leave the object of the signal.\<close>

theorem data_words_roundtrip:
  assumes "w_size w = 4 * length xs" and "w_size w < 2 ^ 32"
  shows "\<exists>mem'. gsd_set_words w 0 xs mem = Inr mem' \<and> gsd_get mem' w = concat (map word_bytes xs)
    \<and> (\<forall>a. w_size w \<le> unat (a - w_ptr w) \<longrightarrow> mem' a = mem a)"
proof -
  have s: "gsd_set_words w 0 xs mem = Inr (mem_write mem (w_ptr w) (concat (map word_bytes xs)))"
    using set_words_from [of "[]" xs w mem] assms by simp
  have "gsd_get (mem_write mem (w_ptr w) (concat (map word_bytes xs))) w = concat (map word_bytes xs)"
    using mem_read_write [of "concat (map word_bytes xs)" mem "w_ptr w"] assms by (simp add: gsd_get_def)
  moreover have "\<forall>a. w_size w \<le> unat (a - w_ptr w) \<longrightarrow> mem_write mem (w_ptr w) (concat (map word_bytes xs)) a = mem a"
    using assms(1) by (simp add: mem_write_def)
  ultimately show ?thesis using s by blast
qed

theorem data_words_roundtrip_witness:
  "\<exists>mem'. gsd_set_words \<lparr>w_ptr = 0x200, w_size = 8\<rparr> 0 [0x11223344, 0xAABBCCDD] (\<lambda>a. 0) = Inr mem'
    \<and> gsd_get mem' \<lparr>w_ptr = 0x200, w_size = 8\<rparr> = [0x44, 0x33, 0x22, 0x11, 0xDD, 0xCC, 0xBB, 0xAA]"
proof -
  have "concat (map word_bytes [0x11223344, 0xAABBCCDD]) = [0x44, 0x33, 0x22, 0x11, 0xDD, 0xCC, 0xBB, 0xAA]" by code_simp
  then show ?thesis
    using data_words_roundtrip [of "\<lparr>w_ptr = 0x200, w_size = 8\<rparr>" "[0x11223344, 0xAABBCCDD]" "\<lambda>a. 0"] by auto
qed

subsection \<open>VPI handles\<close>

lemma vl_get_loop_short: "length vec < idx + n \<Longrightarrow> idx \<le> length vec \<Longrightarrow> vl_get_loop vec idx n ret = Inl Out_of_range"
proof (induction n arbitrary: idx ret)
  case 0
  then show ?case by simp
next
  case (Suc n)
  then show ?case by (cases "idx < length vec") (simp_all add: nth_res_def)
qed

text \<open>\<open>VCSLongHandle\<close> keeps the number of bits of its signal where it means the number of 32-bit chunks. Single chunks are
  written and read back correctly, but reading the whole signal runs past the value the simulator returns for every
  signal of eight bits or more, and writing a whole array takes one array element per bit.\<close>

theorem long_handle_chunks:
  assumes "vpi_ok vpi" and "l = VCSLongHandle vpi h" and "8 \<le> vpi_size vpi h"
  shows "vl_get vpi l v = Inl Out_of_range
    \<and> (\<forall>xs. length xs = chunks (vpi_size vpi h) \<longrightarrow> vl_set_array vpi l xs v = Inl Out_of_range)
    \<and> (\<forall>c x. vpi_size vpi h mod 32 = 0 \<and> unat c < chunks (vpi_size vpi h) \<longrightarrow>
         (\<exists>v'. vl_set_chunk vpi l x c v = Inr v' \<and> vl_get_chunk vpi l (uint c) v' = Inr x
            \<and> (\<forall>h'. h' \<noteq> h \<longrightarrow> vpi_get_vector vpi h' v' = vpi_get_vector vpi h' v)))"
proof (intro conjI allI impI)
  have len: "length (vpi_get_vector vpi h v) = chunks (vpi_size vpi h)" using assms(1) by (simp add: vpi_ok_def)
  have l: "lh_handle l = h" "nchunks l = vpi_size vpi h" by (simp_all add: assms(2) VCSLongHandle_def)
  have "(vpi_size vpi h + 31) div 32 < vpi_size vpi h div 4" "(vpi_size vpi h + 31) div 32 < vpi_size vpi h"
    using assms(3) by linarith+
  then have lt: "chunks (vpi_size vpi h) < nat (vpi_size vpi h div 4)" and lt': "chunks (vpi_size vpi h) < nat (vpi_size vpi h)"
    using assms(3) by (simp_all add: chunks_def)
  show "vl_get vpi l v = Inl Out_of_range"
    using vl_get_loop_short [of "vpi_get_vector vpi h v" 0] lt len by (simp add: vl_get_def l)
  show "vl_set_array vpi l xs v = Inl Out_of_range" if "length xs = chunks (vpi_size vpi h)" for xs
    using that lt' by (simp add: vl_set_array_def l)
  fix c :: u32 and x
  assume c: "vpi_size vpi h mod 32 = 0 \<and> unat c < chunks (vpi_size vpi h)"
  let ?vec = "(vpi_get_vector vpi h v)[unat c := x]"
  have ui: "uint c < int (length (vpi_get_vector vpi h v))" using c len by (metis of_nat_less_iff uint_nat)
  have s: "vl_set_chunk vpi l x c v = Inr (vpi_put_vector vpi h ?vec v)"
    using ui by (simp add: vl_set_chunk_def l upd_res_def)
  have "vpi_get_vector vpi h (vpi_put_vector vpi h ?vec v) = ?vec"
    using assms(1) c len by (simp add: vpi_ok_def)
  then have "vl_get_chunk vpi l (uint c) (vpi_put_vector vpi h ?vec v) = Inr x"
    using assms(3) ui c len by (simp add: vl_get_chunk_def l nth_res_def)
  moreover have "\<forall>h'. h' \<noteq> h \<longrightarrow> vpi_get_vector vpi h' (vpi_put_vector vpi h ?vec v) = vpi_get_vector vpi h' v"
    using assms(1) by (auto simp: vpi_ok_def)
  ultimately show "\<exists>v'. vl_set_chunk vpi l x c v = Inr v' \<and> vl_get_chunk vpi l (uint c) v' = Inr x
      \<and> (\<forall>h'. h' \<noteq> h \<longrightarrow> vpi_get_vector vpi h' v' = vpi_get_vector vpi h' v)"
    using s by blast
qed

text \<open>A simulator with 64-bit signals numbered by \<open>nat\<close>.\<close>

definition demo_vpi :: "(nat, nat \<Rightarrow> u32 \<times> u32) vpi_ops" where
  "demo_vpi = \<lparr>vpi_size = (\<lambda>h. 64), vpi_get_int = (\<lambda>h v. fst (v h)), vpi_get_vector = (\<lambda>h v. [fst (v h), snd (v h)]),
     vpi_put_int = (\<lambda>h x v. v(h := (x, 0))), vpi_put_vector = (\<lambda>h xs v. v(h := (xs ! 0, xs ! 1)))\<rparr>"

lemma demo_vpi_ok: "vpi_ok demo_vpi"
proof -
  have two: "xs = [xs ! 0, xs ! 1]" if "length xs = 2" for xs :: "u32 list"
    using that by (auto simp: length_Suc_conv numeral_2_eq_2)
  then show ?thesis by (auto simp: vpi_ok_def demo_vpi_def chunks_def)
qed

theorem long_handle_chunks_witness:
  "vl_get demo_vpi (VCSLongHandle demo_vpi 3) (\<lambda>h. (1, 2)) = Inl Out_of_range
    \<and> (\<exists>v'. vl_set_chunk demo_vpi (VCSLongHandle demo_vpi 3) 9 1 (\<lambda>h. (1, 2)) = Inr v'
       \<and> vl_get_chunk demo_vpi (VCSLongHandle demo_vpi 3) 1 v' = Inr 9)"
proof -
  have "vpi_size demo_vpi 3 = 64" by (simp add: demo_vpi_def)
  then show ?thesis
    using long_handle_chunks [OF demo_vpi_ok refl, of 3 "\<lambda>h. (1, 2)", THEN conjunct1]
      long_handle_chunks [OF demo_vpi_ok refl, of 3 "\<lambda>h. (1, 2)", THEN conjunct2, THEN conjunct2, rule_format, of 1 9]
    by (auto simp: chunks_def)
qed

end
