(* ===== verification/Sim_Frontend.thy ===== *)
theory Sim_Frontend
  imports Signal_Wrappers Chipkit_Loader
begin

text \<open>
  The programs that drive a simulation: the VPI frontend (src/sim/axi/vpi_axi_frontend.cc), the Verilator frontends
  (src/sim/axi/verilator_axi_frontend.cc, src/sim/chipkit/verilator_chipkit_frontend.cc) and their command lines.

  The VPI frontend caches the handles of the design's ports, binds every signal of the interfaces by name and calls
  \<open>tick_signals\<close> once per clock. The Verilator frontends own the clock: \<open>dut_ops\<close> is the interface of the generated
  class \<open>BeethovenTop\<close> (not part of the repository), \<open>signals\<close> stands for \<open>tick_signals\<close>, modelled in \<open>Mem_Tick\<close>,
  \<open>Dma_Engine\<close> and \<open>Axi_Frontend\<close>. The clock and reset levels of every \<open>eval\<close> and the times of the waveform dumps are
  recorded.
\<close>

section \<open>VPI frontend\<close>

record 'h vpi_ports =
  vp_inputs :: "'h list"
  vp_outputs :: "'h list"

text \<open>\<open>vpi_scan\<close> yields the arguments of the system task; there are none when \<open>vpi_iterate\<close> returns a null handle.\<close>

definition init_input_signals :: "'h list option \<Rightarrow> 'h vpi_ports \<Rightarrow> 'h vpi_ports" where
  "init_input_signals args p = (case args of None \<Rightarrow> p | Some hs \<Rightarrow> p\<lparr>vp_inputs := vp_inputs p @ hs\<rparr>)"

definition init_output_signals :: "'h list option \<Rightarrow> 'h vpi_ports \<Rightarrow> 'h vpi_ports" where
  "init_output_signals args p = (case args of None \<Rightarrow> p | Some hs \<Rightarrow> p\<lparr>vp_outputs := vp_outputs p @ hs\<rparr>)"

definition getHandle :: "('h \<Rightarrow> string) \<Rightarrow> 'h vpi_ports \<Rightarrow> string \<Rightarrow> 'h res" where
  "getHandle vpi_name p name =
     (case find (\<lambda>h. vpi_name h = name) (vp_inputs p) of
        Some h \<Rightarrow> Inr h
      | None \<Rightarrow>
          (case find (\<lambda>h. vpi_name h = name) (vp_outputs p) of
             Some h \<Rightarrow> Inr h
           | None \<Rightarrow> Inl (Exit 1)))"

text \<open>The signals that are bound, with the class of handle: \<open>True\<close> for \<open>VCSShortHandle\<close>, whose constructor checks the width.\<close>

definition address_signals :: "string \<Rightarrow> string \<Rightarrow> (bool \<times> string) list" where
  "address_signals bus ch =
     [(True, bus @ ch @ ''ready''), (True, bus @ ch @ ''valid''), (True, bus @ ch @ ''id''), (True, bus @ ch @ ''size''),
      (True, bus @ ch @ ''burst''), (False, bus @ ch @ ''addr''), (True, bus @ ch @ ''len'')]"

definition memory_signals :: "string \<Rightarrow> (bool \<times> string) list" where
  "memory_signals bus =
     address_signals bus ''ar'' @ address_signals bus ''aw''
     @ [(True, bus @ ''wready''), (True, bus @ ''wvalid''), (True, bus @ ''wlast''), (False, bus @ ''wstrb''), (False, bus @ ''wdata''),
        (True, bus @ ''rready''), (True, bus @ ''rvalid''), (True, bus @ ''rlast''), (True, bus @ ''rid''), (False, bus @ ''rdata''),
        (True, bus @ ''bready''), (True, bus @ ''bvalid''), (True, bus @ ''bid'')]"

text \<open>The fields of the control bus that keep one value.\<close>

definition control_constants :: "(string \<times> u32) list" where
  "control_constants =
     [(''S00_AXI_arburst'', 0), (''S00_AXI_arcache'', 0), (''S00_AXI_arid'', 0), (''S00_AXI_arlen'', 0), (''S00_AXI_arlock'', 0),
      (''S00_AXI_arprot'', 0), (''S00_AXI_arqos'', 0), (''S00_AXI_arregion'', 0), (''S00_AXI_arsize'', 2),
      (''S00_AXI_awburst'', 0), (''S00_AXI_awcache'', 0), (''S00_AXI_awid'', 0), (''S00_AXI_awlen'', 0), (''S00_AXI_awlock'', 0),
      (''S00_AXI_awprot'', 0), (''S00_AXI_awqos'', 0), (''S00_AXI_awregion'', 0), (''S00_AXI_awsize'', 2),
      (''S00_AXI_wlast'', 1), (''S00_AXI_wstrb'', 0xF)]"

definition control_signals :: "(bool \<times> string) list" where
  "control_signals =
     [(True, ''S00_AXI_arvalid''), (True, ''S00_AXI_arready''), (False, ''S00_AXI_araddr''),
      (True, ''S00_AXI_awvalid''), (True, ''S00_AXI_awready''), (False, ''S00_AXI_awaddr''),
      (True, ''S00_AXI_wvalid''), (True, ''S00_AXI_wready''), (False, ''S00_AXI_wdata''),
      (True, ''S00_AXI_rready''), (True, ''S00_AXI_rvalid''), (False, ''S00_AXI_rdata''),
      (True, ''S00_AXI_bready''), (True, ''S00_AXI_bvalid'')]"

fun bind_signals ::
  "('h, 'v) vpi_ops \<Rightarrow> ('h \<Rightarrow> string) \<Rightarrow> 'h vpi_ports \<Rightarrow> (bool \<times> string) list \<Rightarrow> (string \<times> 'h) list res" where
  "bind_signals vpi nm p [] = Inr []"
| "bind_signals vpi nm p ((short, n) # ns) =
     rbind (getHandle nm p n) (\<lambda>h.
     rbind (if short then VCSShortHandle vpi h else Inr h) (\<lambda>h.
     rbind (bind_signals vpi nm p ns) (\<lambda>bs. Inr ((n, h) # bs))))"

fun put_constants ::
  "('h, 'v) vpi_ops \<Rightarrow> ('h \<Rightarrow> string) \<Rightarrow> 'h vpi_ports \<Rightarrow> (string \<times> u32) list \<Rightarrow> 'v \<Rightarrow> 'v res" where
  "put_constants vpi nm p [] v = Inr v"
| "put_constants vpi nm p ((n, x) # ns) v =
     rbind (getHandle nm p n) (\<lambda>h. put_constants vpi nm p ns (vpi_put_int vpi h x v))"

text \<open>\<open>init_structures\<close>: the memory interface (with \<open>NUM_DDR_CHANNELS\<close> one), the DMA port (with \<open>BEETHOVEN_HAS_DMA\<close>), the
  constants and the control bus. The result is the table of bindings and the simulator. The calls that set up the memory
  controller (\<open>mem_ctrl_init\<close> of \<open>Mem_Ctrl\<close>), the DRAM model and its clock ratio and that start the servers are left out.\<close>

definition init_structures ::
  "bool \<Rightarrow> bool \<Rightarrow> ('h, 'v) vpi_ops \<Rightarrow> ('h \<Rightarrow> string) \<Rightarrow> 'h vpi_ports \<Rightarrow> 'v \<Rightarrow> ((string \<times> 'h) list \<times> 'v) res" where
  "init_structures has_ddr has_dma vpi nm p v =
     rbind (bind_signals vpi nm p (if has_ddr then memory_signals ''M00_AXI_'' else [])) (\<lambda>mem.
     rbind (bind_signals vpi nm p (if has_dma then memory_signals ''dma_'' else [])) (\<lambda>dma.
     rbind (getHandle nm p ''S00_AXI_awid'') (\<lambda>aw_id.
     rbind (getHandle nm p ''S00_AXI_arid'') (\<lambda>ar_id.
     rbind (put_constants vpi nm p control_constants v) (\<lambda>v.
     rbind (bind_signals vpi nm p control_signals) (\<lambda>ctrl.
     Inr (mem @ dma @ ctrl, v)))))))"

text \<open>\<open>$tick\<close>: the time advances; the signals are served once it is past 100000.\<close>

definition tick_calltf :: "u64 \<Rightarrow> ('c \<Rightarrow> 'c res) \<Rightarrow> u64 \<times> 'c \<Rightarrow> (u64 \<times> 'c) res" where
  "tick_calltf fpga_clock_inc signals s =
     (let main_time = fst s + fpga_clock_inc
      in if main_time > 100000 then rbind (signals (snd s)) (\<lambda>c. Inr (main_time, c)) else Inr (main_time, snd s))"

definition vlog_startup_routines :: "string list" where
  "vlog_startup_routines = [''$tick'', ''$init_input_signals'', ''$init_output_signals'', ''$init_structures'']"

subsection \<open>The ChipKit variant\<close>

text \<open>\<open>init_structures\<close> of src/sim/chipkit/vcs_chipkit_frontend.cc: the addresses are short handles there, and after the bindings
  the pins get their levels. The selection of the baud rate is put on \<open>CHIP_UART_M_CTS\<close>.\<close>

definition chipkit_memory_signals :: "(bool \<times> string) list" where
  "chipkit_memory_signals =
     map (\<lambda>(short, n). (short \<or> n = ''M00_AXI_araddr'' \<or> n = ''M00_AXI_awaddr'', n)) (memory_signals ''M00_AXI_'')"

definition chipkit_uart_signals :: "(bool \<times> string) list" where
  "chipkit_uart_signals =
     [(True, ''CHIP_UART_M_RXD''), (True, ''CHIP_UART_M_TXD''), (True, ''STDUART_uart_rxd''), (True, ''STDUART_uart_txd''),
      (False, ''reset''), (False, ''CHIP_ASPSEL'')]"

definition chipkit_pins :: "u32 \<Rightarrow> (string \<times> u32) list" where
  "chipkit_pins baud_sel =
     [(''CHIP_ASPSEL'', 0), (''CHIP_SCLK1'', 0), (''CHIP_SCLK2'', 0), (''CHIP_SHIFTIN'', 0), (''CHIP_SHIFTOUT'', 0),
      (''CHIP_FESEL'', 0), (''CHIP_UART_M_CTS'', 0), (''CHIP_UART_M_CTS'', baud_sel),
      (''CHIP_UART_M_RXD'', 1), (''STDUART_uart_rxd'', 1)]"

definition chipkit_init_structures ::
  "bool \<Rightarrow> u32 \<Rightarrow> ('h, 'v) vpi_ops \<Rightarrow> ('h \<Rightarrow> string) \<Rightarrow> 'h vpi_ports \<Rightarrow> 'v \<Rightarrow> ((string \<times> 'h) list \<times> 'v) res" where
  "chipkit_init_structures has_ddr baud_sel vpi nm p v =
     rbind (bind_signals vpi nm p (if has_ddr then chipkit_memory_signals else [])) (\<lambda>mem.
     rbind (bind_signals vpi nm p chipkit_uart_signals) (\<lambda>uart.
     rbind (put_constants vpi nm p (chipkit_pins baud_sel) v) (\<lambda>v.
     Inr (mem @ uart, v))))"

text \<open>\<open>$tick\<close> of that build: \<open>chip\<close> stands for the call of \<open>tick_chip\<close> (modelled in \<open>Chipkit_Loader\<close>), after the handles of
  the two pins have passed the width check.\<close>

definition chipkit_tick_calltf ::
  "u64 \<Rightarrow> ('h, 'v) vpi_ops \<Rightarrow> 'h \<Rightarrow> 'h \<Rightarrow> ('h \<Rightarrow> 'h \<Rightarrow> 'c \<Rightarrow> 'c res) \<Rightarrow> u64 \<times> 'c \<Rightarrow> (u64 \<times> 'c) res" where
  "chipkit_tick_calltf fpga_clock_inc vpi aspsel reset chip s =
     (let main_time = fst s + fpga_clock_inc
      in rbind (VCSShortHandle vpi aspsel) (\<lambda>asp.
         rbind (VCSShortHandle vpi reset) (\<lambda>res.
         rbind (chip asp res (snd s)) (\<lambda>c. Inr (main_time, c)))))"

section \<open>Verilator frontends\<close>

record 'd dut_ops =
  dut_clock :: "bool \<Rightarrow> 'd \<Rightarrow> 'd"
  dut_reset :: "bool \<Rightarrow> 'd \<Rightarrow> 'd"
  dut_eval :: "'d \<Rightarrow> 'd res"

record 'd sim =
  sim_dut :: 'd
  main_time :: u64
  sim_clock :: bool
  sim_reset :: bool
  sim_evals :: "(bool \<times> bool) list"
  sim_dumps :: "u64 list"

definition set_clock :: "'d dut_ops \<Rightarrow> bool \<Rightarrow> 'd sim \<Rightarrow> 'd sim" where
  "set_clock D b s = s\<lparr>sim_dut := dut_clock D b (sim_dut s), sim_clock := b\<rparr>"

definition set_reset :: "'d dut_ops \<Rightarrow> bool \<Rightarrow> 'd sim \<Rightarrow> 'd sim" where
  "set_reset D b s = s\<lparr>sim_dut := dut_reset D b (sim_dut s), sim_reset := b\<rparr>"

text \<open>\<open>tick(&top)\<close>: an exception of the design is thrown on after an emergency dump.\<close>

definition eval_tick :: "'d dut_ops \<Rightarrow> 'd sim \<Rightarrow> 'd sim res" where
  "eval_tick D s =
     rbind (dut_eval D (sim_dut s)) (\<lambda>d. Inr (s\<lparr>sim_dut := d, sim_evals := sim_evals s @ [(sim_clock s, sim_reset s)]\<rparr>))"

definition dump :: "'d sim \<Rightarrow> 'd sim" where
  "dump s = s\<lparr>sim_dumps := sim_dumps s @ [main_time s]\<rparr>"

definition advance :: "u64 \<Rightarrow> 'd sim \<Rightarrow> 'd sim" where
  "advance inc s = s\<lparr>main_time := main_time s + inc\<rparr>"

text \<open>One turn of the reset loop.\<close>

definition reset_cycle :: "'d dut_ops \<Rightarrow> u64 \<Rightarrow> 'd sim \<Rightarrow> 'd sim res" where
  "reset_cycle D inc s =
     rbind (eval_tick D (set_clock D False s)) (\<lambda>s.
     rbind (eval_tick D (set_clock D True (advance inc (dump s)))) (\<lambda>s.
     Inr (advance inc (dump s))))"

fun reset_loop :: "'d dut_ops \<Rightarrow> u64 \<Rightarrow> nat \<Rightarrow> 'd sim \<Rightarrow> 'd sim res" where
  "reset_loop D inc 0 s = Inr s"
| "reset_loop D inc (Suc n) s = rbind (reset_cycle D inc s) (reset_loop D inc n)"

definition reset_phase :: "'d dut_ops \<Rightarrow> u64 \<Rightarrow> bool \<Rightarrow> 'd sim \<Rightarrow> 'd sim res" where
  "reset_phase D inc active_reset s =
     rbind (reset_loop D inc 50 (set_reset D active_reset s)) (\<lambda>s.
     Inr (set_clock D False (set_reset D (\<not> active_reset) s)))"

text \<open>One turn of the main loop. \<open>signals\<close> works on the design and the state of the runtime.\<close>

definition run_cycle ::
  "'d dut_ops \<Rightarrow> u64 \<Rightarrow> ('c \<Rightarrow> 'd \<Rightarrow> ('c \<times> 'd) res) \<Rightarrow> 'c \<times> 'd sim \<Rightarrow> ('c \<times> 'd sim) res" where
  "run_cycle D inc signals cs =
     (let c = fst cs; s = advance inc (set_clock D True (snd cs))
      in rbind (signals c (sim_dut s)) (\<lambda>(c, d).
         rbind (eval_tick D (s\<lparr>sim_dut := d\<rparr>)) (\<lambda>s.
         rbind (eval_tick D (set_clock D False (dump s))) (\<lambda>s.
         Inr (c, dump (advance inc s))))))"

text \<open>\<open>while (not kill_sig)\<close>, with the values of \<open>kill_sig\<close> at the successive tests; the servers set it.\<close>

fun run_loop ::
  "'d dut_ops \<Rightarrow> u64 \<Rightarrow> ('c \<Rightarrow> 'd \<Rightarrow> ('c \<times> 'd) res) \<Rightarrow> bool list \<Rightarrow> 'c \<times> 'd sim \<Rightarrow> ('c \<times> 'd sim) res" where
  "run_loop D inc signals [] cs = Inr cs"
| "run_loop D inc signals (kill # ks) cs =
     (if kill then Inr cs else rbind (run_cycle D inc signals cs) (run_loop D inc signals ks))"

text \<open>Between the reset and the loop the source connects the wrappers of the runtime to the fields of the design (lines 303 to 343);
  that wiring, and the console output, are not part of the definition.\<close>

definition run_verilator ::
  "'d dut_ops \<Rightarrow> nat \<Rightarrow> bool \<Rightarrow> ('c \<Rightarrow> 'd \<Rightarrow> ('c \<times> 'd) res) \<Rightarrow> bool list \<Rightarrow> 'c \<Rightarrow> 'd sim \<Rightarrow> ('c \<times> 'd sim) res" where
  "run_verilator D fpga_clock active_reset signals ks c s =
     (if fpga_clock = 0 then Inl Div_by_zero
      else
        (let inc = of_nat (500000 div fpga_clock)
         in rbind (reset_phase D inc active_reset s) (\<lambda>s. run_loop D inc signals ks (c, s))))"

section \<open>Command lines\<close>

record options =
  dram_file :: "string option"
  trace_opt :: "string option"
  dma_opt :: "string option"

text \<open>The arguments after the program name. A missing value is \<open>argv[argc]\<close>, a null pointer; an unknown option swallows the
  argument after it.\<close>

fun parse_args :: "(string \<Rightarrow> string \<Rightarrow> options \<Rightarrow> options option) \<Rightarrow> string list \<Rightarrow> options \<Rightarrow> options res" where
  "parse_args set_opt [] opts = Inr opts"
| "parse_args set_opt [a] opts =
     (if a = [] \<or> hd a \<noteq> CHR ''-'' then Inl Assert_failed
      else if set_opt (tl a) [] opts = None then Inr opts else Inl Null_pointer)"
| "parse_args set_opt (a # v # rest) opts =
     (if a = [] \<or> hd a \<noteq> CHR ''-'' then Inl Assert_failed
      else parse_args set_opt rest (case set_opt (tl a) v opts of None \<Rightarrow> opts | Some opts' \<Rightarrow> opts'))"

definition axi_option :: "string \<Rightarrow> string \<Rightarrow> options \<Rightarrow> options option" where
  "axi_option name v opts = (if name = ''dramconfig'' then Some (opts\<lparr>dram_file := Some v\<rparr>) else None)"

definition chipkit_option :: "string \<Rightarrow> string \<Rightarrow> options \<Rightarrow> options option" where
  "chipkit_option name v opts =
     (if name = ''dramconfig'' then Some (opts\<lparr>dram_file := Some v\<rparr>)
      else if name = ''tracefile'' then Some (opts\<lparr>trace_opt := Some v\<rparr>)
      else if name = ''dmafile'' then Some (opts\<lparr>dma_opt := Some v\<rparr>)
      else None)"

definition default_dram :: string where
  "default_dram = ''../custom_dram_configs/DDR4_8Gb_x16_3200.ini''"

definition no_options :: options where
  "no_options = \<lparr>dram_file = None, trace_opt = None, dma_opt = None\<rparr>"

definition axi_main_config :: "string list \<Rightarrow> string res" where
  "axi_main_config argv =
     rbind (parse_args axi_option argv no_options) (\<lambda>o1.
     Inr (case dram_file o1 of None \<Rightarrow> default_dram | Some f \<Rightarrow> f))"

section \<open>Properties of the VPI frontend\<close>

lemma getHandle_name: "getHandle nm p n = Inr h \<Longrightarrow> nm h = n"
  by (auto simp: getHandle_def find_Some_iff split: option.splits)

lemma getHandle_ok: "is_ok (getHandle nm p n) \<longleftrightarrow> (\<exists>h\<in>set (vp_inputs p) \<union> set (vp_outputs p). nm h = n)"
  by (auto simp: getHandle_def is_ok_iff find_None_iff find_Some_iff split: option.splits)

definition signal_bound :: "('h, 'v) vpi_ops \<Rightarrow> ('h \<Rightarrow> string) \<Rightarrow> 'h vpi_ports \<Rightarrow> bool \<times> string \<Rightarrow> bool" where
  "signal_bound vpi nm p sn \<longleftrightarrow>
     (case getHandle nm p (snd sn) of Inl e \<Rightarrow> False | Inr h \<Rightarrow> fst sn \<longrightarrow> vpi_size vpi h < 64)"

lemma bind_signals_ok: "is_ok (bind_signals vpi nm p ns) \<longleftrightarrow> list_all (signal_bound vpi nm p) ns"
proof (induction ns)
  case Nil
  then show ?case by simp
next
  case (Cons sn ns)
  obtain short n where sn: "sn = (short, n)" by (cases sn)
  show ?case
  proof (cases "getHandle nm p n")
    case (Inl e)
    then show ?thesis by (simp add: sn signal_bound_def)
  next
    case (Inr h)
    have "vpi_size vpi h div 32 > 1 \<longleftrightarrow> \<not> vpi_size vpi h < 64" by linarith
    with Inr Cons show ?thesis
      by (cases "bind_signals vpi nm p ns") (auto simp: sn signal_bound_def VCSShortHandle_def)
  qed
qed

lemma put_constants_ok: "is_ok (put_constants vpi nm p ns v) \<longleftrightarrow> list_all (\<lambda>(n, x). is_ok (getHandle nm p n)) ns"
proof (induction ns arbitrary: v)
  case Nil
  then show ?case by simp
next
  case (Cons nx ns)
  then show ?case by (cases nx; cases "getHandle nm p (fst nx)") auto
qed

text \<open>What the standard promises of integer values: a value that fits is read back, other signals keep theirs.\<close>

definition vpi_int_ok :: "('h, 'v) vpi_ops \<Rightarrow> bool" where
  "vpi_int_ok vpi \<longleftrightarrow>
     (\<forall>h x v. unat x < 2 ^ nat (vpi_size vpi h) \<longrightarrow> vpi_get_int vpi h (vpi_put_int vpi h x v) = x)
     \<and> (\<forall>h h' x v. h \<noteq> h' \<longrightarrow> vpi_get_int vpi h' (vpi_put_int vpi h x v) = vpi_get_int vpi h' v)"

lemma put_constants_other:
  assumes "vpi_int_ok vpi"
  shows "put_constants vpi nm p ns v = Inr v' \<Longrightarrow> nm h \<notin> fst ` set ns \<Longrightarrow> vpi_get_int vpi h v' = vpi_get_int vpi h v"
proof (induction ns arbitrary: v)
  case Nil
  then show ?case by simp
next
  case (Cons nx ns)
  obtain n x where nx: "nx = (n, x)" by (cases nx)
  from Cons.prems(1) nx obtain g where g: "getHandle nm p n = Inr g" "put_constants vpi nm p ns (vpi_put_int vpi g x v) = Inr v'"
    by (auto simp: res_simps)
  have "g \<noteq> h" using getHandle_name [OF g(1)] Cons.prems(2) nx by auto
  then have "vpi_get_int vpi h (vpi_put_int vpi g x v) = vpi_get_int vpi h v" using assms by (auto simp: vpi_int_ok_def)
  with Cons.IH [OF g(2)] Cons.prems(2) show ?case by simp
qed

lemma put_constants_values:
  assumes "vpi_int_ok vpi"
  shows "put_constants vpi nm p ns v = Inr v' \<Longrightarrow> distinct (map fst ns) \<Longrightarrow> (n, x) \<in> set ns \<Longrightarrow> getHandle nm p n = Inr h
    \<Longrightarrow> unat x < 2 ^ nat (vpi_size vpi h) \<Longrightarrow> vpi_get_int vpi h v' = x"
proof (induction ns arbitrary: v)
  case Nil
  then show ?case by simp
next
  case (Cons ny ns)
  obtain m y where ny: "ny = (m, y)" by (cases ny)
  from Cons.prems(1) ny obtain g where g: "getHandle nm p m = Inr g" "put_constants vpi nm p ns (vpi_put_int vpi g y v) = Inr v'"
    by (auto simp: res_simps)
  show ?case
  proof (cases "(n, x) \<in> set ns")
    case True
    then show ?thesis using Cons.IH [OF g(2)] Cons.prems by simp
  next
    case False
    then have nm: "n = m" "x = y" "g = h" using Cons.prems(3,4) ny g(1) by auto
    have "nm h \<notin> fst ` set ns" using Cons.prems(2) ny nm getHandle_name [OF Cons.prems(4)] by auto
    from put_constants_other [OF assms g(2) this] show ?thesis
      using assms Cons.prems(5) nm by (simp add: vpi_int_ok_def)
  qed
qed

lemma bind_signals_names: "bind_signals vpi nm p ns = Inr bs \<Longrightarrow> \<forall>(n, h)\<in>set bs. getHandle nm p n = Inr h"
proof (induction ns arbitrary: bs)
  case Nil
  then show ?case by simp
next
  case (Cons sn ns)
  then show ?case by (cases sn) (auto simp: res_simps VCSShortHandle_def split: if_splits)
qed

definition required_signals :: "bool \<Rightarrow> bool \<Rightarrow> (bool \<times> string) list" where
  "required_signals has_ddr has_dma =
     (if has_ddr then memory_signals ''M00_AXI_'' else []) @ (if has_dma then memory_signals ''dma_'' else []) @ control_signals"

lemma init_structures_ok:
  "is_ok (init_structures ddr dma vpi nm p v) \<longleftrightarrow>
     list_all (signal_bound vpi nm p) (required_signals ddr dma) \<and> list_all (\<lambda>(n, x). is_ok (getHandle nm p n)) control_constants"
proof -
  have ids: "list_all (\<lambda>(n, x). is_ok (getHandle nm p n)) control_constants \<Longrightarrow>
      is_ok (getHandle nm p ''S00_AXI_awid'') \<and> is_ok (getHandle nm p ''S00_AXI_arid'')"
    by (simp add: control_constants_def)
  show ?thesis
    unfolding init_structures_def required_signals_def list_all_append
      bind_signals_ok [symmetric] put_constants_ok [of vpi nm p _ v, symmetric]
    using ids [folded put_constants_ok [of vpi nm p _ v]]
    by (auto simp: is_ok_iff rbind_eq_Inr)
qed

text \<open>C30: setting up the VPI build succeeds exactly when every signal it binds is among the ports the simulator announced, the
  short ones with less than 64 bits, and every constant field of the control bus is. Then every binding is the handle of
  the signal of that name, and the constant fields hold their values: bursts of one beat of four bytes, all bytes
  enabled, last beat.\<close>

theorem init_structures_exact:
  assumes "vpi_int_ok vpi"
  shows "(is_ok (init_structures ddr dma vpi nm p v) \<longleftrightarrow>
      list_all (signal_bound vpi nm p) (required_signals ddr dma) \<and> list_all (\<lambda>(n, x). is_ok (getHandle nm p n)) control_constants)
    \<and> (case init_structures ddr dma vpi nm p v of
         Inl e \<Rightarrow> True
       | Inr (bs, v') \<Rightarrow> (\<forall>(n, h)\<in>set bs. nm h = n)
           \<and> (\<forall>(n, x)\<in>set control_constants. \<forall>h. getHandle nm p n = Inr h \<and> unat x < 2 ^ nat (vpi_size vpi h) \<longrightarrow>
                vpi_get_int vpi h v' = x))"
proof (intro conjI init_structures_ok)
  show "case init_structures ddr dma vpi nm p v of
         Inl e \<Rightarrow> True
       | Inr (bs, v') \<Rightarrow> (\<forall>(n, h)\<in>set bs. nm h = n)
           \<and> (\<forall>(n, x)\<in>set control_constants. \<forall>h. getHandle nm p n = Inr h \<and> unat x < 2 ^ nat (vpi_size vpi h) \<longrightarrow>
                vpi_get_int vpi h v' = x)"
  proof (cases "init_structures ddr dma vpi nm p v")
    case (Inr r)
    obtain bs v' where r: "r = (bs, v')" by (cases r)
    from Inr r obtain m1 d1 c1 where b: "bind_signals vpi nm p (if ddr then memory_signals ''M00_AXI_'' else []) = Inr m1"
        "bind_signals vpi nm p (if dma then memory_signals ''dma_'' else []) = Inr d1"
        "bind_signals vpi nm p control_signals = Inr c1" "bs = m1 @ d1 @ c1" "put_constants vpi nm p control_constants v = Inr v'"
      by (auto simp: init_structures_def rbind_eq_Inr)
    have "\<forall>(n, h)\<in>set bs. nm h = n"
      using bind_signals_names [OF b(1)] bind_signals_names [OF b(2)] bind_signals_names [OF b(3)] getHandle_name
      unfolding b(4) by fastforce
    moreover have "distinct (map fst control_constants)" by code_simp
    then have "\<forall>(n, x)\<in>set control_constants. \<forall>h. getHandle nm p n = Inr h \<and> unat x < 2 ^ nat (vpi_size vpi h) \<longrightarrow>
        vpi_get_int vpi h v' = x"
      using put_constants_values [OF assms b(5)] by blast
    ultimately show ?thesis by (simp only: Inr r sum.case prod.case simp_thms)
  qed simp
qed

text \<open>A simulator whose handles are the names of 32-bit signals.\<close>

definition demo_ports :: "string vpi_ports" where
  "demo_ports = \<lparr>vp_inputs = map snd (required_signals True True), vp_outputs = map fst control_constants\<rparr>"

definition demo_names :: "(string, string \<Rightarrow> u32) vpi_ops" where
  "demo_names = \<lparr>vpi_size = (\<lambda>h. 32), vpi_get_int = (\<lambda>h v. v h), vpi_get_vector = (\<lambda>h v. [v h]),
     vpi_put_int = (\<lambda>h x v. v(h := x)), vpi_put_vector = (\<lambda>h xs v. v(h := xs ! 0))\<rparr>"

lemma getHandle_demo: "n \<in> snd ` set (required_signals True True) \<union> fst ` set control_constants \<Longrightarrow> getHandle (\<lambda>h. h) demo_ports n = Inr n"
  using getHandle_ok [of "\<lambda>h. h" demo_ports n] getHandle_name [of "\<lambda>h. h" demo_ports n]
  by (auto simp: demo_ports_def is_ok_iff)

theorem init_structures_exact_witness:
  "case init_structures True True demo_names (\<lambda>h. h) demo_ports (\<lambda>h. 7) of
      Inl e \<Rightarrow> False
    | Inr (bs, v') \<Rightarrow> v' ''S00_AXI_arsize'' = 2 \<and> v' ''S00_AXI_wstrb'' = 0xF"
proof -
  have ok: "vpi_int_ok demo_names" by (simp add: vpi_int_ok_def demo_names_def)
  have "list_all (signal_bound demo_names (\<lambda>h. h) demo_ports) (required_signals True True)"
    using getHandle_demo by (auto simp: list_all_iff signal_bound_def demo_names_def)
  moreover have "list_all (\<lambda>(n, x). is_ok (getHandle (\<lambda>h. h) demo_ports n)) control_constants"
    using getHandle_demo by (force simp: list_all_iff)
  ultimately have "is_ok (init_structures True True demo_names (\<lambda>h. h) demo_ports (\<lambda>h. 7))"
    using init_structures_exact [OF ok, THEN conjunct1] by blast
  then obtain bs v' where i: "init_structures True True demo_names (\<lambda>h. h) demo_ports (\<lambda>h. 7) = Inr (bs, v')"
    by (auto simp: is_ok_iff)
  have c: "\<forall>(n, x)\<in>set control_constants. \<forall>h. getHandle (\<lambda>h. h) demo_ports n = Inr h \<and> unat x < 2 ^ nat (vpi_size demo_names h) \<longrightarrow>
      vpi_get_int demo_names h v' = x"
    using init_structures_exact [OF ok, where ddr = True and dma = True and nm = "\<lambda>h. h" and p = demo_ports and v = "\<lambda>h. 7"]
    unfolding i by simp
  have "v' n = x" if "(n, x) \<in> set control_constants" for n x
  proof -
    have "getHandle (\<lambda>h. h) demo_ports n = Inr n" using that by (intro getHandle_demo) force
    moreover have "unat x < 2 ^ 32" using unsigned_less [of x, where 'a = nat] by simp
    ultimately have "vpi_get_int demo_names n v' = x" using c that by (auto simp: demo_names_def)
    then show ?thesis by (simp add: demo_names_def)
  qed
  then show ?thesis unfolding i by (simp add: control_constants_def)
qed

text \<open>In the ChipKit variant the clear-to-send pin, meant to be low, ends with the selection of the baud rate.\<close>

lemma put_constants_append:
  "put_constants vpi nm p (xs @ ys) v = rbind (put_constants vpi nm p xs v) (put_constants vpi nm p ys)"
  by (induction xs arbitrary: v) (auto simp: rbind_assoc)

lemma chipkit_cts:
  assumes "vpi_int_ok vpi" and "chipkit_init_structures ddr sel vpi nm p v = Inr (bs, v')"
    and "getHandle nm p ''CHIP_UART_M_CTS'' = Inr h" and "unat sel < 2 ^ nat (vpi_size vpi h)"
  shows "vpi_get_int vpi h v' = sel"
proof -
  have sp: "chipkit_pins sel = take 7 (chipkit_pins sel) @ drop 7 (chipkit_pins sel)" by (simp only: append_take_drop_id)
  from assms(2) have "put_constants vpi nm p (chipkit_pins sel) v = Inr v'"
    by (auto simp: chipkit_init_structures_def rbind_eq_Inr)
  then have "rbind (put_constants vpi nm p (take 7 (chipkit_pins sel)) v) (put_constants vpi nm p (drop 7 (chipkit_pins sel))) = Inr v'"
    by (subst (asm) sp) (simp only: put_constants_append)
  then obtain v1 where "put_constants vpi nm p (drop 7 (chipkit_pins sel)) v1 = Inr v'"
    by (auto simp: rbind_eq_Inr)
  then show ?thesis
    using put_constants_values [OF assms(1), of nm p "drop 7 (chipkit_pins sel)" v1 v' "''CHIP_UART_M_CTS''" sel h] assms(3,4)
    by (simp add: chipkit_pins_def)
qed

section \<open>Properties of the Verilator frontends\<close>

lemma eval_tick_Inr:
  assumes "\<forall>d. is_ok (dut_eval D d)"
  shows "\<exists>d. eval_tick D s = Inr (s\<lparr>sim_dut := d, sim_evals := sim_evals s @ [(sim_clock s, sim_reset s)]\<rparr>)"
  using assms by (auto simp: eval_tick_def is_ok_iff) (metis rbind.simps(2))

lemma reset_cycle_trace:
  assumes "\<forall>d. is_ok (dut_eval D d)"
  shows "\<exists>s'. reset_cycle D inc s = Inr s' \<and> main_time s' = main_time s + 2 * inc \<and> sim_reset s' = sim_reset s
    \<and> sim_evals s' = sim_evals s @ [(False, sim_reset s), (True, sim_reset s)]
    \<and> sim_dumps s' = sim_dumps s @ [main_time s, main_time s + inc]"
proof -
  obtain d1 where 1: "eval_tick D (set_clock D False s) = Inr (set_clock D False s\<lparr>sim_dut := d1, sim_evals := sim_evals s @ [(False, sim_reset s)]\<rparr>)"
    using eval_tick_Inr [OF assms, of "set_clock D False s"] by (auto simp: set_clock_def)
  let ?s1 = "set_clock D True (advance inc (dump (set_clock D False s\<lparr>sim_dut := d1, sim_evals := sim_evals s @ [(False, sim_reset s)]\<rparr>)))"
  obtain d2 where 2: "eval_tick D ?s1 = Inr (?s1\<lparr>sim_dut := d2, sim_evals := sim_evals ?s1 @ [(sim_clock ?s1, sim_reset ?s1)]\<rparr>)"
    using eval_tick_Inr [OF assms, of ?s1] by blast
  show ?thesis
    by (simp add: reset_cycle_def 1 2) (simp add: set_clock_def advance_def dump_def)
qed

lemma upt_shift: "[a + k..<b + k] = map (\<lambda>i. i + k) [a..<b]"
  by (rule nth_equalityI) simp_all

lemma upt_two: "[a..<a + m + 2] = [a, a + 1] @ map (\<lambda>i. i + 2) [a..<a + m]"
proof -
  have "[a..<a + m + 2] = a # Suc a # [a + 2..<a + m + 2]" by (simp add: upt_conv_Cons del: upt_Suc)
  then show ?thesis by (simp only: upt_shift) simp
qed

lemma reset_loop_trace:
  assumes "\<forall>d. is_ok (dut_eval D d)"
  shows "\<exists>s'. reset_loop D inc n s = Inr s' \<and> main_time s' = main_time s + of_nat (2 * n) * inc \<and> sim_reset s' = sim_reset s
    \<and> sim_evals s' = sim_evals s @ concat (replicate n [(False, sim_reset s), (True, sim_reset s)])
    \<and> sim_dumps s' = sim_dumps s @ map (\<lambda>i. main_time s + of_nat i * inc) [0..<2 * n]"
proof (induction n arbitrary: s)
  case 0
  then show ?case by simp
next
  case (Suc n)
  from reset_cycle_trace [OF assms, of inc s] obtain s1 where s1: "reset_cycle D inc s = Inr s1"
    "main_time s1 = main_time s + 2 * inc" "sim_reset s1 = sim_reset s"
    "sim_evals s1 = sim_evals s @ [(False, sim_reset s), (True, sim_reset s)]"
    "sim_dumps s1 = sim_dumps s @ [main_time s, main_time s + inc]" by blast
  have u: "[0..<2 * Suc n] = [0, 1] @ map (\<lambda>i. i + 2) [0..<2 * n]"
    using upt_two [of 0 "2 * n"] by simp
  obtain s' where s': "reset_loop D inc n s1 = Inr s'" "main_time s' = main_time s1 + of_nat (2 * n) * inc"
    "sim_reset s' = sim_reset s1" "sim_evals s' = sim_evals s1 @ concat (replicate n [(False, sim_reset s1), (True, sim_reset s1)])"
    "sim_dumps s' = sim_dumps s1 @ map (\<lambda>i. main_time s1 + of_nat i * inc) [0..<2 * n]"
    using Suc [of s1] by blast
  have "sim_dumps s' = sim_dumps s @ map (\<lambda>i. main_time s + of_nat i * inc) [0..<2 * Suc n]"
    unfolding u by (simp add: s'(5) s1(2,5) algebra_simps)
  then show ?case using s' s1 by (simp add: algebra_simps)
qed

lemma run_cycle_trace:
  assumes "\<forall>d. is_ok (dut_eval D d)" and "\<forall>c d. is_ok (signals c d)"
  shows "\<exists>c' s'. run_cycle D inc signals (c, s) = Inr (c', s') \<and> main_time s' = main_time s + 2 * inc \<and> sim_reset s' = sim_reset s
    \<and> sim_evals s' = sim_evals s @ [(True, sim_reset s), (False, sim_reset s)]
    \<and> sim_dumps s' = sim_dumps s @ [main_time s + inc, main_time s + 2 * inc]"
proof -
  let ?s0 = "advance inc (set_clock D True s)"
  obtain c1 d0 where 0: "signals c (sim_dut ?s0) = Inr (c1, d0)"
    using assms(2) by (metis is_ok_iff surj_pair)
  let ?s0' = "?s0\<lparr>sim_dut := d0\<rparr>"
  obtain d1 where 1: "eval_tick D ?s0' = Inr (?s0'\<lparr>sim_dut := d1, sim_evals := sim_evals ?s0' @ [(sim_clock ?s0', sim_reset ?s0')]\<rparr>)"
    using eval_tick_Inr [OF assms(1), of ?s0'] by blast
  let ?s1 = "set_clock D False (dump (?s0'\<lparr>sim_dut := d1, sim_evals := sim_evals ?s0' @ [(sim_clock ?s0', sim_reset ?s0')]\<rparr>))"
  obtain d2 where 2: "eval_tick D ?s1 = Inr (?s1\<lparr>sim_dut := d2, sim_evals := sim_evals ?s1 @ [(sim_clock ?s1, sim_reset ?s1)]\<rparr>)"
    using eval_tick_Inr [OF assms(1), of ?s1] by blast
  show ?thesis
    by (simp only: run_cycle_def Let_def fst_conv snd_conv 0 1 2 rbind.simps prod.case)
      (simp add: set_clock_def advance_def dump_def algebra_simps)
qed

lemma run_loop_trace:
  assumes "\<forall>d. is_ok (dut_eval D d)" and "\<forall>c d. is_ok (signals c d)"
  shows "\<exists>c' s'. run_loop D inc signals (replicate n False @ [True]) (c, s) = Inr (c', s')
    \<and> main_time s' = main_time s + of_nat (2 * n) * inc
    \<and> sim_evals s' = sim_evals s @ concat (replicate n [(True, sim_reset s), (False, sim_reset s)])
    \<and> sim_dumps s' = sim_dumps s @ map (\<lambda>i. main_time s + of_nat i * inc) [1..<2 * n + 1]"
proof (induction n arbitrary: c s)
  case 0
  then show ?case by simp
next
  case (Suc n)
  from run_cycle_trace [OF assms, of inc c s] obtain c1 s1 where s1: "run_cycle D inc signals (c, s) = Inr (c1, s1)"
    "main_time s1 = main_time s + 2 * inc" "sim_reset s1 = sim_reset s"
    "sim_evals s1 = sim_evals s @ [(True, sim_reset s), (False, sim_reset s)]"
    "sim_dumps s1 = sim_dumps s @ [main_time s + inc, main_time s + 2 * inc]" by blast
  have u: "[1..<2 * Suc n + 1] = [1, 2] @ map (\<lambda>i. i + 2) [1..<2 * n + 1]"
    using upt_two [of 1 "2 * n"] by (simp add: add.commute del: upt_Suc)
  obtain c' s' where s': "run_loop D inc signals (replicate n False @ [True]) (c1, s1) = Inr (c', s')"
    "main_time s' = main_time s1 + of_nat (2 * n) * inc"
    "sim_evals s' = sim_evals s1 @ concat (replicate n [(True, sim_reset s1), (False, sim_reset s1)])"
    "sim_dumps s' = sim_dumps s1 @ map (\<lambda>i. main_time s1 + of_nat i * inc) [1..<2 * n + 1]"
    using Suc [of c1 s1] by blast
  have "sim_dumps s' = sim_dumps s @ map (\<lambda>i. main_time s + of_nat i * inc) [1..<2 * Suc n + 1]"
    unfolding u by (simp add: s'(4) s1(2,5) algebra_simps del: upt_Suc)
  moreover have "run_loop D inc signals (replicate (Suc n) False @ [True]) (c, s) = Inr (c', s')"
    using s'(1) s1(1) by simp
  ultimately show ?case using s'(2,3) s1(2-4) by (simp add: algebra_simps del: upt_Suc)
qed

fun rising_edges :: "bool \<Rightarrow> (bool \<times> bool) list \<Rightarrow> nat" where
  "rising_edges c [] = 0"
| "rising_edges c ((b, r) # es) = (if \<not> c \<and> b then 1 else 0) + rising_edges b es"

lemma rising_edges_reset: "rising_edges c (concat (replicate (Suc n) [(False, r), (True, r)]) @ es) = Suc n + rising_edges True es"
  by (induction n arbitrary: c) simp_all

lemma rising_edges_run: "rising_edges c (concat (replicate n [(True, r), (False, r)])) = (if c then n - 1 else n)"
  by (induction n arbitrary: c) auto

text \<open>C28: the clock of the Verilator frontend. As long as neither the design nor the runtime fails, the design sees fifty rising
  edges with the reset active and none of its inputs served; then every turn of the main loop evaluates the design
  with the clock high, after the signals have been served, and low. Time advances by two half periods per cycle, the waveform
  is dumped at the half periods 0 to 99 and from 101 on, each once, and in \<open>n\<close> turns the design sees \<open>n - 1\<close> rising edges: the clock is lowered
  after the reset without an evaluation, so the first turn, called a rising edge in the source, is none.\<close>

theorem verilator_timeline:
  assumes "\<forall>d. is_ok (dut_eval D d)" and "\<forall>c d. is_ok (signals c d)" and "0 < fpga_clock"
    and "main_time s = 0" and "sim_evals s = []" and "sim_dumps s = []"
  shows "\<exists>c' s'. run_verilator D fpga_clock ar signals (replicate n False @ [True]) c s = Inr (c', s')
    \<and> main_time s' = of_nat (100 + 2 * n) * of_nat (500000 div fpga_clock)
    \<and> sim_evals s' = concat (replicate 50 [(False, ar), (True, ar)]) @ concat (replicate n [(True, \<not> ar), (False, \<not> ar)])
    \<and> sim_dumps s' = map (\<lambda>i. of_nat i * of_nat (500000 div fpga_clock)) ([0..<100] @ [101..<2 * n + 101])
    \<and> rising_edges False (sim_evals s') = 50 + (n - 1)"
proof -
  let ?inc = "of_nat (500000 div fpga_clock) :: u64"
  let ?s0 = "set_reset D ar s"
  from reset_loop_trace [OF assms(1), of ?inc 50 ?s0] obtain s1 where s1: "reset_loop D ?inc 50 ?s0 = Inr s1"
    "main_time s1 = 100 * ?inc" "sim_evals s1 = concat (replicate 50 [(False, ar), (True, ar)])"
    "sim_dumps s1 = map (\<lambda>i. of_nat i * ?inc) [0..<100]"
    using assms(4-6) by (auto simp: set_reset_def)
  let ?s2 = "set_clock D False (set_reset D (\<not> ar) s1)"
  from run_loop_trace [OF assms(1,2), of ?inc n c ?s2] obtain c' s' where
    s': "run_loop D ?inc signals (replicate n False @ [True]) (c, ?s2) = Inr (c', s')"
      "main_time s' = 100 * ?inc + of_nat (2 * n) * ?inc"
      "sim_evals s' = sim_evals s1 @ concat (replicate n [(True, \<not> ar), (False, \<not> ar)])"
      "sim_dumps s' = sim_dumps s1 @ map (\<lambda>i. 100 * ?inc + of_nat i * ?inc) [1..<2 * n + 1]"
    using s1(2) by (auto simp: set_reset_def set_clock_def)
  have sh: "[101..<2 * n + 101] = map (\<lambda>i. i + 100) [1..<2 * n + 1]"
    using upt_shift [of 1 100 "2 * n + 1"] by (simp add: add.commute del: upt_Suc)
  have "run_verilator D fpga_clock ar signals (replicate n False @ [True]) c s = Inr (c', s')"
    using assms(3) s1(1) s'(1) by (simp add: run_verilator_def reset_phase_def)
  moreover have "rising_edges False (sim_evals s') = 50 + (n - 1)"
    using rising_edges_reset [of False 49 ar "concat (replicate n [(True, \<not> ar), (False, \<not> ar)])"]
    by (simp add: s'(3) s1(3) rising_edges_run)
  moreover have "sim_dumps s' = map (\<lambda>i. of_nat i * ?inc) ([0..<100] @ [101..<2 * n + 101])"
    unfolding sh by (simp add: s'(4) s1(4) algebra_simps del: upt_Suc)
  moreover have "main_time s' = of_nat (100 + 2 * n) * ?inc" by (simp add: s'(2) algebra_simps)
  ultimately show ?thesis using s'(3) s1(3) by (intro exI [of _ c'] exI [of _ s'] conjI) simp_all
qed

definition demo_dut :: "nat dut_ops" where
  "demo_dut = \<lparr>dut_clock = (\<lambda>b d. d), dut_reset = (\<lambda>b d. d), dut_eval = (\<lambda>d. Inr (Suc d))\<rparr>"

definition demo_sim :: "nat sim" where
  "demo_sim = \<lparr>sim_dut = 0, main_time = 0, sim_clock = False, sim_reset = False, sim_evals = [], sim_dumps = []\<rparr>"

theorem verilator_timeline_witness:
  "\<exists>c' s'. run_verilator demo_dut 250 True (\<lambda>c d. Inr (c + 1 :: nat, d)) [False, False, True] 0 demo_sim = Inr (c', s')
    \<and> main_time s' = 208000 \<and> rising_edges False (sim_evals s') = 51"
proof -
  have e: "\<forall>d. is_ok (dut_eval demo_dut d)" by (simp add: demo_dut_def)
  have g: "\<forall>c d. is_ok ((\<lambda>c d. Inr (c + 1 :: nat, d)) c (d :: nat))" by simp
  have i: "0 < (250 :: nat)" "main_time demo_sim = 0" "sim_evals demo_sim = []" "sim_dumps demo_sim = []"
    by (simp_all add: demo_sim_def)
  have r: "replicate 2 False @ [True] = [False, False, True]" by (simp add: numeral_2_eq_2)
  from verilator_timeline [OF e g i, of True 2 0] obtain c' s' where
    s': "run_verilator demo_dut 250 True (\<lambda>c d. Inr (c + 1 :: nat, d)) [False, False, True] 0 demo_sim = Inr (c', s')"
      "main_time s' = of_nat (100 + 2 * 2) * of_nat (500000 div 250)" "rising_edges False (sim_evals s') = 50 + (2 - 1)"
    unfolding r by blast
  have "main_time s' = 208000" unfolding s'(2) by simp
  with s'(1,3) show ?thesis by auto
qed

section \<open>Properties of the command lines\<close>

text \<open>The effect of a list of options with values, the reference for the parser.\<close>

definition apply_options :: "(string \<Rightarrow> string \<Rightarrow> options \<Rightarrow> options option) \<Rightarrow> (string \<times> string) list \<Rightarrow> options \<Rightarrow> options" where
  "apply_options set_opt kvs opts = fold (\<lambda>(k, v) o1. case set_opt k v o1 of None \<Rightarrow> o1 | Some o2 \<Rightarrow> o2) kvs opts"

lemma parse_args_pairs:
  "parse_args set_opt (concat (map (\<lambda>(k, v). [CHR ''-'' # k, v]) kvs)) opts = Inr (apply_options set_opt kvs opts)"
  by (induction kvs arbitrary: opts) (auto simp: apply_options_def)

lemma parse_args_missing:
  "set_opt k [] (apply_options set_opt kvs opts) \<noteq> None \<Longrightarrow>
    parse_args set_opt (concat (map (\<lambda>(k, v). [CHR ''-'' # k, v]) kvs) @ [CHR ''-'' # k]) opts = Inl Null_pointer"
  by (induction kvs arbitrary: opts) (auto simp: apply_options_def)

lemma apply_axi_dram:
  "dram_file (apply_options axi_option kvs opts) =
     (case filter (\<lambda>(k, v). k = ''dramconfig'') kvs of [] \<Rightarrow> dram_file opts | xs \<Rightarrow> Some (snd (last xs)))"
proof (induction kvs arbitrary: opts)
  case Nil
  then show ?case by (simp add: apply_options_def)
next
  case (Cons kv kvs)
  obtain k v where kv: "kv = (k, v)" by (cases kv)
  show ?case
    using Cons by (auto simp: apply_options_def kv axi_option_def split: list.split)
qed

text \<open>The command line of the AXI simulator. Options with values are read in order, unknown ones skipped with their value,
  the last \<open>-dramconfig\<close> wins and the default is used without one; a final \<open>-dramconfig\<close> without a value constructs a
  string from a null pointer.\<close>

theorem axi_command_line:
  "axi_main_config (concat (map (\<lambda>(k, v). [CHR ''-'' # k, v]) kvs)) =
      Inr (case filter (\<lambda>(k, v). k = ''dramconfig'') kvs of [] \<Rightarrow> default_dram | xs \<Rightarrow> snd (last xs))
    \<and> axi_main_config (concat (map (\<lambda>(k, v). [CHR ''-'' # k, v]) kvs) @ [''-dramconfig'']) = Inl Null_pointer"
  using parse_args_missing [of axi_option "''dramconfig''" kvs no_options]
  by (auto simp: axi_main_config_def parse_args_pairs apply_axi_dram no_options_def axi_option_def split: list.split option.split)

text \<open>The \<open>$tick\<close> task leaves the design alone until the time is past 100000.\<close>

lemma tick_calltf_quiet:
  assumes "unat t + unat inc \<le> 100000"
  shows "tick_calltf inc signals (t, c) = Inr (t + inc, c)"
proof -
  have "unat (t + inc) = unat t + unat inc" using assms by (intro unat_add_lem [THEN iffD1]) (simp add: unat_word_ariths)
  then have "\<not> 100000 < t + inc" using assms by (simp add: word_less_nat_alt)
  then show ?thesis by (simp add: tick_calltf_def)
qed

end
