(* ===== verification/Fpga_Main.thy ===== *)
theory Fpga_Main
  imports Mmio_Backend
begin

text \<open>
  Start and end of the FPGA builds (src/fpga_main.cc, src/fpga_utils.c). The management library of the board is not part
  of the repository: \<open>fpga_ops\<close> is what the runtime calls of it, on a state of the device. The macro \<open>AWS\<close> has the
  value 1 or 0 but is always defined (include/fpga_utils.h), so every \<open>#ifdef AWS\<close> of these files holds on every
  target, while an \<open>#if AWS\<close> holds on the AWS targets only.
\<close>

section \<open>Model\<close>

record 'x fpga_ops =
  fpga_mgmt_init :: "'x \<Rightarrow> int \<times> 'x"
  fpga_mgmt_describe_local_image :: "int \<Rightarrow> 'x \<Rightarrow> int \<times> bool \<times> 'x"      \<comment> \<open>return code, status is \<open>FPGA_STATUS_LOADED\<close>\<close>
  fpga_pci_attach :: "int \<Rightarrow> 'x \<Rightarrow> int \<times> int \<times> 'x"
  fpga_dma_open_queue :: "int \<Rightarrow> bool \<Rightarrow> 'x \<Rightarrow> int \<times> 'x"
  fpga_mgmt_close :: "'x \<Rightarrow> int \<times> 'x"

record fpga_handles =
  pci_bar_handle :: int
  xdma_read_fd :: int
  xdma_write_fd :: int

definition check_rc :: "int \<Rightarrow> unit res" where
  "check_rc rc = (if rc \<noteq> 0 then Inl (Exit rc) else Inr ())"

definition open_queues :: "'x fpga_ops \<Rightarrow> int \<Rightarrow> fpga_handles \<Rightarrow> 'x \<Rightarrow> (fpga_handles \<times> 'x) res" where
  "open_queues ops slot_id h x =
     (let (fd, x) = fpga_dma_open_queue ops slot_id True x
      in if fd < 0 then Inl (Exit 1)
         else (let (fd', x) = fpga_dma_open_queue ops slot_id False x
               in if fd' < 0 then Inl (Exit 1) else Inr (h\<lparr>xdma_read_fd := fd, xdma_write_fd := fd'\<rparr>, x)))"

definition fpga_setup :: "target \<Rightarrow> 'x fpga_ops \<Rightarrow> int \<Rightarrow> fpga_handles \<Rightarrow> 'x \<Rightarrow> (fpga_handles \<times> 'x) res" where
  "fpga_setup tgt ops slot_id h x =
     (let (rc, x) = fpga_mgmt_init ops x
      in rbind (check_rc rc) (\<lambda>_.
         if is_AWS tgt then
           (let (rc, loaded, x) = fpga_mgmt_describe_local_image ops slot_id x
            in rbind (check_rc rc) (\<lambda>_.
               rbind (if \<not> loaded then check_rc 1 else Inr ()) (\<lambda>_.
               (let (rc, loaded, x) = fpga_mgmt_describe_local_image ops slot_id x
                in rbind (check_rc rc) (\<lambda>_.
                   (let (rc, bar, x) = fpga_pci_attach ops slot_id x;
                        h = h\<lparr>pci_bar_handle := bar\<rparr>
                    in rbind (check_rc rc) (\<lambda>_.
                       if use_XDMA tgt then open_queues ops slot_id h x else Inr (h, x))))))))
         else Inr (h, x)))"

definition fpga_shutdown :: "'x fpga_ops \<Rightarrow> 'x \<Rightarrow> 'x res" where
  "fpga_shutdown ops x = (let (rc, x) = fpga_mgmt_close ops x in rbind (check_rc rc) (\<lambda>_. Inr x))"

text \<open>\<open>main\<close>: the servers run between the two; \<open>serve\<close> stands for their work until \<open>main_lock\<close> is released.\<close>

definition fpga_main ::
  "target \<Rightarrow> 'x fpga_ops \<Rightarrow> (fpga_handles \<Rightarrow> 'x \<Rightarrow> 'x res) \<Rightarrow> fpga_handles \<Rightarrow> 'x \<Rightarrow> 'x res" where
  "fpga_main tgt ops serve h x =
     rbind (fpga_setup tgt ops 0 h x) (\<lambda>(h, x).
     rbind (serve h x) (\<lambda>x. fpga_shutdown ops x))"

section \<open>Properties\<close>

text \<open>No failure of the board goes unnoticed at start-up: \<open>fpga_setup\<close> either ends the process with a status other than
  zero, or returns with the handle that \<open>fpga_pci_attach\<close> gave for a call that succeeded and, where the XDMA driver is
  used, with two open queues. Off the AWS targets it still calls \<open>fpga_mgmt_init\<close> and changes no handle.\<close>

theorem fpga_setup_safe:
  "case fpga_setup tgt ops slot_id h x of
      Inl e \<Rightarrow> (\<exists>c. c \<noteq> 0 \<and> e = Exit c)
    | Inr (h', x') \<Rightarrow> fst (fpga_mgmt_init ops x) = 0
        \<and> (is_AWS tgt \<longrightarrow> (\<exists>x1 x2. fpga_pci_attach ops slot_id x1 = (0, pci_bar_handle h', x2)))
        \<and> (use_XDMA tgt \<longrightarrow> 0 \<le> xdma_read_fd h' \<and> 0 \<le> xdma_write_fd h')
        \<and> (\<not> is_AWS tgt \<longrightarrow> h' = h)"
proof -
  have x: "use_XDMA tgt \<Longrightarrow> is_AWS tgt" by (cases tgt) simp_all
  show ?thesis
    by (auto simp: fpga_setup_def open_queues_def check_rc_def Let_def split: prod.split dest: x)
qed

definition demo_fpga :: "string list fpga_ops" where
  "demo_fpga = \<lparr>fpga_mgmt_init = (\<lambda>x. (0, x @ [''init''])), fpga_mgmt_describe_local_image = (\<lambda>s x. (0, True, x @ [''describe''])),
     fpga_pci_attach = (\<lambda>s x. (0, 5, x @ [''attach''])), fpga_dma_open_queue = (\<lambda>s r x. (if r then 3 else 4, x @ [''queue''])),
     fpga_mgmt_close = (\<lambda>x. (0, x @ [''close'']))\<rparr>"

definition no_handles :: fpga_handles where
  "no_handles = \<lparr>pci_bar_handle = -1, xdma_read_fd = -1, xdma_write_fd = -1\<rparr>"

theorem fpga_setup_safe_witness:
  "\<exists>h'. fpga_setup Target_F1 demo_fpga 0 no_handles [] = Inr (h', [''init'', ''describe'', ''describe'', ''attach'', ''queue'', ''queue''])
    \<and> 0 \<le> xdma_read_fd h' \<and> 0 \<le> xdma_write_fd h'"
proof -
  have "case fpga_setup Target_F1 demo_fpga 0 no_handles [] of
      Inl e \<Rightarrow> False | Inr (h', x') \<Rightarrow> x' = [''init'', ''describe'', ''describe'', ''attach'', ''queue'', ''queue'']"
    by (simp add: fpga_setup_def open_queues_def check_rc_def demo_fpga_def)
  then show ?thesis using fpga_setup_safe [where tgt = Target_F1 and ops = demo_fpga and slot_id = 0 and h = no_handles and x = "[]"]
    by (auto split: sum.splits)
qed

lemma fpga_main_Kria_calls_mgmt:
  "fpga_main Target_Kria demo_fpga (\<lambda>h x. Inr (x @ [''serve''])) no_handles [] = Inr [''init'', ''serve'', ''close'']"
  by (simp add: fpga_main_def fpga_setup_def fpga_shutdown_def check_rc_def demo_fpga_def)

end
