(* ===== verification/Sim_System.thy ===== *)
theory Sim_System
  imports Axi_Frontend "HOL-Library.Sublist"
begin

text \<open>
  The command path of a simulation build as one system: the clients' submissions through the command server
  (\<open>Cmd_Server\<close>) and the clock ticks of the control bus (\<open>Axi_Frontend\<close>), which share the queue \<open>cmds\<close>, the table
  \<open>in_flight\<close> and \<open>cmdserverlock\<close>. A step is one turn of the server thread or one tick; an execution is any
  interleaving of them.

  An execution keeps its history, from which the observations are read off: the commands submitted, the write traffic of the
  command machine, the words the response machine reads, and the events that the command server sees. \<open>sim_inv\<close> joins the
  invariants of the two components; \<open>live_rank\<close> is the measure that every tick lowers until the queue is empty.
\<close>

section \<open>Steps and executions\<close>

text \<open>A client's command is handled by one turn of the server thread; a clock tick is one call of \<open>tick\<close>. A failing operation has no
  step.\<close>

datatype 'cmd sim_event = Client 'cmd | Clock axi_in

inductive sim_step ::
  "('cmd, 'resp) axi_cfg \<Rightarrow> ('cmd, 'resp) axi_state \<Rightarrow> 'cmd sim_event \<Rightarrow> ('cmd, 'resp) axi_state \<Rightarrow> bool"
  for cfg where
    client: "sim_submit (cfg_ops cfg) c (srv s) = Inr t \<Longrightarrow> sim_step cfg s (Client c) (s\<lparr>srv := t\<rparr>)"
  | clock: "axi_tick cfg i s = Inr s' \<Longrightarrow> sim_step cfg s (Clock i) s'"

inductive_simps sim_step_simps:
  "sim_step cfg s (Client c) s'" "sim_step cfg s (Clock i) s'"

type_synonym ('cmd, 'resp) sim_trace =
  "(('cmd, 'resp) axi_state \<times> 'cmd sim_event \<times> ('cmd, 'resp) axi_state) list"

text \<open>An execution with the states before and after each step, and the function that computes one from its events.\<close>

inductive sim_exec ::
  "('cmd, 'resp) axi_cfg \<Rightarrow> ('cmd, 'resp) axi_state \<Rightarrow> ('cmd, 'resp) sim_trace \<Rightarrow> ('cmd, 'resp) axi_state \<Rightarrow> bool"
  for cfg s where
    exec_nil: "sim_exec cfg s [] s"
  | exec_snoc: "sim_exec cfg s tr s1 \<Longrightarrow> sim_step cfg s1 e s2 \<Longrightarrow> sim_exec cfg s (tr @ [(s1, e, s2)]) s2"

definition sim_apply ::
  "('cmd, 'resp) axi_cfg \<Rightarrow> 'cmd sim_event \<Rightarrow> ('cmd, 'resp) axi_state \<Rightarrow> ('cmd, 'resp) axi_state res" where
  "sim_apply cfg e s =
     (case e of
        Client c \<Rightarrow> rbind (sim_submit (cfg_ops cfg) c (srv s)) (\<lambda>t. Inr (s\<lparr>srv := t\<rparr>))
      | Clock i \<Rightarrow> axi_tick cfg i s)"

lemma sim_step_iff: "sim_step cfg s e s' \<longleftrightarrow> sim_apply cfg e s = Inr s'"
  by (cases e) (auto simp: sim_step_simps sim_apply_def res_simps)

fun sim_run :: "('cmd, 'resp) axi_cfg \<Rightarrow> 'cmd sim_event list \<Rightarrow> ('cmd, 'resp) axi_state
    \<Rightarrow> (('cmd, 'resp) sim_trace \<times> ('cmd, 'resp) axi_state) res" where
  "sim_run cfg [] s = Inr ([], s)"
| "sim_run cfg (e # es) s =
     rbind (sim_apply cfg e s) (\<lambda>s1.
     rbind (sim_run cfg es s1) (\<lambda>(tr, s2). Inr ((s, e, s1) # tr, s2)))"

lemma sim_exec_Cons:
  assumes "sim_exec cfg s1 tr s2" and "sim_step cfg s e s1"
  shows "sim_exec cfg s ((s, e, s1) # tr) s2"
  using assms
proof (induction rule: sim_exec.induct)
  case exec_nil
  from sim_exec.exec_snoc [OF sim_exec.exec_nil exec_nil] show ?case by simp
next
  case (exec_snoc tr t1 e' t2)
  from sim_exec.exec_snoc [OF exec_snoc.IH [OF exec_snoc.prems] exec_snoc.hyps(2)] show ?case by simp
qed

lemma sim_run_exec: "sim_run cfg es s = Inr (tr, s') \<Longrightarrow> sim_exec cfg s tr s'"
  by (induction es arbitrary: s tr)
    (auto simp: res_simps sim_step_iff intro: sim_exec.exec_nil sim_exec_Cons)

lemma sim_run_snoc:
  "sim_run cfg es s = Inr (tr, s1) \<Longrightarrow> sim_apply cfg e s1 = Inr s2 \<Longrightarrow>
     sim_run cfg (es @ [e]) s = Inr (tr @ [(s1, e, s2)], s2)"
  by (induction es arbitrary: s tr) (auto simp: res_simps)

text \<open>The function computes exactly the executions.\<close>

lemma sim_exec_iff_run: "sim_exec cfg s tr s' \<longleftrightarrow> sim_run cfg (map (\<lambda>(_, e, _). e) tr) s = Inr (tr, s')"
proof
  assume "sim_exec cfg s tr s'"
  then show "sim_run cfg (map (\<lambda>(_, e, _). e) tr) s = Inr (tr, s')"
    by (induction rule: sim_exec.induct) (simp_all add: sim_run_snoc sim_step_iff)
qed (rule sim_run_exec)

section \<open>What a step changes\<close>

lemma register_reponse_cmds: "register_reponse ops b s = Inr s' \<Longrightarrow> cmds s' = cmds s"
  by (rule register_reponse_Inr(3))

lemma response_step_frame:
  assumes "update_resp_state cfg i s = Inr s'"
  shows "ongoing_cmd s' = ongoing_cmd s \<and> ongoing_update s' = ongoing_update s \<and> cmds (srv s') = cmds (srv s)"
  using assms
  by (cases "rsp_st (ongoing_rsp s)")
    (auto simp: update_resp_state_def rsp_write_b_def Let_def set_rsp_st_def res_simps
      dest: register_reponse_cmds split: if_splits)

lemma update_step_frame:
  "srv (update_update_state cfg i s) = srv s"
  "cmd_st (ongoing_cmd (update_update_state cfg i s)) = cmd_st (ongoing_cmd s)"
  "cmdbuf (ongoing_cmd (update_update_state cfg i s)) = cmdbuf (ongoing_cmd s)"
  "cmd_progress (ongoing_cmd (update_update_state cfg i s)) = cmd_progress (ongoing_cmd s)"
  by (cases "ongoing_update s"; simp add: update_update_state_def Let_def set_rsp_st_def)+

lemma command_step_srv:
  assumes "update_command_state cfg i s = Inr s'" and "cmd_active s"
  shows "srv s' = srv s"
  using assms
  by (cases "cmd_st (ongoing_cmd s)")
    (auto simp: update_command_state_def cmd_active_def set_cmd_st_def Let_def res_simps split: if_splits)

text \<open>A tick while no command is sent either leaves the queue alone or takes its first command.\<close>

lemma idle_tick_cmd:
  assumes "\<not> cmd_active s" and "axi_tick cfg i s = Inr s'"
  obtains "\<not> cmd_active s'" "cmds (srv s') = cmds (srv s)"
  | c where "cmds (srv s) = c # cmds (srv s')" "cmd_active s'" "cmdbuf (ongoing_cmd s') = pack (cfg_ops cfg) c"
      "cmd_written hw (ongoing_cmd s') = []"
proof -
  from assms obtain s1 s2 where s1: "accept_command cfg i (clear_signals s) = Inr s1"
    and s2: "update_resp_state cfg i s1 = Inr s2" and s': "s' = update_update_state cfg i s2"
    by (auto simp: axi_tick_clear res_simps cmd_active_def update_command_state_def)
  note fr = response_step_frame [OF s2] update_step_frame [of cfg i s2, folded s']
  from s1 show ?thesis
  proof (cases rule: accept_command_cases)
    case 1
    with fr assms(1) show ?thesis by (intro that(1)) (simp_all add: cmd_active_def)
  next
    case (2 c cs)
    with fr show ?thesis
      by (intro that(2)) (simp_all add: cmd_active_def start_command_fields cmd_written_def)
  qed
qed

lemma active_tick_queue:
  assumes "axi_inv s" and "cmd_active s" and "axi_tick cfg i s = Inr s'"
  shows "cmds (srv s') = cmds (srv s)"
proof -
  from assms(3) obtain s1 where "update_command_state cfg i (clear_signals s) = Inr s1"
    and "s' = update_update_state cfg i s1" by (auto simp: axi_tick_cmd [OF assms(1,2)] res_simps)
  with command_step_srv [of cfg i "clear_signals s" s1] assms(2) show ?thesis
    by (simp add: update_step_frame cmd_active_def)
qed

section \<open>Commands\<close>

text \<open>What the accelerator sees of the commands: the write traffic of the ticks in which the command machine owns
  the bus; and the traffic one command makes.\<close>

fun submitted :: "('cmd, 'resp) sim_trace \<Rightarrow> 'cmd list" where
  "submitted [] = []"
| "submitted ((s, Client c, s') # tr) = c # submitted tr"
| "submitted ((s, Clock i, s') # tr) = submitted tr"

fun command_traffic :: "('cmd, 'resp) sim_trace \<Rightarrow> axi_event list" where
  "command_traffic [] = []"
| "command_traffic ((s, Client c, s') # tr) = command_traffic tr"
| "command_traffic ((s, Clock i, s') # tr) =
     (if cmd_active s then filter is_write (axi_events i s') else []) @ command_traffic tr"

definition command_writes :: "('cmd, 'resp) axi_cfg \<Rightarrow> 'cmd \<Rightarrow> axi_event list" where
  "command_writes cfg c = concat (map (word_writes (cfg_hw cfg)) (pack (cfg_ops cfg) c))"

lemma submitted_append [simp]: "submitted (xs @ ys) = submitted xs @ submitted ys"
  by (induction xs rule: submitted.induct) auto

lemma command_traffic_append [simp]: "command_traffic (xs @ ys) = command_traffic xs @ command_traffic ys"
  by (induction xs rule: command_traffic.induct) auto

lemma cmd_written_prefix:
  assumes "axi_inv s" and "cmd_active s"
  shows "prefix (cmd_written hw (ongoing_cmd s)) (concat (map (word_writes hw) (cmdbuf (ongoing_cmd s))))"
proof -
  let ?ws = "cmdbuf (ongoing_cmd s)" and ?n = "nat (cmd_progress (ongoing_cmd s))"
  have "?n < length ?ws" using assms by (auto simp: axi_inv_def bus_inv_def cmd_active_def split: if_splits)
  then have "concat (map (word_writes hw) ?ws) =
      concat (map (word_writes hw) (take ?n ?ws)) @ word_writes hw (?ws ! ?n) @ concat (map (word_writes hw) (drop (Suc ?n) ?ws))"
    by (metis concat.simps(2) concat_append id_take_nth_drop list.simps(9) map_append)
  then show ?thesis by (auto simp: cmd_written_def intro: prefix_prefix take_is_prefix)
qed

lemma cmd_written_complete:
  assumes "axi_inv s" and "\<not> cmd_active s" and "cmd_progress (ongoing_cmd s) = 5"
  shows "cmd_written hw (ongoing_cmd s) = concat (map (word_writes hw) (cmdbuf (ongoing_cmd s)))"
  using assms by (simp add: cmd_written_def cmd_active_def axi_inv_def)

text \<open>The state of the command machine at the end of a history of commands \<open>cs\<close> and traffic \<open>w\<close>.\<close>

definition command_history ::
  "('cmd, 'resp) axi_cfg \<Rightarrow> 'cmd list \<Rightarrow> axi_event list \<Rightarrow> ('cmd, 'resp) axi_state \<Rightarrow> bool" where
  "command_history cfg cs w s \<longleftrightarrow>
     (if cmd_active s
      then \<exists>fin c. cs = fin @ c # cmds (srv s) \<and> cmdbuf (ongoing_cmd s) = pack (cfg_ops cfg) c
        \<and> w = concat (map (command_writes cfg) fin) @ cmd_written (cfg_hw cfg) (ongoing_cmd s)
      else \<exists>fin. cs = fin @ cmds (srv s) \<and> w = concat (map (command_writes cfg) fin))"

lemma command_history_client:
  assumes "command_history cfg cs w s" and "sim_submit (cfg_ops cfg) c (srv s) = Inr t" and "\<not> csf_quit (srv s)"
  shows "command_history cfg (cs @ [c]) w (s\<lparr>srv := t\<rparr>)"
  using assms(1) sim_submit_Inr(1) [OF assms(2,3)]
  by (auto simp: command_history_def cmd_active_def split: if_splits)

lemma command_history_clock:
  assumes h: "command_history cfg cs w s" and inv: "axi_inv s" and "pack_ok (cfg_ops cfg)" and t: "axi_tick cfg i s = Inr s'"
  shows "command_history cfg cs (w @ (if cmd_active s then filter is_write (axi_events i s') else [])) s'"
proof (cases "cmd_active s")
  case True
  note w = axi_tick_written [OF inv True t] and q = active_tick_queue [OF inv True t]
  from h True obtain fin c where f: "cs = fin @ c # cmds (srv s)" "cmdbuf (ongoing_cmd s) = pack (cfg_ops cfg) c"
    "w = concat (map (command_writes cfg) fin) @ cmd_written (cfg_hw cfg) (ongoing_cmd s)"
    by (auto simp: command_history_def)
  show ?thesis
  proof (cases "cmd_active s'")
    case True
    with f w q \<open>cmd_active s\<close> show ?thesis by (auto simp: command_history_def)
  next
    case False
    have "cmd_written (cfg_hw cfg) (ongoing_cmd s') = command_writes cfg c"
      using cmd_written_complete [OF axi_tick_inv [OF inv assms(3) t] False w(3) [OF False]] w(1) f(2)
      by (simp add: command_writes_def)
    then have "cs = (fin @ [c]) @ cmds (srv s')
        \<and> w @ filter is_write (axi_events i s') = concat (map (command_writes cfg) (fin @ [c]))"
      using f w(2) q by simp
    with False \<open>cmd_active s\<close> show ?thesis unfolding command_history_def by metis
  qed
next
  case False
  with h obtain fin where "cs = fin @ cmds (srv s)" "w = concat (map (command_writes cfg) fin)"
    by (auto simp: command_history_def)
  with False t show ?thesis
    by (cases rule: idle_tick_cmd [OF False t, where hw = "cfg_hw cfg"]) (auto simp: command_history_def)
qed

section \<open>Invariant\<close>

definition sim_inv :: "('cmd, 'resp) axi_cfg \<Rightarrow> ('cmd, 'resp) axi_state \<Rightarrow> bool" where
  "sim_inv cfg s \<longleftrightarrow> axi_inv s \<and> rsp_addr_ok (cfg_hw cfg) s \<and> slots_inv (srv s) \<and> \<not> csf_quit (srv s)"

text \<open>A tick while no response is collected changes the server's state only where a command is taken from it, and leaves the
  machine inactive or about to read the first word.\<close>

definition cmd_taken :: "('cmd, 'resp) cmd_state \<Rightarrow> ('cmd, 'resp) cmd_state \<Rightarrow> bool" where
  "cmd_taken t t' \<longleftrightarrow> (\<exists>k q. t' = t\<lparr>kill_sig := k, cmds := q\<rparr>)"

lemma cmd_taken_refl: "cmd_taken t t"
  unfolding cmd_taken_def by (rule exI [of _ "kill_sig t"], rule exI [of _ "cmds t"]) simp

lemma command_step_taken:
  assumes "update_command_state cfg i s = Inr s'"
  shows "cmd_taken (srv s) (srv s')"
proof (cases "cmd_active s")
  case True
  with command_step_srv [OF assms] show ?thesis by (simp add: cmd_taken_refl)
next
  case False
  with assms have "accept_command cfg i s = Inr s'" by (simp add: cmd_active_def update_command_state_def)
  then show ?thesis
    by (cases rule: accept_command_cases) (auto simp: cmd_taken_refl start_command_def Let_def cmd_taken_def)
qed

lemma update_step_rsp:
  "rsp_st (ongoing_rsp s) = RESPT_INACTIVE \<Longrightarrow>
     rsp_st (ongoing_rsp (update_update_state cfg i s)) = RESPT_INACTIVE
     \<or> rsp_st (ongoing_rsp (update_update_state cfg i s)) = RESPT_BITS_ADDR
       \<and> rsp_words_read (ongoing_rsp (update_update_state cfg i s)) = []"
  by (cases "ongoing_update s"; simp add: update_update_state_def Let_def set_rsp_st_def rsp_words_read_def)

lemma idle_tick_rsp:
  assumes "\<not> rsp_active s" and "axi_tick cfg i s = Inr s'"
  shows "cmd_taken (srv s) (srv s')" and "rsp_addr_ok hw s'" and "rsp_active s' \<longrightarrow> rsp_words_read (ongoing_rsp s') = []"
proof -
  from assms(2) obtain s1 s2 where s1: "update_command_state cfg i (clear_signals s) = Inr s1"
    and s2: "update_resp_state cfg i s1 = Inr s2" and s': "s' = update_update_state cfg i s2"
    by (auto simp: axi_tick_clear res_simps)
  have i1: "rsp_st (ongoing_rsp s1) = RESPT_INACTIVE"
    using assms(1) command_step_rsp(1) [OF s1] by (simp add: rsp_active_def)
  then have "s2 = s1" using s2 by (simp add: update_resp_state_def)
  with i1 update_step_rsp [of s1 cfg i] command_step_taken [OF s1]
  show "cmd_taken (srv s) (srv s')" and "rsp_addr_ok hw s'" and "rsp_active s' \<longrightarrow> rsp_words_read (ongoing_rsp s') = []"
    by (auto simp: s' update_step_frame rsp_addr_ok_def rsp_active_def)
qed

lemma slots_inv_taken:
  assumes "cmd_taken t t'"
  shows "slots_inv t' = slots_inv t"
proof -
  from assms obtain k q where t': "t' = t\<lparr>kill_sig := k, cmds := q\<rparr>" by (auto simp: cmd_taken_def)
  have "free_slots t' = free_slots t" "slot_ok t' = slot_ok t"
    by (simp_all add: t' free_slots_def slot_ok_def fun_eq_iff)
  then show ?thesis by (simp add: slots_inv_def t')
qed

lemma sim_inv_step:
  assumes "sim_step cfg s e s'" and "sim_inv cfg s" and "pack_ok (cfg_ops cfg)"
    and "RESP_BITS (cfg_hw cfg) \<noteq> RESP_VALID (cfg_hw cfg)"
  shows "sim_inv cfg s'"
  using assms(1)
proof cases
  case (client c t)
  have q: "\<not> csf_quit (srv s)" and "slots_inv (srv s)" using assms(2) by (simp_all add: sim_inv_def)
  from slots_inv_submit [OF this(2) client(3) q] sim_submit_Inr(2) [OF client(3) q] assms(2) client(2) q
  show ?thesis by (simp add: sim_inv_def axi_inv_def rsp_addr_ok_def)
next
  case (clock i)
  have inv: "axi_inv s'" using axi_tick_inv [OF _ assms(3) clock(2)] assms(2) by (simp add: sim_inv_def)
  show ?thesis
  proof (cases "rsp_active s")
    case True
    note w = axi_tick_rsp_words [OF _ True _ assms(4) clock(2)]
    show ?thesis
      using assms(2) inv w(1,3) slots_inv_respond register_reponse_Inr(1)
      by (fastforce simp: sim_inv_def split: if_splits)
  next
    case False
    note f = idle_tick_rsp [OF False clock(2)]
    from f(1) have "csf_quit (srv s') = csf_quit (srv s)" by (auto simp: cmd_taken_def)
    with assms(2) inv f(2) slots_inv_taken [OF f(1)] show ?thesis by (simp add: sim_inv_def)
  qed
qed

lemma sim_inv_exec:
  assumes "sim_exec cfg s tr s'" and "sim_inv cfg s" and "pack_ok (cfg_ops cfg)"
    and "RESP_BITS (cfg_hw cfg) \<noteq> RESP_VALID (cfg_hw cfg)"
  shows "sim_inv cfg s'"
  using assms by (induction rule: sim_exec.induct) (auto intro: sim_inv_step)

lemma command_history_exec:
  assumes "sim_exec cfg s tr s'" and "sim_inv cfg s" and "pack_ok (cfg_ops cfg)"
    and "RESP_BITS (cfg_hw cfg) \<noteq> RESP_VALID (cfg_hw cfg)" and "\<not> cmd_active s"
  shows "command_history cfg (cmds (srv s) @ submitted tr) (command_traffic tr) s'"
  using assms
proof (induction rule: sim_exec.induct)
  case exec_nil
  then show ?case by (simp add: command_history_def)
next
  case (exec_snoc tr s1 e s2)
  have inv: "sim_inv cfg s1" using sim_inv_exec [OF exec_snoc.hyps(1)] exec_snoc.prems by blast
  note IH = exec_snoc.IH [OF exec_snoc.prems]
  from exec_snoc.hyps(2) show ?case
  proof cases
    case (client c t)
    with command_history_client [OF IH client(3)] inv show ?thesis by (simp add: sim_inv_def)
  next
    case (clock i)
    from command_history_clock [OF IH _ exec_snoc.prems(2) clock(2)] inv clock(1) show ?thesis
      by (auto simp: sim_inv_def)
  qed
qed

section \<open>Responses\<close>

text \<open>The events of the command server that an execution amounts to, and the words that the response machine reads.\<close>

fun server_events :: "('cmd, 'resp) sim_trace \<Rightarrow> 'cmd cs_event list" where
  "server_events [] = []"
| "server_events ((s, Client c, s') # tr) = Submit c # server_events tr"
| "server_events ((s, Clock i, s') # tr) =
     (if rsp_active s \<and> \<not> rsp_active s' then [Respond (resbuf (ongoing_rsp s'))] else []) @ server_events tr"

fun words_read :: "hw_map \<Rightarrow> ('cmd, 'resp) sim_trace \<Rightarrow> u32 list" where
  "words_read hw [] = []"
| "words_read hw ((s, Client c, s') # tr) = words_read hw tr"
| "words_read hw ((s, Clock i, s') # tr) =
     (if rsp_active s then resp_words hw (axi_events i s') else []) @ words_read hw tr"

fun response_buffers :: "'cmd cs_event list \<Rightarrow> u32 list list" where
  "response_buffers [] = []"
| "response_buffers (Submit c # es) = response_buffers es"
| "response_buffers (Respond b # es) = b # response_buffers es"

lemma server_events_append [simp]: "server_events (xs @ ys) = server_events xs @ server_events ys"
  by (induction xs rule: server_events.induct) auto

lemma words_read_append [simp]: "words_read hw (xs @ ys) = words_read hw xs @ words_read hw ys"
  by (induction xs rule: words_read.induct) auto

lemma response_buffers_append [simp]: "response_buffers (xs @ ys) = response_buffers xs @ response_buffers ys"
  by (induction xs rule: response_buffers.induct) auto

lemma cs_run_append:
  assumes "cs_run ops es s = Inr (tr, fin, s1)" and "cs_run ops es' s1 = Inr (tr', fin', s2)"
  shows "cs_run ops (es @ es') s = Inr (tr @ tr', fin @ fin', s2)"
  using assms(1)
proof (induction es arbitrary: s tr fin)
  case Nil
  with assms(2) show ?case by simp
next
  case (Cons e es)
  then show ?case by (cases e) (auto simp: res_simps split: option.splits)
qed

text \<open>The server does not look at the two fields that taking a command changes.\<close>

lemma sim_submit_taken:
  assumes "cmd_taken t u" and "sim_submit ops c u = Inr u'" and "\<not> csf_quit u"
  shows "\<exists>t'. sim_submit ops c t = Inr t' \<and> cmd_taken t' u'"
proof -
  from assms(1) obtain k q where u: "u = t\<lparr>kill_sig := k, cmds := q\<rparr>" by (auto simp: cmd_taken_def)
  have "sim_submit ops c u = rbind (sim_submit ops c t) (\<lambda>t'. Inr (t'\<lparr>kill_sig := k, cmds := q @ [c]\<rparr>))"
    using assms(3) by (simp add: u cmd_server_defs Let_def q_push_def mutex_lock_def nth_res_def)
  with assms(2) show ?thesis by (auto simp: res_simps cmd_taken_def)
qed

lemma register_reponse_taken:
  assumes "cmd_taken t u" and "register_reponse ops b u = Inr u'"
  shows "\<exists>t'. register_reponse ops b t = Inr t' \<and> cmd_taken t' u'"
proof -
  from assms(1) obtain k q where u: "u = t\<lparr>kill_sig := k, cmds := q\<rparr>" by (auto simp: cmd_taken_def)
  have "register_reponse ops b u = rbind (register_reponse ops b t) (\<lambda>t'. Inr (t'\<lparr>kill_sig := k, cmds := q\<rparr>))"
  proof (cases "in_flight t (resp_key ops b)")
    case None
    then show ?thesis by (simp add: u register_reponse_def resp_key_def Let_def mutex_lock_def)
  next
    case (Some rs)
    then show ?thesis
      by (cases rs) (simp_all add: u register_reponse_def resp_key_def Let_def mutex_lock_def upd_res_def)
  qed
  with assms(2) show ?thesis by (auto simp: res_simps cmd_taken_def)
qed

lemma cmd_taken_trans:
  assumes "cmd_taken t u" and "cmd_taken u v"
  shows "cmd_taken t v"
proof -
  from assms obtain k q where "v = t\<lparr>kill_sig := k, cmds := q\<rparr>" by (auto simp: cmd_taken_def)
  then show ?thesis unfolding cmd_taken_def by blast
qed

definition response_history ::
  "('cmd, 'resp) axi_cfg \<Rightarrow> ('cmd, 'resp) cmd_state \<Rightarrow> 'cmd cs_event list \<Rightarrow> u32 list \<Rightarrow> ('cmd, 'resp) axi_state \<Rightarrow> bool" where
  "response_history cfg t es ws s \<longleftrightarrow>
     (\<exists>tr fin u. cs_run (cfg_ops cfg) es t = Inr (tr, fin, u) \<and> cmd_taken u (srv s))
     \<and> ws = concat (response_buffers es) @ (if rsp_active s then rsp_words_read (ongoing_rsp s) else [])"

lemma response_history_client:
  assumes "response_history cfg t es ws s" and "sim_submit (cfg_ops cfg) c (srv s) = Inr v" and "\<not> csf_quit (srv s)"
  shows "response_history cfg t (es @ [Submit c]) ws (s\<lparr>srv := v\<rparr>)"
proof -
  from assms(1) obtain tr fin u where r: "cs_run (cfg_ops cfg) es t = Inr (tr, fin, u)" and u: "cmd_taken u (srv s)"
    and ws: "ws = concat (response_buffers es) @ (if rsp_active s then rsp_words_read (ongoing_rsp s) else [])"
    by (auto simp: response_history_def)
  from sim_submit_taken [OF u assms(2,3)] obtain u' where "sim_submit (cfg_ops cfg) c u = Inr u'" "cmd_taken u' v" by blast
  with cs_run_append [OF r, of "[Submit c]"] ws show ?thesis by (auto simp: response_history_def rsp_active_def)
qed

lemma response_history_clock:
  assumes "response_history cfg t es ws s" and "sim_inv cfg s" and "pack_ok (cfg_ops cfg)"
    and "RESP_BITS (cfg_hw cfg) \<noteq> RESP_VALID (cfg_hw cfg)" and "axi_tick cfg i s = Inr s'"
  shows "response_history cfg t (es @ server_events [(s, Clock i, s')]) (ws @ words_read (cfg_hw cfg) [(s, Clock i, s')]) s'"
proof -
  from assms(1) obtain tr fin u where r: "cs_run (cfg_ops cfg) es t = Inr (tr, fin, u)" and u: "cmd_taken u (srv s)"
    and ws: "ws = concat (response_buffers es) @ (if rsp_active s then rsp_words_read (ongoing_rsp s) else [])"
    by (auto simp: response_history_def)
  have inv: "axi_inv s" "rsp_addr_ok (cfg_hw cfg) s" using assms(2) by (simp_all add: sim_inv_def)
  show ?thesis
  proof (cases "rsp_active s")
    case False
    note f = idle_tick_rsp [OF False assms(5)]
    from r cmd_taken_trans [OF u f(1)] f(3) ws False show ?thesis by (auto simp: response_history_def)
  next
    case True
    note w = axi_tick_rsp_words [OF inv(1) True inv(2) assms(4,5)]
    show ?thesis
    proof (cases "rsp_active s'")
      case act: True
      with r u w(2,3) ws True show ?thesis by (auto simp: response_history_def)
    next
      case False
      let ?b = "resbuf (ongoing_rsp s')"
      from False w(3) have reg: "register_reponse (cfg_ops cfg) ?b (srv s) = Inr (srv s')"
        and p: "rsp_progress (ongoing_rsp s') = 3" by simp_all
      from register_reponse_taken [OF u reg] obtain u' where u': "register_reponse (cfg_ops cfg) ?b u = Inr u'" "cmd_taken u' (srv s')"
        by blast
      have "\<exists>tr2 fin2. cs_run (cfg_ops cfg) [Respond ?b] u = Inr (tr2, fin2, u')"
        using u'(1) by (auto split: option.splits)
      moreover have "rsp_words_read (ongoing_rsp s') = ?b"
        using p axi_tick_inv [OF inv(1) assms(3,5)] by (simp add: rsp_words_read_def axi_inv_def)
      ultimately show ?thesis
        using cs_run_append [OF r] u'(2) ws True False w(2) by (fastforce simp: response_history_def)
    qed
  qed
qed

lemma response_history_exec:
  assumes "sim_exec cfg s tr s'" and "sim_inv cfg s" and "pack_ok (cfg_ops cfg)"
    and "RESP_BITS (cfg_hw cfg) \<noteq> RESP_VALID (cfg_hw cfg)" and "\<not> rsp_active s"
  shows "response_history cfg (srv s) (server_events tr) (words_read (cfg_hw cfg) tr) s'"
  using assms
proof (induction rule: sim_exec.induct)
  case exec_nil
  then show ?case by (simp add: response_history_def cmd_taken_refl)
next
  case (exec_snoc tr s1 e s2)
  have inv: "sim_inv cfg s1" using sim_inv_exec [OF exec_snoc.hyps(1)] exec_snoc.prems by blast
  note IH = exec_snoc.IH [OF exec_snoc.prems]
  from exec_snoc.hyps(2) show ?case
  proof cases
    case (client c t)
    with response_history_client [OF IH client(3)] inv show ?thesis by (simp add: sim_inv_def)
  next
    case (clock i)
    from response_history_clock [OF IH inv exec_snoc.prems(2,3) clock(2)] clock(1) show ?thesis by simp
  qed
qed

section \<open>Progress\<close>

text \<open>An accelerator that accepts every transfer, says it is ready for commands and has no response. The answers to reads are for the
  address that was read last.\<close>

definition accepts :: "axi_in \<Rightarrow> bool" where
  "accepts i \<longleftrightarrow> aw_ready i \<and> w_ready i \<and> b_valid i \<and> ar_ready i \<and> r_valid i"

definition responsive :: "('cmd, 'resp) axi_cfg \<Rightarrow> ('cmd, 'resp) axi_state \<Rightarrow> axi_in \<Rightarrow> bool" where
  "responsive cfg s i \<longleftrightarrow> accepts i
     \<and> (ar_addr s = CMD_READY (cfg_hw cfg) \<longrightarrow> r_data i \<noteq> 0)
     \<and> (ar_addr s = RESP_VALID (cfg_hw cfg) \<longrightarrow> r_data i = 0)"

definition pending_read :: "('cmd, 'resp) axi_cfg \<Rightarrow> ('cmd, 'resp) axi_state \<Rightarrow> bool" where
  "pending_read cfg s \<longleftrightarrow>
     (cmd_st (ongoing_cmd s) = CMD_RECHECK_READY_DAT \<or> ongoing_update s = UPDATE_CMD_WAIT \<longrightarrow> ar_addr s = CMD_READY (cfg_hw cfg))
     \<and> (ongoing_update s = UPDATE_RESP_WAIT \<longrightarrow> ar_addr s = RESP_VALID (cfg_hw cfg))"

definition live_inv :: "('cmd, 'resp) axi_cfg \<Rightarrow> ('cmd, 'resp) axi_state \<Rightarrow> bool" where
  "live_inv cfg s \<longleftrightarrow> axi_inv s \<and> \<not> rsp_active s \<and> \<not> cmdserverlock (srv s) \<and> 0 \<le> check_freq_ctr s
     \<and> (bus_occupied s \<longrightarrow> cmd_active s \<or> upd_active s) \<and> pending_read cfg s"

text \<open>The number of ticks until the next command is taken: both polls wait for the counter, and reading a flag takes two ticks.\<close>

definition poll_rank :: "('cmd, 'resp) axi_state \<Rightarrow> nat" where
  "poll_rank s =
     (let ready = ready_for_command (ongoing_cmd s); w = nat (51 - check_freq_ctr s)
      in case ongoing_update s of
           UPDATE_IDLE_CMD \<Rightarrow> if ready then 1 else w + 4
         | UPDATE_IDLE_RESP \<Rightarrow> if ready then 1 else w + 58
         | UPDATE_CMD_ADDR \<Rightarrow> 3
         | UPDATE_CMD_WAIT \<Rightarrow> 2
         | UPDATE_RESP_ADDR \<Rightarrow> 2 + (if ready then 1 else w + 4)
         | UPDATE_RESP_WAIT \<Rightarrow> 1 + (if ready then 1 else w + 4))"

definition live_rank :: "('cmd, 'resp) axi_state \<Rightarrow> nat" where
  "live_rank s =
     (if cmd_active s then cmd_ticks_left (ongoing_cmd s) + 148 * length (cmds (srv s))
      else if cmds (srv s) = [] then 0
      else poll_rank s + 38 + 148 * (length (cmds (srv s)) - 1))"

lemma poll_rank_bound: "0 \<le> check_freq_ctr s \<Longrightarrow> poll_rank s \<le> 109"
  by (cases "ongoing_update s") (auto simp: poll_rank_def Let_def)

lemma command_step_live:
  assumes "accepts i" and "cmd_st (ongoing_cmd s) = CMD_RECHECK_READY_DAT \<Longrightarrow> r_data i \<noteq> 0"
    and "cmd_st (ongoing_cmd s) \<noteq> CMD_INACTIVE"
    and "0 \<le> cmd_progress (ongoing_cmd s)" "cmd_progress (ongoing_cmd s) \<le> 4"
    and "length (cmdbuf (ongoing_cmd s)) = 5"
  shows "case update_command_state cfg i s of
      Inl e \<Rightarrow> False
    | Inr s' \<Rightarrow> Suc (cmd_ticks_left (ongoing_cmd s')) = cmd_ticks_left (ongoing_cmd s)
        \<and> (cmd_st (ongoing_cmd s') = CMD_RECHECK_READY_DAT \<longrightarrow> ar_addr s' = CMD_READY (cfg_hw cfg))
        \<and> (bus_occupied s' \<longrightarrow> bus_occupied s)
        \<and> (bus_occupied s' \<longrightarrow> cmd_st (ongoing_cmd s') \<noteq> CMD_INACTIVE)
        \<and> check_freq_ctr s' = check_freq_ctr s"
proof -
  let ?c = "ongoing_cmd s"
  have nth: "nth_res (cmdbuf ?c) (cmd_progress ?c) = Inr (cmdbuf ?c ! nat (cmd_progress ?c))"
    using assms(4-6) by (simp add: nth_res_def)
  show ?thesis
    using assms(1-5)
    by (cases "cmd_st ?c")
      (simp_all add: update_command_state_def set_st_defs Let_def nth accepts_def cmd_ticks_left_def
        cmd_payload_length_def, arith)
qed

lemma update_idle_cases:
  assumes "update_idle (ongoing_update s)"
  obtains (poll) "\<not> bus_occupied s" "check_freq < check_freq_ctr s"
      "update_update_state cfg i s = s\<lparr>check_freq_ctr := 0, bus_occupied := True,
        ongoing_update := if ongoing_update s = UPDATE_IDLE_RESP then UPDATE_RESP_ADDR else UPDATE_CMD_ADDR\<rparr>"
  | (wait) "bus_occupied s \<or> check_freq_ctr s \<le> check_freq"
      "update_update_state cfg i s = s\<lparr>check_freq_ctr := check_freq_ctr s + 1\<rparr>"
proof (cases "\<not> bus_occupied s \<and> check_freq < check_freq_ctr s")
  case True
  with assms show ?thesis
    by (intro poll) (cases "ongoing_update s"; simp add: update_update_state_def)+
next
  case False
  then show ?thesis
  proof (intro wait)
    show "update_update_state cfg i s = s\<lparr>check_freq_ctr := check_freq_ctr s + 1\<rparr>"
      using assms by (cases "ongoing_update s")
        (simp_all only: update_update_state_def update_state.case if_not_P [OF False] update_idle.simps)
  qed auto
qed

lemma update_idle_live:
  assumes "update_idle (ongoing_update s)" and "0 \<le> check_freq_ctr s"
  shows "0 \<le> check_freq_ctr (update_update_state cfg i s)"
    and "ar_addr (update_update_state cfg i s) = ar_addr s"
    and "ongoing_update (update_update_state cfg i s) \<notin> {UPDATE_CMD_WAIT, UPDATE_RESP_WAIT}"
    and "bus_occupied (update_update_state cfg i s) \<Longrightarrow> bus_occupied s \<or> upd_active (update_update_state cfg i s)"
  by (cases rule: update_idle_cases [OF assms(1), where cfg = cfg and i = i];
      use assms in \<open>auto simp: upd_active_def\<close>)+

lemma live_active:
  assumes "live_inv cfg s" and "cmd_active s" and "responsive cfg s i" and "pack_ok (cfg_ops cfg)"
  obtains s' where "axi_tick cfg i s = Inr s'" "live_inv cfg s'" "live_rank s' < live_rank s"
proof -
  have inv: "axi_inv s" and st: "cmd_st (ongoing_cmd s) \<noteq> CMD_INACTIVE" "0 \<le> cmd_progress (ongoing_cmd s)"
    "cmd_progress (ongoing_cmd s) \<le> 4" "length (cmdbuf (ongoing_cmd s)) = 5"
    and rd: "cmd_st (ongoing_cmd s) = CMD_RECHECK_READY_DAT \<Longrightarrow> r_data i \<noteq> 0" and acc: "accepts i"
    and idle: "update_idle (ongoing_update s)" and ctr: "0 \<le> check_freq_ctr s"
    using assms(1-3)
    by (auto simp: live_inv_def axi_inv_def bus_inv_def cmd_active_def responsive_def pending_read_def split: if_splits)
  let ?u = "clear_signals s"
  from command_step_live [where s = ?u and cfg = cfg, OF acc] st rd obtain s1 where s1: "update_command_state cfg i ?u = Inr s1"
    and k: "Suc (cmd_ticks_left (ongoing_cmd s1)) = cmd_ticks_left (ongoing_cmd s)"
    and f: "cmd_st (ongoing_cmd s1) = CMD_RECHECK_READY_DAT \<longrightarrow> ar_addr s1 = CMD_READY (cfg_hw cfg)"
      "bus_occupied s1 \<longrightarrow> cmd_st (ongoing_cmd s1) \<noteq> CMD_INACTIVE" "check_freq_ctr s1 = check_freq_ctr ?u"
    by (auto split: sum.splits)
  let ?s = "update_update_state cfg i s1"
  have t: "axi_tick cfg i s = Inr ?s" by (simp add: axi_tick_cmd [OF inv assms(2)] s1)
  have "update_idle (ongoing_update s1)" "0 \<le> check_freq_ctr s1"
    using idle ctr f(3) command_step_rsp(2) [OF s1] by (simp_all add: clear_signals_def)
  note u = update_idle_live [OF this, where cfg = cfg and i = i] update_idle_fields [OF this(1), where cfg = cfg and i = i]
  have srv: "srv ?s = srv s"
    using command_step_srv [OF s1] assms(2) u(7) by (simp add: cmd_active_def)
  have r: "ongoing_rsp ?s = ongoing_rsp s" using command_step_rsp(1) [OF s1] u(6) by simp
  have "live_inv cfg ?s"
    using axi_tick_inv [OF inv assms(4) t] assms(1) u(1-5) f(1,2) srv r
    by (auto simp: live_inv_def rsp_active_def cmd_active_def pending_read_def)
  moreover have "live_rank ?s < live_rank s"
  proof (cases "cmd_active ?s")
    case True
    with assms(2) k u(5) srv show ?thesis by (simp add: live_rank_def)
  next
    case False
    then have "cmd_ticks_left (ongoing_cmd s) = 1" using k u(5) by (simp add: cmd_ticks_left_def cmd_active_def)
    with False assms(2) poll_rank_bound [OF u(1)] srv show ?thesis
      by (cases "cmds (srv s)") (simp_all add: live_rank_def)
  qed
  ultimately show ?thesis using t by (intro that)
qed

lemma live_idle_poll:
  assumes "live_inv cfg s" and "\<not> cmd_active s" and "responsive cfg s i" and "pack_ok (cfg_ops cfg)"
    and "cmds (srv s) = [] \<or> \<not> (ready_for_command (ongoing_cmd s) \<and> update_idle (ongoing_update s))"
  obtains s' where "axi_tick cfg i s = Inr s'" "live_inv cfg s'" "\<not> cmd_active s'" "srv s' = srv s"
    "cmds (srv s) \<noteq> [] \<Longrightarrow> poll_rank s' < poll_rank s"
proof -
  have inv: "axi_inv s" "\<not> rsp_active s" "\<not> cmdserverlock (srv s)" "0 \<le> check_freq_ctr s"
    and occ: "bus_occupied s \<Longrightarrow> \<not> update_idle (ongoing_update s)" and acc: "accepts i"
    and rd: "ongoing_update s = UPDATE_CMD_WAIT \<Longrightarrow> r_data i \<noteq> 0" "ongoing_update s = UPDATE_RESP_WAIT \<Longrightarrow> r_data i = 0"
    using assms(1-3) by (auto simp: live_inv_def upd_active_def responsive_def pending_read_def)
  let ?u = "clear_signals s"
  have a: "accept_command cfg i ?u = Inr ?u"
    using assms(5) inv(3) by (auto simp: accept_command_def mutex_lock_def split: list.split)
  have t: "axi_tick cfg i s = Inr (update_update_state cfg i ?u)" (is "_ = Inr ?s")
    using assms(2) inv(2) a
    by (simp add: axi_tick_clear update_command_state_def update_resp_state_def cmd_active_def rsp_active_def)
  have st: "cmd_st (ongoing_cmd s) = CMD_INACTIVE" "rsp_st (ongoing_rsp s) = RESPT_INACTIVE"
    using assms(2) inv(2) by (simp_all add: cmd_active_def rsp_active_def)
  have ctr: "check_freq_ctr ?u = check_freq_ctr s" by (simp add: clear_signals_def)
  have "live_inv cfg ?s"
    using axi_tick_inv [OF inv(1) assms(4) t] inv(3,4) occ rd st acc ctr
    by (cases "ongoing_update s")
      (auto simp: live_inv_def update_update_state_def upd_active_def cmd_active_def rsp_active_def pending_read_def
        accepts_def set_rsp_st_def Let_def)
  moreover have "poll_rank ?s < poll_rank s" if "cmds (srv s) \<noteq> []"
    using that assms(5) inv(4) occ rd acc ctr
    by (cases "ongoing_update s")
      (auto simp: poll_rank_def update_update_state_def accepts_def set_rsp_st_def Let_def check_freq_def)
  ultimately show ?thesis
    using t st by (intro that) (simp_all add: update_step_frame cmd_active_def)
qed

lemma live_idle_accept:
  assumes "live_inv cfg s" and "\<not> cmd_active s" and "pack_ok (cfg_ops cfg)" and q: "cmds (srv s) = c # cs"
    and rdy: "ready_for_command (ongoing_cmd s)" and idle: "update_idle (ongoing_update s)"
  obtains s' where "axi_tick cfg i s = Inr s'" "live_inv cfg s'" "live_rank s' < live_rank s"
proof -
  have inv: "axi_inv s" "\<not> rsp_active s" "\<not> cmdserverlock (srv s)" "0 \<le> check_freq_ctr s" and occ: "\<not> bus_occupied s"
    using assms(1,2) idle by (auto simp: live_inv_def upd_active_def)
  let ?u = "start_command cfg i c cs (clear_signals s)"
  have "accept_command cfg i (clear_signals s) = Inr ?u"
    using inv(3) q rdy idle occ by (cases "ongoing_update s") (simp_all add: accept_command_def mutex_lock_def)
  then have t: "axi_tick cfg i s = Inr (update_update_state cfg i ?u)" (is "_ = Inr ?s")
    using assms(2) inv(2)
    by (simp add: axi_tick_clear update_command_state_def update_resp_state_def cmd_active_def rsp_active_def start_command_fields)
  have u: "update_idle (ongoing_update ?u)" "0 \<le> check_freq_ctr ?u" "\<not> cmdserverlock (srv ?u)" "cmds (srv ?u) = cs"
    using idle inv(3,4) by (simp_all add: start_command_def Let_def clear_signals_def)
  note f = update_idle_live [OF u(1,2), where cfg = cfg and i = i] update_idle_fields [OF u(1), where cfg = cfg and i = i]
  have act: "cmd_st (ongoing_cmd ?s) = CMD_BITS_WRITE_ADDR" "cmd_progress (ongoing_cmd ?s) = 0"
    by (simp_all add: f(5) start_command_fields)
  have "live_inv cfg ?s"
    using axi_tick_inv [OF inv(1) assms(3) t] inv(2) f(1-4,6,7) act u(3)
    by (auto simp: live_inv_def rsp_active_def cmd_active_def pending_read_def start_command_fields)
  moreover have "cmd_ticks_left (ongoing_cmd ?s) = 38" using act by (simp add: cmd_ticks_left_def)
  then have "live_rank ?s < live_rank s"
    using assms(2) act(1) idle rdy u(4) f(7) q
    by (cases "ongoing_update s") (simp_all add: live_rank_def cmd_active_def poll_rank_def Let_def)
  ultimately show ?thesis using t by (intro that)
qed

lemma live_step:
  assumes "live_inv cfg s" and "responsive cfg s i" and "pack_ok (cfg_ops cfg)"
  obtains s' where "axi_tick cfg i s = Inr s'" "live_inv cfg s'" "live_rank s' \<le> live_rank s - 1"
proof (cases "cmd_active s")
  case True
  from live_active [OF assms(1) True assms(2,3)] that show ?thesis by (metis Suc_pred' less_Suc_eq_le less_nat_zero_code neq0_conv)
next
  case False
  show ?thesis
  proof (cases "cmds (srv s) = [] \<or> \<not> (ready_for_command (ongoing_cmd s) \<and> update_idle (ongoing_update s))")
    case True
    from live_idle_poll [OF assms(1) False assms(2,3) True] obtain s' where
      s': "axi_tick cfg i s = Inr s'" "live_inv cfg s'" "\<not> cmd_active s'" "srv s' = srv s"
      "cmds (srv s) \<noteq> [] \<Longrightarrow> poll_rank s' < poll_rank s" by blast
    then have "live_rank s' \<le> live_rank s - 1" using False by (cases "cmds (srv s) = []") (auto simp: live_rank_def)
    with s'(1,2) show ?thesis by (rule that)
  next
    case acc: False
    then obtain c cs where q: "cmds (srv s) = c # cs" by (cases "cmds (srv s)") auto
    from live_idle_accept [OF assms(1) False assms(3) q] acc obtain s' where
      "axi_tick cfg i s = Inr s'" "live_inv cfg s'" "live_rank s' < live_rank s" by blast
    then show ?thesis by (intro that) auto
  qed
qed

text \<open>A run of clock ticks against an accelerator that answers according to the state of the bus.\<close>

fun sim_ticks :: "('cmd, 'resp) axi_cfg \<Rightarrow> (('cmd, 'resp) axi_state \<Rightarrow> axi_in) \<Rightarrow> nat \<Rightarrow> ('cmd, 'resp) axi_state
    \<Rightarrow> (('cmd, 'resp) sim_trace \<times> ('cmd, 'resp) axi_state) res" where
  "sim_ticks cfg accel 0 s = Inr ([], s)"
| "sim_ticks cfg accel (Suc n) s =
     rbind (axi_tick cfg (accel s) s) (\<lambda>s1.
     rbind (sim_ticks cfg accel n s1) (\<lambda>(tr, s2). Inr ((s, Clock (accel s), s1) # tr, s2)))"

lemma sim_ticks_exec:
  "sim_ticks cfg accel n s = Inr (tr, s') \<Longrightarrow> sim_exec cfg s tr s' \<and> submitted tr = []"
  by (induction n arbitrary: s tr) (auto simp: res_simps intro: sim_exec.exec_nil sim_exec_Cons sim_step.clock)

lemma sim_ticks_live:
  assumes "\<And>s. responsive cfg s (accel s)" and "pack_ok (cfg_ops cfg)" and "live_inv cfg s"
  shows "\<exists>tr s'. sim_ticks cfg accel n s = Inr (tr, s') \<and> live_inv cfg s' \<and> live_rank s' \<le> live_rank s - n"
  using assms(3)
proof (induction n arbitrary: s)
  case 0
  then show ?case by simp
next
  case (Suc n)
  from live_step [OF Suc.prems assms(1,2)] obtain s1 where s1: "axi_tick cfg (accel s) s = Inr s1" "live_inv cfg s1"
    "live_rank s1 \<le> live_rank s - 1" by blast
  from Suc.IH [OF s1(2)] obtain tr s' where "sim_ticks cfg accel n s1 = Inr (tr, s')" "live_inv cfg s'"
    "live_rank s' \<le> live_rank s1 - n" by blast
  with s1 show ?case by auto
qed

lemma live_rank_0:
  assumes "live_inv cfg s" and "live_rank s = 0"
  shows "\<not> cmd_active s \<and> cmds (srv s) = []"
proof -
  have "cmd_active s \<Longrightarrow> 0 < cmd_ticks_left (ongoing_cmd s)"
    by (cases "cmd_st (ongoing_cmd s)") (simp_all add: cmd_active_def cmd_ticks_left_def)
  with assms(2) show ?thesis by (auto simp: live_rank_def split: if_splits)
qed

section \<open>Properties\<close>

text \<open>C2: commands reach the accelerator in the order of their submission, completely and without interleaving. Along every
  execution of clients and clock, whatever the accelerator drives, the commands queued at the start and submitted since are, in
  order: those whose packed words have been written completely, each word with its valid bit; the one being written, of which a prefix
  is written; and those still queued. Nothing else is written by the command machine.\<close>

theorem commands_in_order:
  assumes "sim_exec cfg s tr s'" and "sim_inv cfg s" and "\<not> cmd_active s" and "pack_ok (cfg_ops cfg)"
    and "RESP_BITS (cfg_hw cfg) \<noteq> RESP_VALID (cfg_hw cfg)"
  shows "\<exists>sent cur part. cmds (srv s) @ submitted tr = sent @ cur @ cmds (srv s')
    \<and> command_traffic tr = concat (map (command_writes cfg) sent) @ part
    \<and> (if cmd_active s' then \<exists>c. cur = [c] \<and> prefix part (command_writes cfg c) else cur = [] \<and> part = [])"
proof -
  have h: "command_history cfg (cmds (srv s) @ submitted tr) (command_traffic tr) s'" and inv: "axi_inv s'"
    using command_history_exec [OF assms(1,2,4,5,3)] sim_inv_exec [OF assms(1,2,4,5)] by (simp_all add: sim_inv_def)
  show ?thesis
  proof (cases "cmd_active s'")
    case True
    with h obtain fin c where "cmds (srv s) @ submitted tr = fin @ [c] @ cmds (srv s')"
      "cmdbuf (ongoing_cmd s') = pack (cfg_ops cfg) c"
      "command_traffic tr = concat (map (command_writes cfg) fin) @ cmd_written (cfg_hw cfg) (ongoing_cmd s')"
      by (auto simp: command_history_def)
    moreover have "prefix (cmd_written (cfg_hw cfg) (ongoing_cmd s')) (command_writes cfg c)"
      using cmd_written_prefix [OF inv True, of "cfg_hw cfg"] calculation(2) by (simp add: command_writes_def)
    ultimately show ?thesis using True by auto
  next
    case False
    with h show ?thesis by (auto simp: command_history_def)
  qed
qed

text \<open>C8: the queue drains, against an accelerator that accepts every transfer, reads as ready for commands (\<open>CMD_READY\<close> is never 0) and has no
  response to deliver (\<open>RESP_VALID\<close> is always 0). Then no tick fails, and after 148 ticks per queued command (38 to write it and at most
  110 of polling) the queue is empty and every command has been written completely, in order.\<close>

theorem queue_drains:
  assumes "sim_inv cfg s" and "live_inv cfg s" and "\<not> cmd_active s" and "\<And>s. responsive cfg s (accel s)"
    and "pack_ok (cfg_ops cfg)" and "RESP_BITS (cfg_hw cfg) \<noteq> RESP_VALID (cfg_hw cfg)"
    and "148 * length (cmds (srv s)) \<le> n"
  shows "\<exists>tr s'. sim_ticks cfg accel n s = Inr (tr, s') \<and> \<not> cmd_active s' \<and> cmds (srv s') = []
    \<and> command_traffic tr = concat (map (command_writes cfg) (cmds (srv s)))"
proof -
  have "live_rank s \<le> n"
    using assms(2,3,7) poll_rank_bound [of s] by (cases "cmds (srv s)") (auto simp: live_rank_def live_inv_def)
  with sim_ticks_live [OF assms(4,5,2), of n] obtain tr s' where r: "sim_ticks cfg accel n s = Inr (tr, s')"
    and l: "live_inv cfg s'" "live_rank s' = 0" by auto
  note e = sim_ticks_exec [OF r] and z = live_rank_0 [OF l]
  from command_history_exec [of cfg s tr s', OF _ assms(1,5,6,3)] e z
  have "command_traffic tr = concat (map (command_writes cfg) (cmds (srv s)))"
    by (auto simp: command_history_def)
  with r z show ?thesis by blast
qed

text \<open>C7: the simulation implements the command server. Every execution amounts to a run of the server on the submissions and on the
  three-word buffers that the response machine completed, in the order of the execution: the server's state at the end is that of the run, up
  to the two fields the control bus takes commands through; the buffers, followed by the words of a response that is being read,
  are exactly the words read from \<open>RESP_BITS\<close>; and for every core the slots completed and those outstanding are the slots
  assigned, in order.\<close>

theorem simulation_refines_server:
  assumes "sim_exec cfg s tr s'" and "sim_inv cfg s" and "\<not> rsp_active s" and "pack_ok (cfg_ops cfg)"
    and "RESP_BITS (cfg_hw cfg) \<noteq> RESP_VALID (cfg_hw cfg)"
  shows "\<exists>kq fin u. cs_run (cfg_ops cfg) (server_events tr) (srv s) = Inr (kq, fin, u)
    \<and> srv s' = u\<lparr>kill_sig := kill_sig (srv s'), cmds := cmds (srv s')\<rparr>
    \<and> (\<forall>k. in_flight_contents (in_flight (srv s)) k @ kq_pushed k kq =
          kq_popped k fin @ in_flight_contents (in_flight (srv s')) k)
    \<and> words_read (cfg_hw cfg) tr = concat (response_buffers (server_events tr))
        @ (if rsp_active s' then rsp_words_read (ongoing_rsp s') else [])"
proof -
  from response_history_exec [OF assms(1,2,4,5,3)] obtain kq fin u where
    r: "cs_run (cfg_ops cfg) (server_events tr) (srv s) = Inr (kq, fin, u)" and u: "cmd_taken u (srv s')"
    and w: "words_read (cfg_hw cfg) tr = concat (response_buffers (server_events tr))
        @ (if rsp_active s' then rsp_words_read (ongoing_rsp s') else [])"
    unfolding response_history_def by blast
  from u obtain k q where s': "srv s' = u\<lparr>kill_sig := k, cmds := q\<rparr>" by (auto simp: cmd_taken_def)
  then have "srv s' = u\<lparr>kill_sig := kill_sig (srv s'), cmds := cmds (srv s')\<rparr>" by simp
  moreover have "\<not> csf_quit (srv s)" using assms(2) by (simp add: sim_inv_def)
  from resp_fifo.run_fifo [OF cs_run_kq_run [OF r this]] s'
  have "\<forall>k. in_flight_contents (in_flight (srv s)) k @ kq_pushed k kq =
          kq_popped k fin @ in_flight_contents (in_flight (srv s')) k" by simp
  ultimately show ?thesis using r w by blast
qed

text \<open>C15: the invariants of the components hold together. In every state that clients and clock reach, whatever the accelerator drives: at most
  one machine owns the control bus, with its indices in range (\<open>axi_inv\<close>); a response is only read with the address of \<open>RESP_BITS\<close> on the
  read address channel, and its continuation only checked with that of \<open>RESP_VALID\<close> (\<open>rsp_addr_ok\<close>); and no two outstanding commands
  share a response slot, nor does one use a free slot (\<open>slots_inv\<close>).\<close>

theorem simulation_invariant:
  assumes "sim_exec cfg s tr s'" and "sim_inv cfg s" and "pack_ok (cfg_ops cfg)"
    and "RESP_BITS (cfg_hw cfg) \<noteq> RESP_VALID (cfg_hw cfg)"
  shows "axi_inv s' \<and> rsp_addr_ok (cfg_hw cfg) s' \<and> slots_inv (srv s') \<and> \<not> csf_quit (srv s')"
  using sim_inv_exec [OF assms] by (simp add: sim_inv_def)

text \<open>Two commands, an accelerator, and a front end that is about to poll for a response.\<close>

definition demo_sim :: "(int \<times> int \<times> int \<times> u32, u32 list) axi_state" where
  "demo_sim = demo_axi CMD_INACTIVE RESPT_INACTIVE"

definition demo_accel :: "(int \<times> int \<times> int \<times> u32, u32 list) axi_state \<Rightarrow> axi_in" where
  "demo_accel s = ready_in (if ar_addr s = CMD_READY demo_hw then 1 else 0)"

definition demo_poll :: "(int \<times> int \<times> int \<times> u32, u32 list) axi_state" where
  "demo_poll = demo_sim\<lparr>ongoing_update := UPDATE_IDLE_RESP, check_freq_ctr := 51,
     ongoing_cmd := (ongoing_cmd demo_sim)\<lparr>ready_for_command := False\<rparr>\<rparr>"

lemma demo_sim_inv: "sim_inv demo_cfg demo_sim" "\<not> cmd_active demo_sim" "\<not> rsp_active demo_sim"
  using demo_axi_inv(3) demo_cs_inv
  by (simp_all add: demo_sim_def sim_inv_def rsp_addr_ok_def cmd_active_def rsp_active_def demo_axi_def demo_cs_def)

lemma demo_poll_inv: "sim_inv demo_cfg demo_poll" "\<not> rsp_active demo_poll"
  using demo_sim_inv(1,3) by (simp_all add: demo_poll_def sim_inv_def axi_inv_def bus_inv_def rsp_addr_ok_def rsp_active_def)

lemma demo_addresses: "RESP_BITS (cfg_hw demo_cfg) \<noteq> RESP_VALID (cfg_hw demo_cfg)"
  by (simp add: demo_cfg_def demo_hw_def)

theorem commands_in_order_witness:
  "\<exists>tr s'. sim_run demo_cfg (Client (1, 0, 4, 7) # replicate 4 (Clock (ready_in 1))) demo_sim = Inr (tr, s')
    \<and> (\<exists>sent cur part. submitted tr = sent @ cur @ cmds (srv s')
        \<and> command_traffic tr = concat (map (command_writes demo_cfg) sent) @ part)"
proof -
  let ?r = "sim_run demo_cfg (Client (1, 0, 4, 7) # replicate 4 (Clock (ready_in 1))) demo_sim"
  have "is_ok ?r" by code_simp
  then obtain tr s' where r: "?r = Inr (tr, s')" by (auto simp: is_ok_iff)
  have "cmds (srv demo_sim) = []" by (simp add: demo_sim_def demo_axi_def demo_cs_def)
  with commands_in_order [OF sim_run_exec [OF r] demo_sim_inv(1,2) demo_pack_ok demo_addresses] r show ?thesis
    by (metis append_Nil)
qed

theorem queue_drains_witness:
  "\<exists>tr s'. sim_ticks demo_cfg demo_accel 296 (demo_sim\<lparr>srv := demo_cs\<lparr>cmds := [(1, 0, 4, 7), (0, 0, 5, 8)]\<rparr>\<rparr>) = Inr (tr, s')
    \<and> \<not> cmd_active s' \<and> cmds (srv s') = [] \<and> command_traffic tr = command_writes demo_cfg (1, 0, 4, 7) @ command_writes demo_cfg (0, 0, 5, 8)"
proof -
  let ?s = "demo_sim\<lparr>srv := demo_cs\<lparr>cmds := [(1, 0, 4, 7), (0, 0, 5, 8)]\<rparr>\<rparr>"
  have t: "cmd_taken demo_cs (demo_cs\<lparr>cmds := [(1, 0, 4, 7), (0, 0, 5, 8)]\<rparr>)"
    unfolding cmd_taken_def by (intro exI [of _ "kill_sig demo_cs"] exI [of _ "[(1, 0, 4, 7), (0, 0, 5, 8)]"]) simp
  have inv: "sim_inv demo_cfg ?s" "live_inv demo_cfg ?s" "\<not> cmd_active ?s"
    using demo_axi_inv(3) demo_cs_inv slots_inv_taken [OF t]
    by (simp_all add: demo_sim_def sim_inv_def live_inv_def rsp_addr_ok_def cmd_active_def rsp_active_def pending_read_def
        axi_inv_def bus_inv_def demo_axi_def demo_cs_def)
  have "responsive demo_cfg s (demo_accel s)" for s
    by (simp add: responsive_def accepts_def demo_accel_def ready_in_def demo_cfg_def demo_hw_def)
  from queue_drains [OF inv this demo_pack_ok demo_addresses, of 296] show ?thesis by simp
qed

theorem simulation_refines_server_witness:
  "\<exists>tr s'. sim_run demo_cfg (Client (1, 7, 7, 0) # replicate 19 (Clock (ready_in 7))) demo_poll = Inr (tr, s')
    \<and> \<not> rsp_active s' \<and> words_read demo_hw tr = [7, 7, 7] \<and> concat (response_buffers (server_events tr)) = [7, 7, 7]"
proof -
  let ?r = "sim_run demo_cfg (Client (1, 7, 7, 0) # replicate 19 (Clock (ready_in 7))) demo_poll"
  have "case ?r of Inl e \<Rightarrow> False | Inr (tr, s') \<Rightarrow> \<not> rsp_active s' \<and> words_read demo_hw tr = [7, 7, 7]" by code_simp
  then obtain tr s' where r: "?r = Inr (tr, s')" "\<not> rsp_active s'" "words_read demo_hw tr = [7, 7, 7]"
    by (auto split: sum.splits)
  with simulation_refines_server [OF sim_run_exec [OF r(1)] demo_poll_inv demo_pack_ok demo_addresses] show ?thesis
    by (auto simp: demo_cfg_def)
qed

theorem simulation_invariant_witness:
  "\<exists>tr s'. sim_run demo_cfg (Client (1, 0, 4, 7) # replicate 3 (Clock (ready_in 1))) demo_sim = Inr (tr, s')
    \<and> axi_inv s' \<and> rsp_addr_ok demo_hw s' \<and> slots_inv (srv s')"
proof -
  let ?r = "sim_run demo_cfg (Client (1, 0, 4, 7) # replicate 3 (Clock (ready_in 1))) demo_sim"
  have "is_ok ?r" by code_simp
  then obtain tr s' where r: "?r = Inr (tr, s')" by (auto simp: is_ok_iff)
  with simulation_invariant [OF sim_run_exec [OF r] demo_sim_inv(1) demo_pack_ok demo_addresses] show ?thesis by (auto simp: demo_cfg_def)
qed

end
