(* ===== verification/Mem_System.thy ===== *)
theory Mem_System
  imports Mem_Tick
begin

text \<open>
  The memory controller and the memory half of the clock cycle put together, for one channel: the functions of
  \<open>Mem_Ctrl\<close> and \<open>Mem_Tick\<close> as the steps of a transition system. A step is a cycle of the bus (\<open>mem_tick\<close>), an
  attempt to hand a request to the DRAM model (\<open>try_to_enqueue_ddr\<close>), a completion the DRAM model reports (\<open>read_callback\<close>,
  \<open>write_callback\<close>), or a change of the host memory from outside the channel (by another channel, a client or the data server), in any order. The DRAM model is DRAMsim3, which is not part of the repository: what it does is the
  choice of the steps, with the requests it accepts as a parameter of the issue step.

  The read side is followed from the address channel to the data channel. \<open>read_inv\<close> ties every accepted request to its transaction, to
  the requests of it that are in flight or completed, and to the beats released so far; \<open>ptr_inv\<close> keeps the shared transactions of the
  read queue, of the write side and of the requests apart; \<open>write_side\<close> is the frame of all write operations. \<open>mem_history\<close> relates an
  execution's transfers to its requests and is kept by every step. The theorem is \<open>reads_delivered\<close>.
\<close>

section \<open>Steps and executions\<close>

datatype mem_event =
    Cycle mem_in
  | Issue "u64 \<Rightarrow> bool \<Rightarrow> bool"
  | Read_done u64
  | Write_done u64
  | Outside mem_sys

type_synonym mem_state = "chan \<times> mem_sys"

inductive mem_step :: "mem_params \<Rightarrow> bool \<Rightarrow> mappings \<Rightarrow> mem_state \<Rightarrow> mem_event \<Rightarrow> mem_state \<Rightarrow> bool"
  for P vpi ms where
    cycle: "mem_tick P vpi ms [i] [ch] sys = Inr (Next ([ch'], sys')) \<Longrightarrow> mem_step P vpi ms (ch, sys) (Cycle i) (ch', sys')"
  | issue: "try_to_enqueue_ddr P accept (ch_mem ch) = Inr m \<Longrightarrow>
      mem_step P vpi ms (ch, sys) (Issue accept) (ch\<lparr>ch_mem := m\<rparr>, sys)"
  | read_done: "read_callback P a (ch_mem ch) = Inr m \<Longrightarrow>
      mem_step P vpi ms (ch, sys) (Read_done a) (ch\<lparr>ch_mem := m\<rparr>, sys)"
  | write_done: "write_callback a (ch_mem ch) = Inr m \<Longrightarrow>
      mem_step P vpi ms (ch, sys) (Write_done a) (ch\<lparr>ch_mem := m\<rparr>, sys)"
  | outside: "mem_step P vpi ms (ch, sys) (Outside sys') (ch, sys')"

type_synonym mem_trace = "(mem_state \<times> mem_event \<times> mem_state) list"

inductive mem_exec :: "mem_params \<Rightarrow> bool \<Rightarrow> mappings \<Rightarrow> mem_state \<Rightarrow> mem_trace \<Rightarrow> mem_state \<Rightarrow> bool"
  for P vpi ms s where
    exec_nil: "mem_exec P vpi ms s [] s"
  | exec_snoc: "mem_exec P vpi ms s tr s1 \<Longrightarrow> mem_step P vpi ms s1 e s2 \<Longrightarrow>
      mem_exec P vpi ms s (tr @ [(s1, e, s2)]) s2"

text \<open>Executions as a function of the events.\<close>

fun mem_apply :: "mem_params \<Rightarrow> bool \<Rightarrow> mappings \<Rightarrow> mem_event \<Rightarrow> mem_state \<Rightarrow> mem_state option" where
  "mem_apply P vpi ms (Cycle i) (ch, sys) =
     (case mem_tick P vpi ms [i] [ch] sys of Inr (Next ([ch'], sys')) \<Rightarrow> Some (ch', sys') | _ \<Rightarrow> None)"
| "mem_apply P vpi ms (Issue accept) (ch, sys) =
     (case try_to_enqueue_ddr P accept (ch_mem ch) of Inr m \<Rightarrow> Some (ch\<lparr>ch_mem := m\<rparr>, sys) | Inl _ \<Rightarrow> None)"
| "mem_apply P vpi ms (Read_done a) (ch, sys) =
     (case read_callback P a (ch_mem ch) of Inr m \<Rightarrow> Some (ch\<lparr>ch_mem := m\<rparr>, sys) | Inl _ \<Rightarrow> None)"
| "mem_apply P vpi ms (Write_done a) (ch, sys) =
     (case write_callback a (ch_mem ch) of Inr m \<Rightarrow> Some (ch\<lparr>ch_mem := m\<rparr>, sys) | Inl _ \<Rightarrow> None)"
| "mem_apply P vpi ms (Outside sys') (ch, sys) = Some (ch, sys')"

fun mem_run :: "mem_params \<Rightarrow> bool \<Rightarrow> mappings \<Rightarrow> mem_event list \<Rightarrow> mem_state \<Rightarrow> (mem_trace \<times> mem_state) option" where
  "mem_run P vpi ms [] s = Some ([], s)"
| "mem_run P vpi ms (e # es) s =
     (case mem_apply P vpi ms e s of
        None \<Rightarrow> None
      | Some s1 \<Rightarrow> map_option (\<lambda>(tr, s2). ((s, e, s1) # tr, s2)) (mem_run P vpi ms es s1))"

lemma mem_apply_step: "mem_apply P vpi ms e s = Some s' \<Longrightarrow> mem_step P vpi ms s e s'"
  by (induction P vpi ms e s rule: mem_apply.induct)
    (auto intro: mem_step.intros split: sum.splits flow.splits list.splits prod.splits)

lemma mem_exec_Cons:
  assumes "mem_exec P vpi ms s1 tr s2" and "mem_step P vpi ms s e s1"
  shows "mem_exec P vpi ms s ((s, e, s1) # tr) s2"
  using assms
proof (induction rule: mem_exec.induct)
  case exec_nil
  from mem_exec.exec_snoc [OF mem_exec.exec_nil exec_nil] show ?case by simp
next
  case (exec_snoc tr s2 e' s3)
  from mem_exec.exec_snoc [OF exec_snoc.IH [OF exec_snoc.prems] exec_snoc.hyps(2)] show ?case by simp
qed

lemma mem_exec_append:
  assumes "mem_exec P vpi ms s1 tr2 s2" and "mem_exec P vpi ms s tr1 s1"
  shows "mem_exec P vpi ms s (tr1 @ tr2) s2"
  using assms
proof (induction rule: mem_exec.induct)
  case (exec_snoc tr s2 e s3)
  from mem_exec.exec_snoc [OF exec_snoc.IH [OF exec_snoc.prems] exec_snoc.hyps(2)] show ?case by simp
qed simp

lemma mem_run_exec: "mem_run P vpi ms es s = Some (tr, s') \<Longrightarrow> mem_exec P vpi ms s tr s'"
  by (induction es arbitrary: s tr)
    (auto intro: mem_exec.exec_nil mem_exec_Cons mem_apply_step split: option.splits)

section \<open>The write side\<close>

text \<open>The pointers held by the write side of a controller, and what its operations leave alone.\<close>

definition wptrs :: "mem_intf \<Rightarrow> nat set" where
  "wptrs m = set (write_transactions m) \<union> set (ddr_write_q m) \<union> (\<Union>a. set (inflight_contents (in_flight_writes m) a))"

definition write_side :: "mem_intf \<Rightarrow> mem_intf \<Rightarrow> bool" where
  "write_side m m' \<longleftrightarrow>
     ddr_read_q m' = ddr_read_q m \<and> in_flight_reads m' = in_flight_reads m \<and> read_transactions m' = read_transactions m
     \<and> length (tx_heap m) \<le> length (tx_heap m')
     \<and> (\<forall>p < length (tx_heap m). p \<notin> wptrs m \<longrightarrow> tx_heap m' ! p = tx_heap m ! p)
     \<and> wptrs m' \<subseteq> wptrs m \<union> {length (tx_heap m)..<length (tx_heap m')}"

lemma write_side_refl: "write_side m m"
  by (simp add: write_side_def)

lemma write_side_trans:
  assumes "write_side m1 m2" and "write_side m2 m3"
  shows "write_side m1 m3"
  unfolding write_side_def
proof (intro conjI allI impI)
  fix p assume p: "p < length (tx_heap m1)" "p \<notin> wptrs m1"
  with assms(1) have "p < length (tx_heap m2)" "p \<notin> wptrs m2" "tx_heap m2 ! p = tx_heap m1 ! p"
    by (auto simp: write_side_def)
  with assms(2) show "tx_heap m3 ! p = tx_heap m1 ! p" by (simp add: write_side_def)
next
  show "wptrs m3 \<subseteq> wptrs m1 \<union> {length (tx_heap m1)..<length (tx_heap m3)}"
    using assms unfolding write_side_def by fastforce
qed (use assms in \<open>simp_all add: write_side_def\<close>)

lemma response_handshake_side: "response_handshake i ch = Inr ch' \<Longrightarrow> write_side (ch_mem ch) (ch_mem ch')"
  by (auto simp: response_handshake_def res_simps write_side_def wptrs_def split: if_splits)

lemma drive_read_side: "drive_read P sys ch = Inr ch' \<Longrightarrow> ch_mem ch' = ch_mem ch"
  by (auto simp: drive_read_def Let_def res_simps split: list.splits)

lemma drive_response_side: "write_side (ch_mem ch) (ch_mem (drive_response ch))"
  by (auto simp: drive_response_def Let_def write_side_def wptrs_def split: list.split)

lemma drive_ready_side: "drive_ready ch = Inr ch' \<Longrightarrow> ch_mem ch' = ch_mem ch"
  by (auto simp: drive_ready_def res_simps)

lemma accept_write_side: "accept_write P vpi ms i ch = Inr (Next ch') \<Longrightarrow> write_side (ch_mem ch) (ch_mem ch')"
  by (auto simp: accept_write_def make_shared_def Let_def write_side_def wptrs_def q_push_def nth_append write_side_refl
      split: if_splits sum.splits)

lemma write_side_heap:
  assumes "p \<in> wptrs m" and "wptrs m' \<subseteq> wptrs m"
    and "ddr_read_q m' = ddr_read_q m" "in_flight_reads m' = in_flight_reads m" "read_transactions m' = read_transactions m"
    and "tx_heap m' = (tx_heap m)[p := tx]"
  shows "write_side m m'"
  using assms by (auto simp: write_side_def) (metis nth_list_update_neq)

lemma write_beat_side:
  assumes "write_beat P i ch sys = Inr (ch', sys')"
  shows "write_side (ch_mem ch) (ch_mem ch')"
proof (cases "write_transactions (ch_mem ch)")
  case Nil
  with assms have "ch_mem ch' = ch_mem ch" by (auto simp: write_beat_def)
  then show ?thesis by (simp add: write_side_refl)
next
  case (Cons p ps)
  let ?m = "ch_mem ch" and ?m' = "ch_mem ch'"
  have "?m' = ?m \<or> (\<exists>tx. ?m' = ?m\<lparr>tx_heap := (tx_heap ?m)[p := tx]\<rparr>
      \<or> ?m' = ?m\<lparr>tx_heap := (tx_heap ?m)[p := tx], write_transactions := ps, ddr_write_q := ddr_write_q ?m @ [p]\<rparr>)"
    using assms Cons by (auto simp: write_beat_def Let_def res_simps split: if_splits)
  moreover have "p \<in> wptrs ?m" by (simp add: wptrs_def Cons)
  ultimately show ?thesis
    using Cons by (elim disjE exE) (auto intro!: write_side_heap simp: write_side_refl wptrs_def)
qed

lemma issue_write_side:
  assumes "issue_write P p m = Inr m'" and "p \<in> set (ddr_write_q m)"
  shows "write_side m m'"
proof -
  obtain tx where d: "deref m p = Inr tx" using assms(1) by (auto simp: issue_write_def res_simps)
  let ?t = "tx\<lparr>dram_tx_axi_enqueue_progress := dram_tx_axi_enqueue_progress tx + 1\<rparr>"
  have m': "m' = m\<lparr>tx_heap := (tx_heap m)[p := ?t], dram_log := dram_log m @ [(dimm_addr P tx, True)],
      in_flight_writes := inflight_push (dimm_addr P tx) p (in_flight_writes m),
      ddr_write_q := if dramsim_tx_finished ?t then remove1 p (ddr_write_q m) else ddr_write_q m\<rparr>"
    using assms(1) d by (simp add: issue_write_def Let_def)
  have "set (ddr_write_q m') \<subseteq> set (ddr_write_q m)" by (simp add: m' set_remove1_subset)
  then have "wptrs m' \<subseteq> wptrs m"
    using assms(2) by (auto simp: wptrs_def m' dram_fifo.contents_push split: if_splits)
  moreover have "p \<in> wptrs m" using assms(2) by (simp add: wptrs_def)
  ultimately show ?thesis by (intro write_side_heap) (simp_all add: m')
qed

lemma enqueue_response_same: "tx_heap (fold enqueue_response ids m) = tx_heap m"
  "ddr_read_q (fold enqueue_response ids m) = ddr_read_q m" "in_flight_reads (fold enqueue_response ids m) = in_flight_reads m"
  "read_transactions (fold enqueue_response ids m) = read_transactions m"
  "write_transactions (fold enqueue_response ids m) = write_transactions m" "ddr_write_q (fold enqueue_response ids m) = ddr_write_q m"
  "in_flight_writes (fold enqueue_response ids m) = in_flight_writes m"
  by (induction ids arbitrary: m) (simp_all add: enqueue_response_def)

lemma write_callback_side:
  assumes "write_callback a m = Inr m'"
  shows "write_side m m'"
proof -
  from assms obtain p fl tx where f: "inflight_take a (in_flight_writes m) = Inr (p, fl)"
    and m': "m' = fold enqueue_response (snd (write_complete tx))
      (m\<lparr>tx_heap := (tx_heap m)[p := fst (write_complete tx)], in_flight_writes := fl\<rparr>)"
    by (auto simp: write_callback_def Let_def res_simps case_prod_beta)
  note c = dram_fifo.take_front_Inr [OF f]
  have "set (inflight_contents fl b) \<subseteq> set (inflight_contents (in_flight_writes m) b)" for b
    using c by (cases "b = a") auto
  then have "wptrs m' \<subseteq> wptrs m" by (auto simp: wptrs_def m' enqueue_response_same)
  moreover have "p \<in> wptrs m" using c(1) by (auto simp: wptrs_def intro!: exI [of _ a])
  ultimately show ?thesis by (intro write_side_heap) (simp_all add: m' enqueue_response_same)
qed

section \<open>The read side\<close>

text \<open>A request that is a whole number of DRAM requests and of full-width beats, as it is created.\<close>

definition req_ok :: "mem_params \<Rightarrow> memory_transaction \<Rightarrow> bool" where
  "req_ok P tx \<longleftrightarrow> read_tx_ok P tx \<and> tx_size tx = DATA_BUS_BYTES P \<and> dram_tx_axi_enqueue_progress tx = 0"

text \<open>Where transaction \<open>p\<close> of a request stands: the requests \<open>ks\<close> out of the first \<open>e\<close> have completed, the others of them
  are in flight, and the beats below \<open>k\<close> have been released.\<close>

definition read_state :: "mem_params \<Rightarrow> mem_intf \<Rightarrow> nat \<Rightarrow> memory_transaction \<Rightarrow> nat \<Rightarrow> bool" where
  "read_state P m p tx k \<longleftrightarrow>
     (\<exists>ks e l. tx_heap m ! p = (tx_at tx l (mark_all P ks (ddr_bus_beats_retrieved tx)) k)\<lparr>dram_tx_axi_enqueue_progress := int e\<rparr>
        \<and> k = beats_done P tx (mark_all P ks (ddr_bus_beats_retrieved tx))
        \<and> e \<le> nat (dram_tx_n_enqueues tx) \<and> set ks \<subseteq> {0..<e}
        \<and> (\<forall>j < e. j \<in> set ks \<or> p \<in> set (inflight_contents (in_flight_reads m) (dram_req_addr P tx j)))
        \<and> (\<forall>a. p \<in> set (inflight_contents (in_flight_reads m) a) \<longrightarrow> (\<exists>j < e. a = dram_req_addr P tx j))
        \<and> (p \<in> set (ddr_read_q m) \<longleftrightarrow> e < nat (dram_tx_n_enqueues tx)))"

definition read_inv ::
  "mem_params \<Rightarrow> (nat \<times> memory_transaction) list \<Rightarrow> (nat \<times> memory_transaction) list \<Rightarrow> mem_intf \<Rightarrow> bool" where
  "read_inv P acc rel m \<longleftrightarrow>
     distinct (map fst acc) \<and> distinct (ddr_read_q m)
     \<and> set (ddr_read_q m) \<subseteq> fst ` set acc
     \<and> (\<forall>a. set (inflight_contents (in_flight_reads m) a) \<subseteq> fst ` set acc)
     \<and> fst ` set rel \<subseteq> fst ` set acc
     \<and> (\<forall>(p, tx) \<in> set acc. p < length (tx_heap m) \<and> req_ok P tx
          \<and> (\<exists>k. read_state P m p tx k \<and> map snd (filter (\<lambda>x. fst x = p) rel) = map (beat P tx) [0..<k]))"

definition ptr_inv :: "(nat \<times> memory_transaction) list \<Rightarrow> mem_intf \<Rightarrow> bool" where
  "ptr_inv acc m \<longleftrightarrow> distinct (read_transactions m)
     \<and> (\<forall>p \<in> set (read_transactions m) \<union> wptrs m. p < length (tx_heap m))
     \<and> set (read_transactions m) \<inter> wptrs m = {}
     \<and> fst ` set acc \<inter> (set (read_transactions m) \<union> wptrs m) = {}"

lemma read_invD:
  assumes "read_inv P acc rel m"
  shows "distinct (map fst acc)" "distinct (ddr_read_q m)" "set (ddr_read_q m) \<subseteq> fst ` set acc"
    "\<And>a. set (inflight_contents (in_flight_reads m) a) \<subseteq> fst ` set acc" "fst ` set rel \<subseteq> fst ` set acc"
  using assms by (simp_all add: read_inv_def)

lemma ptr_invD:
  assumes "ptr_inv acc m"
  shows "distinct (read_transactions m)" "\<forall>p \<in> set (read_transactions m). p < length (tx_heap m)"
    "\<forall>p \<in> wptrs m. p < length (tx_heap m)" "valid_ptrs m (read_transactions m)"
    "fst ` set acc \<inter> set (read_transactions m) = {}"
proof -
  show l: "\<forall>p \<in> set (read_transactions m). p < length (tx_heap m)" using assms unfolding ptr_inv_def by blast
  then show "valid_ptrs m (read_transactions m)" by (simp add: valid_ptrs_def list_all_iff)
qed (use assms in \<open>auto simp: ptr_inv_def\<close>)

lemma read_state_frame:
  assumes "tx_heap m' ! p = tx_heap m ! p" and "ddr_read_q m' = ddr_read_q m" and "in_flight_reads m' = in_flight_reads m"
  shows "read_state P m' p tx k = read_state P m p tx k"
  by (simp add: read_state_def assms)

lemma read_inv_frame:
  assumes "read_inv P acc rel m" and "ddr_read_q m' = ddr_read_q m" and "in_flight_reads m' = in_flight_reads m"
    and "\<And>p. p \<in> fst ` set acc \<Longrightarrow> p < length (tx_heap m') \<and> tx_heap m' ! p = tx_heap m ! p"
  shows "read_inv P acc rel m'"
proof -
  have "p < length (tx_heap m') \<and> read_state P m' p tx k = read_state P m p tx k" if "(p, tx) \<in> set acc" for p tx k
  proof -
    have "p \<in> fst ` set acc" using that by force
    from assms(4) [OF this] read_state_frame [OF _ assms(2,3)] show ?thesis by blast
  qed
  with assms(1-3) show ?thesis unfolding read_inv_def by (auto split: prod.splits)
qed

lemma write_side_read:
  assumes "write_side m m'" and "read_inv P acc rel m" and "ptr_inv acc m"
  shows "read_inv P acc rel m'" and "ptr_inv acc m'" and "read_view m' = read_view m"
proof -
  have old: "p < length (tx_heap m)" "p \<notin> wptrs m" if "p \<in> fst ` set acc \<union> set (read_transactions m)" for p
    using that assms(2,3) by (auto simp: read_inv_def ptr_inv_def)
  have same: "tx_heap m' ! p = tx_heap m ! p" "p < length (tx_heap m')" if "p \<in> fst ` set acc \<union> set (read_transactions m)" for p
    using old [OF that] assms(1) by (auto simp: write_side_def)
  show "read_inv P acc rel m'"
    by (rule read_inv_frame [OF assms(2)]) (use assms(1) same in \<open>auto simp: write_side_def\<close>)
  show "read_view m' = read_view m"
    using assms(1) same by (auto simp: read_view_def write_side_def)
  have w: "wptrs m' \<subseteq> wptrs m \<union> {length (tx_heap m)..<length (tx_heap m')}" "read_transactions m' = read_transactions m"
    "length (tx_heap m) \<le> length (tx_heap m')" using assms(1) by (auto simp: write_side_def)
  have new: "p \<in> wptrs m \<or> length (tx_heap m) \<le> p \<and> p < length (tx_heap m')" if "p \<in> wptrs m'" for p
    using that w(1) by auto
  have lt: "p < length (tx_heap m')" if "p \<in> set (read_transactions m) \<union> wptrs m'" for p
  proof (cases "p \<in> wptrs m'")
    case True
    then show ?thesis using new [OF True] w(3) assms(3) unfolding ptr_inv_def by (meson UnI2 less_le_trans)
  next
    case False
    with that same show ?thesis by simp
  qed
  have nw: "p \<notin> wptrs m'" if "p \<in> fst ` set acc \<union> set (read_transactions m)" for p
    using new [of p] old [OF that] by auto
  have "distinct (read_transactions m)" "fst ` set acc \<inter> set (read_transactions m) = {}"
    using assms(3) unfolding ptr_inv_def by blast+
  then show "ptr_inv acc m'"
    unfolding ptr_inv_def w(2) using lt nw by (simp add: disjoint_iff)
qed

lemma beats_done_start:
  assumes "read_tx_ok P tx"
  shows "beats_done P tx (ddr_bus_beats_retrieved tx) = 0"
proof -
  note d = read_tx_okD [OF assms]
  have "\<not> beat_ready P (ddr_bus_beats_retrieved tx) 0" if "0 < n_beats P tx"
  proof -
    have M: "0 < mult P" using d(3) by simp
    moreover have "0 < length (ddr_bus_beats_retrieved tx)"
      using d(2,4,11) by simp
    then have "\<not> ddr_bus_beats_retrieved tx ! 0" using d(11) by simp
    ultimately show ?thesis by (auto simp: beat_ready_def intro!: exI [of _ 0])
  qed
  then show ?thesis
    by (cases "n_beats P tx") (simp_all add: beats_done_def upt_conv_Cons del: upt_Suc)
qed

lemma req_ok_start:
  assumes "req_ok P tx"
  shows "(tx_at tx (dram_tx_load_progress tx) (ddr_bus_beats_retrieved tx) 0)\<lparr>dram_tx_axi_enqueue_progress := int 0\<rparr> = tx"
proof -
  have "axi_bus_beats_progress tx = 0" "dram_tx_axi_enqueue_progress tx = 0"
    using assms read_tx_okD(5) by (auto simp: req_ok_def)
  then show ?thesis by (simp add: tx_at_def)
qed

lemma accept_read_inv:
  assumes inv: "read_inv P acc rel m" and ptr: "ptr_inv acc m" and "req_ok P tx"
    and m': "m' = m\<lparr>tx_heap := tx_heap m @ [tx], ddr_read_q := ddr_read_q m @ [length (tx_heap m)]\<rparr>"
  shows "read_inv P (acc @ [(length (tx_heap m), tx)]) rel m'" and "ptr_inv (acc @ [(length (tx_heap m), tx)]) m'"
    and "read_view m' = read_view m"
proof -
  let ?p = "length (tx_heap m)"
  have ltA: "q < ?p" if "q \<in> fst ` set acc" for q using that inv by (auto simp: read_inv_def)
  have ltW: "q < ?p" if "q \<in> set (read_transactions m) \<union> wptrs m" for q using that ptr unfolding ptr_inv_def by blast
  have freshA: "?p \<notin> fst ` set acc" using ltA by blast
  have freshW: "?p \<notin> set (read_transactions m) \<union> wptrs m" using ltW by blast
  have freshQ: "?p \<notin> set (ddr_read_q m)" "?p \<notin> fst ` set rel" "\<And>a. ?p \<notin> set (inflight_contents (in_flight_reads m) a)"
    using freshA inv by (auto simp: read_inv_def)
  have new: "read_state P m' ?p tx 0"
    unfolding read_state_def
  proof (intro exI conjI)
    show "tx_heap m' ! ?p = (tx_at tx (dram_tx_load_progress tx) (mark_all P [] (ddr_bus_beats_retrieved tx)) 0)
        \<lparr>dram_tx_axi_enqueue_progress := int 0\<rparr>"
      using req_ok_start [OF assms(3)] by (simp add: m')
    show "0 = beats_done P tx (mark_all P [] (ddr_bus_beats_retrieved tx))"
      using beats_done_start assms(3) by (simp add: req_ok_def)
    have "0 < dram_tx_n_enqueues tx" using assms(3) read_tx_okD(4) unfolding req_ok_def by blast
    then show "(?p \<in> set (ddr_read_q m')) = (0 < nat (dram_tx_n_enqueues tx))" by (simp add: m')
  qed (use freshQ in \<open>simp_all add: m'\<close>)
  have old: "q < length (tx_heap m') \<and> read_state P m' q tx' k = read_state P m q tx' k" if "(q, tx') \<in> set acc" for q tx' k
  proof -
    have q: "q < ?p" using ltA that by force
    then show ?thesis by (simp add: m' read_state_def nth_append)
  qed
  have "filter (\<lambda>x. fst x = ?p) rel = []" using freshQ(2) by (force simp: filter_empty_conv)
  with new have "\<exists>k. read_state P m' ?p tx k \<and> map snd (filter (\<lambda>x. fst x = ?p) rel) = map (beat P tx) [0..<k]"
    by (intro exI [of _ 0]) simp
  moreover have "\<forall>(p, tx) \<in> set acc. p < length (tx_heap m') \<and> req_ok P tx
          \<and> (\<exists>k. read_state P m' p tx k \<and> map snd (filter (\<lambda>x. fst x = p) rel) = map (beat P tx) [0..<k])"
    using inv old unfolding read_inv_def by (auto split: prod.splits)
  ultimately show "read_inv P (acc @ [(?p, tx)]) rel m'"
    using inv freshA freshQ(1) assms(3) unfolding read_inv_def by (auto simp: m')
  have "wptrs m' = wptrs m" by (simp add: wptrs_def m')
  moreover have "q < Suc ?p" if "q \<in> set (read_transactions m) \<union> wptrs m" for q using ltW [OF that] by simp
  ultimately show "ptr_inv (acc @ [(?p, tx)]) m'"
    using ptr freshW unfolding ptr_inv_def by (simp add: m')
  show "read_view m' = read_view m"
    using ltW by (auto simp: read_view_def m' nth_append)
qed

lemma dram_req_addr_inj:
  assumes "read_tx_ok P tx" and "j < nat (dram_tx_n_enqueues tx)" and "j' < nat (dram_tx_n_enqueues tx)"
    and "dram_req_addr P tx j = dram_req_addr P tx j'"
  shows "j = j'"
proof -
  have "int (j * burst P) = int (j' * burst P)"
    using dram_index [OF assms(1,2)] dram_index [OF assms(1,3)] assms(4) unfolding dram_req_addr_def by metis
  moreover have "0 < burst P" using read_tx_okD(2) [OF assms(1)] by simp
  ultimately show ?thesis by simp
qed

lemma dimm_addr_at:
  "dimm_addr P ((tx_at tx l v k)\<lparr>dram_tx_axi_enqueue_progress := int e\<rparr>) = dram_req_addr P tx e"
  by (simp add: dimm_addr_def dram_req_addr_def mult.commute)

lemma read_inv_entry:
  assumes "read_inv P acc rel m" and "p \<in> fst ` set acc"
  obtains tx k where "(p, tx) \<in> set acc" "p < length (tx_heap m)" "req_ok P tx" "read_state P m p tx k"
    "map snd (filter (\<lambda>x. fst x = p) rel) = map (beat P tx) [0..<k]"
  using assms unfolding read_inv_def by (fastforce split: prod.splits)

lemma read_inv_lt:
  assumes "read_inv P acc rel m" and "p \<in> fst ` set acc"
  shows "p < length (tx_heap m)"
  using assms by (rule read_inv_entry)

lemma read_inv_unique:
  assumes "read_inv P acc rel m" and "(p, tx) \<in> set acc" and "(p, tx') \<in> set acc"
  shows "tx' = tx"
  using assms unfolding read_inv_def by (metis eq_key_imp_eq_value)

text \<open>An operation that changes one entry of the read side and leaves the state of all others as it is.\<close>

lemma read_inv_change:
  assumes inv: "read_inv P acc rel m" and p: "(p, tx) \<in> set acc"
    and "p < length (tx_heap m')" and "read_state P m' p tx k"
    and "map snd (filter (\<lambda>x. fst x = p) rel') = map (beat P tx) [0..<k]"
    and "\<And>q. q \<noteq> p \<Longrightarrow> filter (\<lambda>x. fst x = q) rel' = filter (\<lambda>x. fst x = q) rel"
    and "\<And>q. q \<in> fst ` set acc \<Longrightarrow> q \<noteq> p \<Longrightarrow> q < length (tx_heap m') \<and> tx_heap m' ! q = tx_heap m ! q
        \<and> (\<forall>a. q \<in> set (inflight_contents (in_flight_reads m') a) \<longleftrightarrow> q \<in> set (inflight_contents (in_flight_reads m) a))
        \<and> (q \<in> set (ddr_read_q m') \<longleftrightarrow> q \<in> set (ddr_read_q m))"
    and "distinct (ddr_read_q m')" and "set (ddr_read_q m') \<subseteq> fst ` set acc"
    and "\<And>a. set (inflight_contents (in_flight_reads m') a) \<subseteq> fst ` set acc" and "fst ` set rel' \<subseteq> fst ` set acc"
  shows "read_inv P acc rel' m'"
proof -
  have all: "q < length (tx_heap m') \<and> req_ok P tx'
      \<and> (\<exists>k. read_state P m' q tx' k \<and> map snd (filter (\<lambda>x. fst x = q) rel') = map (beat P tx') [0..<k])"
    if q: "(q, tx') \<in> set acc" for q tx'
  proof (cases "q = p")
    case True
    then have "tx' = tx" using read_inv_unique [OF inv p] q by simp
    moreover have "req_ok P tx'" using inv q unfolding read_inv_def by blast
    ultimately show ?thesis using assms(3-5) True by blast
  next
    case False
    have "q \<in> fst ` set acc" using q by force
    note f = assms(7) [OF this False]
    have "read_state P m' q tx' k' = read_state P m q tx' k'" for k' using f by (simp add: read_state_def)
    with inv q f assms(6) [OF False] show ?thesis unfolding read_inv_def by fastforce
  qed
  show ?thesis unfolding read_inv_def
  proof (intro conjI ballI allI)
    show "distinct (map fst acc)" using inv unfolding read_inv_def by (rule conjunct1)
    fix x assume "x \<in> set acc"
    then show "case x of (q, tx') \<Rightarrow> q < length (tx_heap m') \<and> req_ok P tx'
      \<and> (\<exists>k. read_state P m' q tx' k \<and> map snd (filter (\<lambda>x. fst x = q) rel') = map (beat P tx') [0..<k])"
      using all [of "fst x" "snd x"] by (simp add: case_prod_beta)
  qed (rule assms)+
qed

lemma issue_read_inv:
  assumes inv: "read_inv P acc rel m" and ptr: "ptr_inv acc m" and "issue_read P p m = Inr m'" and "p \<in> set (ddr_read_q m)"
  shows "read_inv P acc rel m'" and "ptr_inv acc m'" and "read_view m' = read_view m"
proof -
  let ?C = "inflight_contents (in_flight_reads m)"
  have pa: "p \<in> fst ` set acc" using inv assms(4) unfolding read_inv_def by blast
  from read_inv_entry [OF inv pa] obtain tx k where e: "(p, tx) \<in> set acc" "p < length (tx_heap m)" "req_ok P tx"
    "read_state P m p tx k" "map snd (filter (\<lambda>x. fst x = p) rel) = map (beat P tx) [0..<k]" .
  let ?n = "nat (dram_tx_n_enqueues tx)" and ?v = "\<lambda>ks. mark_all P ks (ddr_bus_beats_retrieved tx)"
  from e(4) obtain ks e l where s: "tx_heap m ! p = (tx_at tx l (?v ks) k)\<lparr>dram_tx_axi_enqueue_progress := int e\<rparr>"
    "k = beats_done P tx (?v ks)" "e \<le> ?n" "set ks \<subseteq> {0..<e}"
    "\<forall>j < e. j \<in> set ks \<or> p \<in> set (?C (dram_req_addr P tx j))"
    "\<forall>a. p \<in> set (?C a) \<longrightarrow> (\<exists>j < e. a = dram_req_addr P tx j)" "p \<in> set (ddr_read_q m) \<longleftrightarrow> e < ?n"
    unfolding read_state_def by blast
  let ?t = "(tx_at tx l (?v ks) k)\<lparr>dram_tx_axi_enqueue_progress := int (Suc e)\<rparr>" and ?a = "dram_req_addr P tx e"
  have en: "e < ?n" using s(7) assms(4) by simp
  have fin: "dramsim_tx_finished ?t \<longleftrightarrow> \<not> Suc e < ?n"
    by (auto simp: dramsim_tx_finished_def tx_at_def)
  have m': "m' = m\<lparr>tx_heap := (tx_heap m)[p := ?t], dram_log := dram_log m @ [(?a, False)],
      in_flight_reads := inflight_push ?a p (in_flight_reads m),
      ddr_read_q := if dramsim_tx_finished ?t then remove1 p (ddr_read_q m) else ddr_read_q m\<rparr>"
    using assms(3) deref_valid [OF e(2)] s(1)
    by (simp add: issue_read_def Let_def dimm_addr_at add.commute)
  have C': "inflight_contents (in_flight_reads m') = ?C(?a := ?C ?a @ [p])" by (simp add: m' dram_fifo.contents_push)
  have d: "distinct (ddr_read_q m)" using inv unfolding read_inv_def by blast
  have "read_state P m' p tx k"
    unfolding read_state_def
  proof (intro exI conjI)
    show "tx_heap m' ! p = ?t" using e(2) by (simp add: m')
    show "k = beats_done P tx (?v ks)" by (rule s(2))
    show "\<forall>j < Suc e. j \<in> set ks \<or> p \<in> set (inflight_contents (in_flight_reads m') (dram_req_addr P tx j))"
      using s(5) by (auto simp: C' less_Suc_eq)
    show "\<forall>a. p \<in> set (inflight_contents (in_flight_reads m') a) \<longrightarrow> (\<exists>j < Suc e. a = dram_req_addr P tx j)"
      using s(6) by (auto simp: C' less_Suc_eq)
    show "(p \<in> set (ddr_read_q m')) = (Suc e < ?n)" using d assms(4) fin by (simp add: m')
  qed (use s(4) en in auto)
  then show "read_inv P acc rel m'"
    using e(5) inv pa d
    by (intro read_inv_change [OF inv e(1), where k = k])
      (auto simp: m' dram_fifo.contents_push read_inv_def e(2) dest: subsetD [OF set_remove1_subset])
  show "ptr_inv acc m'" using ptr by (simp add: ptr_inv_def wptrs_def m')
  have "p \<notin> set (read_transactions m)" using ptr pa unfolding ptr_inv_def by blast
  then show "read_view m' = read_view m" by (auto simp: read_view_def m') (metis nth_list_update_neq)
qed

lemma enqueue_read_fields:
  "tx_heap (enqueue_read b m) = tx_heap m @ [b]"
  "read_transactions (enqueue_read b m) = read_transactions m @ [length (tx_heap m)]"
  "ddr_read_q (enqueue_read b m) = ddr_read_q m" "in_flight_reads (enqueue_read b m) = in_flight_reads m"
  "wptrs (enqueue_read b m) = wptrs m"
  by (simp_all add: enqueue_read_def make_shared_def q_push_def wptrs_def)

lemma enqueue_read_all:
  "tx_heap (fold enqueue_read bs m) = tx_heap m @ bs"
  "read_transactions (fold enqueue_read bs m) = read_transactions m @ [length (tx_heap m)..<length (tx_heap m) + length bs]"
  "ddr_read_q (fold enqueue_read bs m) = ddr_read_q m" "in_flight_reads (fold enqueue_read bs m) = in_flight_reads m"
  "wptrs (fold enqueue_read bs m) = wptrs m"
proof -
  have "[n..<Suc (n + length bs)] = n # [Suc n..<Suc (n + length bs)]" for n and bs :: "memory_transaction list"
    by (rule upt_conv_Cons) simp
  then show "read_transactions (fold enqueue_read bs m) =
      read_transactions m @ [length (tx_heap m)..<length (tx_heap m) + length bs]"
    by (induction bs arbitrary: m) (simp_all add: enqueue_read_fields del: upt_Suc)
qed (induction bs arbitrary: m; simp add: enqueue_read_fields)+

lemma emit_beats_enq:
  "emit_beats n P (tx\<lparr>dram_tx_axi_enqueue_progress := e\<rparr>) =
     rbind (emit_beats n P tx) (\<lambda>(t, bs). Inr (t\<lparr>dram_tx_axi_enqueue_progress := e\<rparr>, bs))"
proof (induction n arbitrary: tx)
  case 0
  then show ?case by simp
next
  case (Suc n)
  let ?u = "tx\<lparr>dram_tx_axi_enqueue_progress := e\<rparr>"
  let ?t = "tx\<lparr>tx_addr := tx_addr tx + of_int (tx_size tx), axi_bus_beats_progress := axi_bus_beats_progress tx + 1\<rparr>"
  have 1: "dramsim_hasBeatReady P ?u = dramsim_hasBeatReady P tx" "next_beat P ?u = next_beat P tx"
    by (simp_all add: dramsim_hasBeatReady_def axi_bus_beats_length_def next_beat_def Let_def cong: if_cong)
  have 2: "?u\<lparr>tx_addr := tx_addr ?u + of_int (tx_size ?u), axi_bus_beats_progress := axi_bus_beats_progress ?u + 1\<rparr> =
      ?t\<lparr>dram_tx_axi_enqueue_progress := e\<rparr>" by simp
  show ?case
  proof (cases "dramsim_hasBeatReady P tx")
    case (Inl x)
    then show ?thesis by (simp only: emit_beats.simps 1 rbind.simps)
  next
    case (Inr b)
    show ?thesis
      unfolding emit_beats.simps 1 2 Inr rbind.simps Suc.IH [of ?t]
      by (cases "emit_beats n P ?t") (auto split: prod.splits)
  qed
qed

lemma read_complete_enq:
  "read_complete P a (tx\<lparr>dram_tx_axi_enqueue_progress := e\<rparr>) =
     rbind (read_complete P a tx) (\<lambda>(t, bs). Inr (t\<lparr>dram_tx_axi_enqueue_progress := e\<rparr>, bs))"
proof -
  let ?j = "sint (ucast (a - tx_fpga_addr tx) :: u32) sdiv DDR_BUS_WIDTH_BYTES P"
  have "tx\<lparr>dram_tx_axi_enqueue_progress := e, dram_tx_load_progress := l, ddr_bus_beats_retrieved := v\<rparr> =
      tx\<lparr>dram_tx_load_progress := l, ddr_bus_beats_retrieved := v\<rparr>\<lparr>dram_tx_axi_enqueue_progress := e\<rparr>" for l v by simp
  then show ?thesis
    by (cases "mark_retrieved (ddr_bus_beats_retrieved tx) ?j (nat (TOTAL_BURST P))")
      (simp_all only: read_complete_def Let_def rbind.simps memory_transaction.simps emit_beats_enq, simp_all add: emit_beats_enq)
qed

lemma mark_all_snoc: "mark_all P (ks @ [j]) v = mark (j * burst P) (burst P) (mark_all P ks v)"
  by (induction ks arbitrary: v) simp_all

lemma nth_append_update:
  "p \<notin> set ps \<Longrightarrow> \<forall>q \<in> set ps. q < length h \<Longrightarrow> map ((!) (h[p := t] @ bs)) ps = map ((!) h) ps"
  by (auto simp: nth_append) (metis nth_list_update_neq)

lemma nth_append_upt: "map ((!) (h @ bs)) [length h..<length h + length bs] = bs"
  by (rule nth_equalityI) (simp_all add: nth_append)

lemma below_disjoint: "\<forall>q \<in> A. q < n \<Longrightarrow> A \<inter> {n..<k} = {}" for n :: nat
  by fastforce

lemma below_mono: "\<forall>q \<in> A. q < n \<Longrightarrow> \<forall>q \<in> A. q < n + k" for n :: nat
  by fastforce

lemma read_callback_parts:
  assumes "read_callback P a m = Inr m'"
  obtains p t bs where "inflight_contents (in_flight_reads m) a = p # inflight_contents (in_flight_reads m') a"
    and "\<And>b. b \<noteq> a \<Longrightarrow> inflight_contents (in_flight_reads m') b = inflight_contents (in_flight_reads m) b"
    and "rbind (deref m p) (read_complete P a) = Inr (t, bs)"
    and "tx_heap m' = (tx_heap m)[p := t] @ bs" and "ddr_read_q m' = ddr_read_q m" and "wptrs m' = wptrs m"
    and "read_transactions m' = read_transactions m @ [length (tx_heap m)..<length (tx_heap m) + length bs]"
proof -
  from assms obtain p fl t bs where f: "inflight_take a (in_flight_reads m) = Inr (p, fl)"
    and rc: "rbind (deref m p) (read_complete P a) = Inr (t, bs)"
    and m': "m' = fold enqueue_read bs (m\<lparr>tx_heap := (tx_heap m)[p := t], in_flight_reads := fl\<rparr>)"
    by (auto simp: read_callback_def res_simps)
  have w: "wptrs (m\<lparr>tx_heap := h, in_flight_reads := fl\<rparr>) = wptrs m" for h by (simp add: wptrs_def)
  show ?thesis
    by (rule that [of p t bs]) (simp_all add: m' enqueue_read_all w rc dram_fifo.take_front_Inr [OF f])
qed

text \<open>A completion at the address of one of the requests in flight moves the transaction from \<open>k\<close> beats to \<open>k'\<close>.\<close>

lemma read_complete_state:
  assumes st: "read_state P m p tx k" and rq: "req_ok P tx" and p: "p < length (tx_heap m)"
    and f: "p \<in> set (inflight_contents (in_flight_reads m) a)"
    and rc: "rbind (deref m p) (read_complete P a) = Inr (t, bs)"
    and m': "tx_heap m' ! p = t" "ddr_read_q m' = ddr_read_q m"
      "\<And>b. set (inflight_contents (in_flight_reads m') b) \<subseteq> set (inflight_contents (in_flight_reads m) b)"
      "\<And>b. b \<noteq> a \<Longrightarrow> inflight_contents (in_flight_reads m') b = inflight_contents (in_flight_reads m) b"
  obtains k' where "k \<le> k'" and "bs = map (beat P tx) [k..<k']" and "read_state P m' p tx k'"
proof -
  let ?C = "inflight_contents (in_flight_reads m)"
  let ?n = "nat (dram_tx_n_enqueues tx)" and ?v = "\<lambda>ks. mark_all P ks (ddr_bus_beats_retrieved tx)"
  have ok: "read_tx_ok P tx" using rq by (simp add: req_ok_def)
  from st obtain ks e l where s: "tx_heap m ! p = (tx_at tx l (?v ks) k)\<lparr>dram_tx_axi_enqueue_progress := int e\<rparr>"
    "k = beats_done P tx (?v ks)" "e \<le> ?n" "set ks \<subseteq> {0..<e}"
    "\<forall>j < e. j \<in> set ks \<or> p \<in> set (?C (dram_req_addr P tx j))"
    "\<forall>a. p \<in> set (?C a) \<longrightarrow> (\<exists>j < e. a = dram_req_addr P tx j)" "p \<in> set (ddr_read_q m) \<longleftrightarrow> e < ?n"
    unfolding read_state_def by blast
  from f s(6) obtain j where j: "j < e" "a = dram_req_addr P tx j" by blast
  let ?k' = "beats_done P tx (?v (ks @ [j]))"
  have len: "length (?v ks) = n_beats P tx * mult P"
    using read_tx_okD(2,4,11) [OF ok] retrieved_length(1) [OF ok] by (simp add: nat_mult_distrib)
  have "read_complete P a (tx_at tx l (?v ks) k) = Inr (tx_at tx (l + 1) (?v (ks @ [j])) ?k', map (beat P tx) [k..<?k'])"
    unfolding mark_all_snoc j(2) s(2) by (rule read_complete_at [OF ok len]) (use j(1) s(3) in simp)
  then have t: "t = (tx_at tx (l + 1) (?v (ks @ [j])) ?k')\<lparr>dram_tx_axi_enqueue_progress := int e\<rparr>"
    and bs: "bs = map (beat P tx) [k..<?k']"
    using rc deref_valid [OF p] s(1) by (auto simp: read_complete_enq)
  have kk: "k \<le> ?k'"
    using beats_done_mono [of P tx "?v ks" "?v (ks @ [j])"] beat_ready_mark [OF len] unfolding mark_all_snoc s(2) by (metis le_add1)
  have other: "dram_req_addr P tx i \<noteq> a" if "i < e" "i \<noteq> j" for i
    using dram_req_addr_inj [OF ok, of i j] that j s(3) by (metis less_le_trans)
  have "\<forall>i < e. i \<in> set (ks @ [j]) \<or> p \<in> set (inflight_contents (in_flight_reads m') (dram_req_addr P tx i))"
    using s(5) m'(4) [OF other] by auto
  moreover have "\<forall>a. p \<in> set (inflight_contents (in_flight_reads m') a) \<longrightarrow> (\<exists>j < e. a = dram_req_addr P tx j)"
    using s(6) m'(3) by blast
  ultimately have "read_state P m' p tx ?k'"
    unfolding read_state_def using s(3,4,7) j(1) t m'(1,2)
    by (intro exI [of _ "ks @ [j]"] exI [of _ e] exI [of _ "l + 1"]) simp
  with kk bs show ?thesis by (rule that)
qed

lemma read_callback_inv:
  assumes inv: "read_inv P acc rel m" and ptr: "ptr_inv acc m" and cb: "read_callback P a m = Inr m'"
  obtains p bs where "inflight_contents (in_flight_reads m) a = p # inflight_contents (in_flight_reads m') a"
    "read_inv P acc (rel @ map (Pair p) bs) m'" "ptr_inv acc m'" "read_view m' = read_view m @ bs"
proof -
  let ?C = "inflight_contents (in_flight_reads m)" and ?C' = "inflight_contents (in_flight_reads m')"
  from read_callback_parts [OF cb] obtain p t bs where c: "?C a = p # ?C' a" "\<And>b. b \<noteq> a \<Longrightarrow> ?C' b = ?C b"
    and rc: "rbind (deref m p) (read_complete P a) = Inr (t, bs)"
    and m': "tx_heap m' = (tx_heap m)[p := t] @ bs" "ddr_read_q m' = ddr_read_q m" "wptrs m' = wptrs m"
      "read_transactions m' = read_transactions m @ [length (tx_heap m)..<length (tx_heap m) + length bs]" by metis
  note inv' = read_invD [OF inv] and ptr' = ptr_invD [OF ptr]
  have sub: "set (?C' b) \<subseteq> set (?C b)" for b using c by (cases "b = a") auto
  have pC: "p \<in> set (?C a)" using c(1) by simp
  then have pa: "p \<in> fst ` set acc" using inv'(4) by blast
  from read_inv_entry [OF inv pa] obtain tx k where e: "(p, tx) \<in> set acc" "p < length (tx_heap m)" "req_ok P tx"
    "read_state P m p tx k" "map snd (filter (\<lambda>x. fst x = p) rel) = map (beat P tx) [0..<k]" .
  have "tx_heap m' ! p = t" using e(2) by (simp add: m'(1) nth_append)
  from read_complete_state [OF e(4,3,2) pC rc this m'(2) sub c(2)] obtain k' where
    k: "k \<le> k'" "bs = map (beat P tx) [k..<k']" "read_state P m' p tx k'" .
  have "[0..<k'] = [0..<k] @ [k..<k']" using k(1) by (metis le0 le_add_diff_inverse upt_add_eq_append)
  then have rel: "map snd (filter (\<lambda>x. fst x = p) (rel @ map (Pair p) bs)) = map (beat P tx) [0..<k']"
    using e(5) by (simp add: k(2) filter_map o_def)
  have "read_inv P acc (rel @ map (Pair p) bs) m'"
  proof (rule read_inv_change [OF inv e(1) _ k(3) rel])
    fix q assume q: "q \<in> fst ` set acc" "q \<noteq> p"
    have "q \<in> set (?C' b) \<longleftrightarrow> q \<in> set (?C b)" for b using c q(2) by (cases "b = a") auto
    with read_inv_lt [OF inv q(1)] q(2) show "q < length (tx_heap m') \<and> tx_heap m' ! q = tx_heap m ! q
        \<and> (\<forall>a. q \<in> set (?C' a) \<longleftrightarrow> q \<in> set (?C a)) \<and> (q \<in> set (ddr_read_q m') \<longleftrightarrow> q \<in> set (ddr_read_q m))"
      by (simp add: m' nth_append)
  next
    show "fst ` set (rel @ map (Pair p) bs) \<subseteq> fst ` set acc"
      using inv'(5) pa by (simp add: image_Un image_image image_constant_conv)
  qed (use e(2) inv'(2,3) subset_trans [OF sub inv'(4)] in \<open>simp_all add: m' filter_map o_def\<close>)
  moreover have lta: "\<forall>q \<in> fst ` set acc. q < length (tx_heap m)" using read_inv_lt [OF inv] by blast
  have "ptr_inv acc m'"
    using ptr below_disjoint [OF ptr'(2)] below_disjoint [OF ptr'(3)] below_disjoint [OF lta]
      below_mono [OF ptr'(2)] below_mono [OF ptr'(3)]
    unfolding ptr_inv_def m' by (simp add: Int_Un_distrib Int_Un_distrib2 Int_commute ball_Un)
  moreover have "p \<notin> set (read_transactions m)" using ptr'(5) pa by blast
  then have "read_view m' = read_view m @ bs"
    unfolding read_view_def m' using nth_append_update [OF _ ptr'(2)] nth_append_upt [of "(tx_heap m)[p := t]" bs] by simp
  ultimately show ?thesis using c(1) by (intro that [of p bs]) simp_all
qed

section \<open>The read channel\<close>

text \<open>What the channel shows for a beat.\<close>

definition r_signals :: "mem_params \<Rightarrow> bytes \<Rightarrow> memory_transaction \<Rightarrow> int \<times> bool \<times> u32 list" where
  "r_signals P mem tx = (tx_id tx, can_be_last tx,
     map (\<lambda>j. load32 mem (tx_addr tx + 4 * of_nat j)) [0..<nat (DATA_BUS_BYTES P div 4)])"

definition full_beat :: "mem_params \<Rightarrow> memory_transaction \<Rightarrow> bool" where
  "full_beat P tx \<longleftrightarrow> tx_len tx = 1 \<and> axi_bus_beats_progress tx = 0 \<and> tx_size tx = DATA_BUS_BYTES P"

text \<open>The data that a channel shows is that of the host memory at some moment: of one of a set \<open>M\<close> of memories.\<close>

definition r_ok :: "mem_params \<Rightarrow> bytes set \<Rightarrow> chan \<Rightarrow> bool" where
  "r_ok P M ch \<longleftrightarrow> length (mo_r_data ch) = nat (DATA_BUS_BYTES P div 4)
     \<and> list_all (full_beat P) (read_view (ch_mem ch))
     \<and> (mo_r_valid ch \<longrightarrow> read_view (ch_mem ch) \<noteq> []
          \<and> (\<exists>mem \<in> M. (mo_r_id ch, mo_r_last ch, mo_r_data ch) = r_signals P mem (hd (read_view (ch_mem ch)))))"

lemma beat_full: "tx_size tx = DATA_BUS_BYTES P \<Longrightarrow> full_beat P (beat P tx k)"
  by (simp add: full_beat_def beat_def new_transaction_def Let_def)

lemma read_view_Cons:
  assumes "read_view m = tx # txs"
  obtains p ps where "read_transactions m = p # ps" "tx = tx_heap m ! p" "txs = map ((!) (tx_heap m)) ps"
  using assms by (cases "read_transactions m") (auto simp: read_view_def)

lemma drive_read_signals:
  assumes "drive_read P sys ch = Inr ch'" and "list_all (full_beat P) (read_view (ch_mem ch))"
    and "length (mo_r_data ch) = nat (DATA_BUS_BYTES P div 4)" and "valid_ptrs (ch_mem ch) (read_transactions (ch_mem ch))"
    and "sys_bytes sys \<in> M"
  shows "r_ok P M ch'"
proof (cases "read_transactions (ch_mem ch)")
  case Nil
  with assms(1,3) show ?thesis by (auto simp: drive_read_def Let_def res_simps r_ok_def read_view_def)
next
  case (Cons p ps)
  let ?n = "nat (DATA_BUS_BYTES P div 4)" and ?tx = "tx_heap (ch_mem ch) ! p"
  have p: "p < length (tx_heap (ch_mem ch))" using assms(4) Cons by (simp add: valid_ptrs_def)
  have b: "tx_len ?tx = 1" "axi_bus_beats_progress ?tx = 0" "tx_size ?tx = DATA_BUS_BYTES P"
    using assms(2) Cons by (simp_all add: read_view_def full_beat_def)
  have l: "set_data_loop (sys_bytes sys) (tx_addr ?tx) 0 0 ?n (mo_r_data ch) =
      Inr (map (\<lambda>j. load32 (sys_bytes sys) (tx_addr ?tx + 4 * of_nat j)) [0..<?n])"
    using set_data_loop_eq [of 0 ?n "mo_r_data ch"] assms(3) by simp
  have "\<not> read_queue_lock (ch_mem ch)" using assms(1) by (auto simp: drive_read_def Let_def res_simps)
  then have "ch' = ch\<lparr>mo_r_data := map (\<lambda>j. load32 (sys_bytes sys) (tx_addr ?tx + 4 * of_nat j)) [0..<?n], mo_r_valid := True,
      mo_r_last := can_be_last ?tx, mo_r_id := tx_id ?tx\<rparr>"
    using assms(1) b l by (simp add: drive_read_def Let_def Cons deref_valid [OF p] mutex_lock_def)
  then show ?thesis using assms(2,5) Cons by (auto simp: r_ok_def r_signals_def read_view_def)
qed

text \<open>A transfer takes the beat in front of the queue.\<close>

lemma read_handshake_view:
  assumes "read_handshake P i ch sys = Inr (ch', sys')" and "r_ok P M ch"
    and inv: "read_inv P acc rel (ch_mem ch)" and ptr: "ptr_inv acc (ch_mem ch)"
  shows "read_inv P acc rel (ch_mem ch')" and "ptr_inv acc (ch_mem ch')" and "sys_bytes sys' = sys_bytes sys"
    and "read_view (ch_mem ch') = (if mo_r_valid ch \<and> mi_r_ready i then tl (read_view (ch_mem ch)) else read_view (ch_mem ch))"
    and "mo_r_data ch' = mo_r_data ch" and "mo_ar_ready ch' = mo_ar_ready ch"
    and "length (tx_heap (ch_mem ch')) = length (tx_heap (ch_mem ch))"
proof -
  let ?m = "ch_mem ch"
  have "read_inv P acc rel (ch_mem ch') \<and> ptr_inv acc (ch_mem ch') \<and> sys_bytes sys' = sys_bytes sys
    \<and> read_view (ch_mem ch') = (if mo_r_valid ch \<and> mi_r_ready i then tl (read_view ?m) else read_view ?m)
    \<and> mo_r_data ch' = mo_r_data ch \<and> mo_ar_ready ch' = mo_ar_ready ch \<and> length (tx_heap (ch_mem ch')) = length (tx_heap ?m)"
  proof (cases "mo_r_valid ch \<and> mi_r_ready i")
    case False
    with assms(1) have "ch' = ch" "sys' = sys" by (auto simp: read_handshake_def)
    with False inv ptr show ?thesis by auto
  next
    case True
    with assms(2) have ne: "read_view ?m \<noteq> []" and sg: "mo_r_last ch = can_be_last (hd (read_view ?m))"
      by (auto simp: r_ok_def r_signals_def)
    then obtain p ps where v: "read_transactions ?m = p # ps" "hd (read_view ?m) = tx_heap ?m ! p"
      by (cases "read_transactions ?m") (auto simp: read_view_def)
    have d: "p \<notin> set ps" "p < length (tx_heap ?m)" "p \<notin> fst ` set acc" using ptr v(1) by (auto simp: ptr_inv_def)
    from True assms(1) v sg deref_valid [OF d(2)] obtain t where
      m': "ch_mem ch' = ?m\<lparr>tx_heap := (tx_heap ?m)[p := t], read_transactions := ps\<rparr>"
      "sys_bytes sys' = sys_bytes sys" "mo_r_data ch' = mo_r_data ch" "mo_ar_ready ch' = mo_ar_ready ch"
      by (auto simp: read_handshake_def Let_def res_simps split: if_splits)
    have "read_inv P acc rel (ch_mem ch')"
    proof (rule read_inv_frame [OF inv])
      fix q assume q: "q \<in> fst ` set acc"
      then have "q \<noteq> p" using d(3) by blast
      with read_inv_lt [OF inv q] show "q < length (tx_heap (ch_mem ch')) \<and> tx_heap (ch_mem ch') ! q = tx_heap ?m ! q"
        by (simp add: m'(1))
    qed (simp_all add: m'(1))
    moreover have "ptr_inv acc (ch_mem ch')" using ptr v(1) by (auto simp: ptr_inv_def wptrs_def m'(1))
    moreover have "read_view (ch_mem ch') = tl (read_view ?m)"
      using d(1) by (auto simp: read_view_def m'(1) v(1)) (metis nth_list_update_neq)
    ultimately show ?thesis using True m' by simp
  qed
  then show "read_inv P acc rel (ch_mem ch')" and "ptr_inv acc (ch_mem ch')" and "sys_bytes sys' = sys_bytes sys"
    and "read_view (ch_mem ch') = (if mo_r_valid ch \<and> mi_r_ready i then tl (read_view (ch_mem ch)) else read_view (ch_mem ch))"
    and "mo_r_data ch' = mo_r_data ch" and "mo_ar_ready ch' = mo_ar_ready ch"
    and "length (tx_heap (ch_mem ch')) = length (tx_heap (ch_mem ch))" by blast+
qed

abbreviation r_fields :: "chan \<Rightarrow> bool \<times> int \<times> bool \<times> u32 list" where
  "r_fields ch \<equiv> (mo_r_valid ch, mo_r_id ch, mo_r_last ch, mo_r_data ch)"

lemma r_ok_cong: "r_fields ch' = r_fields ch \<Longrightarrow> read_view (ch_mem ch') = read_view (ch_mem ch) \<Longrightarrow> r_ok P M ch' = r_ok P M ch"
  by (simp add: r_ok_def)

lemma r_fields_kept:
  "response_handshake i ch = Inr ch' \<Longrightarrow> r_fields ch' = r_fields ch"
  "r_fields (drive_response ch) = r_fields ch"
  "accept_write P vpi ms i ch = Inr (Next ch') \<Longrightarrow> r_fields ch' = r_fields ch"
  "write_beat P i ch sys = Inr (ch', sys') \<Longrightarrow> r_fields ch' = r_fields ch"
  "drive_ready ch = Inr ch' \<Longrightarrow> r_fields ch' = r_fields ch"
  by (auto simp: response_handshake_def drive_response_def accept_write_def make_shared_def write_beat_def drive_ready_def
      Let_def res_simps split: if_splits sum.splits list.splits)

lemma channel_cycle_view:
  assumes "channel_cycle P vpi ms i ch sys = Inr (Next (ch', sys'))"
    and inv: "read_inv P acc rel (ch_mem ch)" and ptr: "ptr_inv acc (ch_mem ch)"
    and "list_all (full_beat P) (read_view (ch_mem ch))" and "length (mo_r_data ch) = nat (DATA_BUS_BYTES P div 4)"
    and mem: "sys_bytes sys \<in> M"
  shows "read_inv P acc rel (ch_mem ch')" and "ptr_inv acc (ch_mem ch')" and "read_view (ch_mem ch') = read_view (ch_mem ch)"
    and "r_ok P M ch'"
proof -
  from assms(1) obtain c1 c2 c3 c4 where 1: "response_handshake i ch = Inr c1" and 2: "drive_read P sys c1 = Inr c2"
    and 3: "accept_write P vpi ms i (drive_response c2) = Inr (Next c3)" and 4: "write_beat P i c3 sys = Inr (c4, sys')"
    and 5: "drive_ready c4 = Inr ch'"
    by (auto simp: channel_cycle_def res_simps flow_case_eq)
  note s1 = write_side_read [OF response_handshake_side [OF 1] inv ptr]
  have m2: "ch_mem c2 = ch_mem c1" by (rule drive_read_side [OF 2])
  have "write_side (ch_mem c2) (ch_mem ch')"
    using write_side_trans [OF drive_response_side write_side_trans [OF accept_write_side [OF 3] write_beat_side [OF 4]]]
    unfolding drive_ready_side [OF 5] .
  from write_side_read [OF this [unfolded m2] s1(1,2)] s1(3)
  show "read_inv P acc rel (ch_mem ch')" "ptr_inv acc (ch_mem ch')" and v: "read_view (ch_mem ch') = read_view (ch_mem ch)"
    by simp_all
  have "valid_ptrs (ch_mem c1) (read_transactions (ch_mem c1))" by (rule ptr_invD(4) [OF s1(2)])
  then have "r_ok P M c2"
    using drive_read_signals [OF 2 _ _ _ mem] assms(4,5) s1(3) r_fields_kept(1) [OF 1] by simp
  moreover have "r_fields ch' = r_fields c2"
    using r_fields_kept(2) [of c2] r_fields_kept(3) [OF 3] r_fields_kept(4) [OF 4] r_fields_kept(5) [OF 5] by simp
  ultimately show "r_ok P M ch'" using r_ok_cong [of ch' c2 P M] v s1(3) m2 by simp
qed

section \<open>Histories\<close>

text \<open>The read requests of an execution, each with the pointer of its transaction; the beats that completions release, with the
  pointer of the transaction they come from; and the transfers on the read data channel.\<close>

definition request :: "mem_params \<Rightarrow> u64 \<Rightarrow> mem_in \<Rightarrow> memory_transaction" where
  "request P ad i = new_transaction P ad (2 ^ mi_ar_size i) (int (mi_ar_len i) + 1) 0 False (mi_ar_id i) (mi_ar_addr i) False"

fun step_accepts :: "mem_params \<Rightarrow> bool \<Rightarrow> mappings \<Rightarrow> mem_state \<times> mem_event \<times> mem_state \<Rightarrow> (nat \<times> memory_transaction) list" where
  "step_accepts P vpi ms ((ch, sys), Cycle i, s') =
     (if mo_ar_ready ch \<and> mi_ar_valid i then
        (case translate vpi ms (mi_ar_addr i) of
           Inl e \<Rightarrow> []
         | Inr ad \<Rightarrow> [(length (tx_heap (ch_mem ch)), request P ad i)])
      else [])"
| "step_accepts P vpi ms _ = []"

fun step_releases :: "mem_state \<times> mem_event \<times> mem_state \<Rightarrow> (nat \<times> memory_transaction) list" where
  "step_releases ((ch, sys), Read_done a, (ch', sys')) =
     map (Pair (hd (inflight_contents (in_flight_reads (ch_mem ch)) a)))
       (drop (length (read_view (ch_mem ch))) (read_view (ch_mem ch')))"
| "step_releases _ = []"

fun step_transfers :: "mem_state \<times> mem_event \<times> mem_state \<Rightarrow> (int \<times> bool \<times> u32 list) list" where
  "step_transfers ((ch, sys), Cycle i, s') =
     (if mo_r_valid ch \<and> mi_r_ready i then [(mo_r_id ch, mo_r_last ch, mo_r_data ch)] else [])"
| "step_transfers _ = []"

abbreviation accepted :: "mem_params \<Rightarrow> bool \<Rightarrow> mappings \<Rightarrow> mem_trace \<Rightarrow> (nat \<times> memory_transaction) list" where
  "accepted P vpi ms tr \<equiv> concat (map (step_accepts P vpi ms) tr)"

abbreviation released :: "mem_trace \<Rightarrow> (nat \<times> memory_transaction) list" where
  "released tr \<equiv> concat (map step_releases tr)"

abbreviation transfers :: "mem_trace \<Rightarrow> (int \<times> bool \<times> u32 list) list" where
  "transfers tr \<equiv> concat (map step_transfers tr)"

definition mem_history ::
  "mem_params \<Rightarrow> bytes set \<Rightarrow> (nat \<times> memory_transaction) list \<Rightarrow> (nat \<times> memory_transaction) list
     \<Rightarrow> (int \<times> bool \<times> u32 list) list \<Rightarrow> chan \<Rightarrow> bool" where
  "mem_history P M acc rel ts ch \<longleftrightarrow>
     read_inv P acc rel (ch_mem ch) \<and> ptr_inv acc (ch_mem ch) \<and> r_ok P M ch
     \<and> (\<exists>done. map snd rel = done @ read_view (ch_mem ch) \<and> list_all2 (\<lambda>b t. \<exists>mem \<in> M. t = r_signals P mem b) done ts)"

lemma released_beat:
  assumes "read_inv P acc rel m" and "(p, b) \<in> set rel"
  obtains tx k where "(p, tx) \<in> set acc" "req_ok P tx" "b = beat P tx k"
proof -
  have "p \<in> fst ` set rel" using assms(2) by force
  then have "p \<in> fst ` set acc" using read_invD(5) [OF assms(1)] by blast
  from read_inv_entry [OF assms(1) this] obtain tx k where e: "(p, tx) \<in> set acc" "req_ok P tx"
    "map snd (filter (\<lambda>x. fst x = p) rel) = map (beat P tx) [0..<k]" .
  have "b \<in> set (map snd (filter (\<lambda>x. fst x = p) rel))" using assms(2) by force
  then obtain k' where "b = beat P tx k'" unfolding e(3) by auto
  with e show ?thesis by (intro that)
qed

lemma released_full:
  assumes "read_inv P acc rel m"
  shows "list_all (full_beat P) (map snd rel)"
  using assms unfolding list_all_iff by (auto elim!: released_beat intro: beat_full simp: req_ok_def)

lemma find_read_mem: "find_read P acc m before ps = Inr (Some p) \<Longrightarrow> p \<in> set ps"
  by (induction ps arbitrary: before) (auto simp: res_simps split: if_splits)

lemma find_write_mem: "find_write P acc m ps = Inr (Some p) \<Longrightarrow> p \<in> set ps"
  by (induction ps) (auto simp: res_simps split: if_splits)

lemma mem_history_view:
  assumes "mem_history P M acc rel ts ch" and "write_side (ch_mem ch) m"
  shows "mem_history P M acc rel ts (ch\<lparr>ch_mem := m\<rparr>)"
proof -
  have h: "read_inv P acc rel (ch_mem ch)" "ptr_inv acc (ch_mem ch)" "r_ok P M ch"
    using assms(1) by (simp_all add: mem_history_def)
  note w = write_side_read [OF assms(2) h(1,2)]
  have "r_ok P M (ch\<lparr>ch_mem := m\<rparr>)" using r_ok_cong [of "ch\<lparr>ch_mem := m\<rparr>" ch P M] h(3) w(3) by simp
  with assms(1) w show ?thesis by (simp add: mem_history_def)
qed

lemma try_to_enqueue_cases:
  assumes "try_to_enqueue_ddr P accept m = Inr m'"
  obtains m1 where "m1 = m \<or> (\<exists>p \<in> set (ddr_read_q m). issue_read P p m = Inr m1)" "write_side m1 m'"
proof -
  from assms obtain r m1 w where r: "find_read P (\<lambda>a. accept a False) m [] (ddr_read_q m) = Inr r"
    and m1: "(case r of None \<Rightarrow> Inr m | Some p \<Rightarrow> issue_read P p m) = Inr m1"
    and w: "find_write P (\<lambda>a. accept a True) m1 (ddr_write_q m1) = Inr w"
    and m': "(case w of None \<Rightarrow> Inr m1 | Some p \<Rightarrow> issue_write P p m1) = Inr m'"
    by (auto simp: try_to_enqueue_ddr_def res_simps)
  have "p \<in> set (ddr_read_q m)" if "r = Some p" for p using find_read_mem [OF r [unfolded that]] by simp
  moreover have "p \<in> set (ddr_write_q m1)" if "w = Some p" for p using find_write_mem [OF w [unfolded that]] .
  ultimately show ?thesis
    using m1 m' by (intro that [of m1]) (auto intro: write_side_refl issue_write_side split: option.splits)
qed

lemma mem_history_issue:
  assumes "mem_history P M acc rel ts ch" and "try_to_enqueue_ddr P accept (ch_mem ch) = Inr m"
  shows "mem_history P M acc rel ts (ch\<lparr>ch_mem := m\<rparr>)"
proof -
  have h: "read_inv P acc rel (ch_mem ch)" "ptr_inv acc (ch_mem ch)" "r_ok P M ch"
    using assms(1) by (simp_all add: mem_history_def)
  from try_to_enqueue_cases [OF assms(2)] obtain m1 where
    m1: "m1 = ch_mem ch \<or> (\<exists>p \<in> set (ddr_read_q (ch_mem ch)). issue_read P p (ch_mem ch) = Inr m1)" and w: "write_side m1 m" .
  have "read_inv P acc rel m1 \<and> ptr_inv acc m1 \<and> read_view m1 = read_view (ch_mem ch)"
    using m1 h(1,2) issue_read_inv [OF h(1,2)] by blast
  then have "mem_history P M acc rel ts (ch\<lparr>ch_mem := m1\<rparr>)"
    using assms(1) h(3) r_ok_cong [of "ch\<lparr>ch_mem := m1\<rparr>" ch P M] by (simp add: mem_history_def)
  from mem_history_view [OF this, of m] w show ?thesis by simp
qed

lemma mem_history_read_done:
  assumes "mem_history P M acc rel ts ch" and "read_callback P a (ch_mem ch) = Inr m"
  shows "mem_history P M acc (rel @ step_releases ((ch, sys), Read_done a, (ch\<lparr>ch_mem := m\<rparr>, sys))) ts (ch\<lparr>ch_mem := m\<rparr>)"
proof -
  have h: "read_inv P acc rel (ch_mem ch)" "ptr_inv acc (ch_mem ch)" "r_ok P M ch"
    using assms(1) by (simp_all add: mem_history_def)
  from read_callback_inv [OF h(1,2) assms(2)] obtain p bs where
    c: "inflight_contents (in_flight_reads (ch_mem ch)) a = p # inflight_contents (in_flight_reads m) a"
      "read_inv P acc (rel @ map (Pair p) bs) m" "ptr_inv acc m" "read_view m = read_view (ch_mem ch) @ bs" .
  have s: "step_releases ((ch, sys), Read_done a, (ch\<lparr>ch_mem := m\<rparr>, sys)) = map (Pair p) bs" by (simp add: c(1,4))
  have b: "list_all (full_beat P) bs" using released_full [OF c(2)] by (simp add: o_def)
  have "r_ok P M (ch\<lparr>ch_mem := m\<rparr>)" using h(3) b by (auto simp: r_ok_def c(4))
  moreover from assms(1) obtain del where "map snd rel = del @ read_view (ch_mem ch)" "list_all2 (\<lambda>b t. \<exists>mem \<in> M. t = r_signals P mem b) del ts"
    by (auto simp: mem_history_def)
  then have "map snd (rel @ map (Pair p) bs) = del @ read_view m" "list_all2 (\<lambda>b t. \<exists>mem \<in> M. t = r_signals P mem b) del ts"
    by (simp_all add: c(4) o_def)
  ultimately show ?thesis using c(2,3) unfolding s mem_history_def by auto
qed

lemma accept_read_Next:
  assumes "accept_read P vpi ms i ch = Inr (Next ch')" and "mo_ar_ready ch \<and> mi_ar_valid i"
  obtains ad where "translate vpi ms (mi_ar_addr i) = Inr ad"
    and "ch' = ch\<lparr>ch_mem := (ch_mem ch)\<lparr>tx_heap := tx_heap (ch_mem ch) @ [request P ad i],
        ddr_read_q := ddr_read_q (ch_mem ch) @ [length (tx_heap (ch_mem ch))]\<rparr>\<rparr>"
proof (cases "translate vpi ms (mi_ar_addr i)")
  case (Inl e)
  with assms show ?thesis by (simp add: accept_read_def)
next
  case (Inr ad)
  have "ad \<noteq> 0" using assms Inr by (auto simp: accept_read_def)
  moreover have "\<not> read_queue_lock (ch_mem ch)"
    using assms Inr \<open>ad \<noteq> 0\<close> by (auto simp: accept_read_def make_shared_def Let_def mutex_lock_def split: if_splits)
  ultimately have "accept_read P vpi ms i ch = Inr (Next (ch\<lparr>ch_mem := (ch_mem ch)\<lparr>tx_heap := tx_heap (ch_mem ch) @ [request P ad i],
        ddr_read_q := ddr_read_q (ch_mem ch) @ [length (tx_heap (ch_mem ch))]\<rparr>\<rparr>))"
    using assms(2) Inr by (simp add: accept_read_def make_shared_def request_def Let_def mutex_lock_def)
  with assms(1) Inr show ?thesis by (intro that [of ad]) simp_all
qed

lemma accept_read_history:
  assumes acc: "accept_read P vpi ms i c1 = Inr (Next c2)" and ar: "mo_ar_ready c1 = mo_ar_ready ch"
    and len: "length (tx_heap (ch_mem c1)) = length (tx_heap (ch_mem ch))"
    and inv: "read_inv P acc rel (ch_mem c1)" and ptr: "ptr_inv acc (ch_mem c1)"
    and ok: "\<forall>x \<in> set (step_accepts P vpi ms ((ch, sys), Cycle i, s')). req_ok P (snd x)"
  shows "read_inv P (acc @ step_accepts P vpi ms ((ch, sys), Cycle i, s')) rel (ch_mem c2)"
    and "ptr_inv (acc @ step_accepts P vpi ms ((ch, sys), Cycle i, s')) (ch_mem c2)"
    and "read_view (ch_mem c2) = read_view (ch_mem c1)" and "mo_r_data c2 = mo_r_data c1"
proof -
  let ?acc = "acc @ step_accepts P vpi ms ((ch, sys), Cycle i, s')"
  have "read_inv P ?acc rel (ch_mem c2) \<and> ptr_inv ?acc (ch_mem c2) \<and> read_view (ch_mem c2) = read_view (ch_mem c1)
      \<and> mo_r_data c2 = mo_r_data c1"
  proof (cases "mo_ar_ready ch \<and> mi_ar_valid i")
    case False
    then have "c2 = c1" using acc ar by (auto simp: accept_read_def)
    with False inv ptr show ?thesis by auto
  next
    case True
    then have "mo_ar_ready c1 \<and> mi_ar_valid i" using ar by simp
    from accept_read_Next [OF acc this] obtain ad where ad: "translate vpi ms (mi_ar_addr i) = Inr ad"
      and c2: "c2 = c1\<lparr>ch_mem := (ch_mem c1)\<lparr>tx_heap := tx_heap (ch_mem c1) @ [request P ad i],
        ddr_read_q := ddr_read_q (ch_mem c1) @ [length (tx_heap (ch_mem c1))]\<rparr>\<rparr>" .
    have a: "step_accepts P vpi ms ((ch, sys), Cycle i, s') = [(length (tx_heap (ch_mem c1)), request P ad i)]"
      using True ad len by simp
    have "req_ok P (request P ad i)" using ok unfolding a by simp
    from accept_read_inv [OF inv ptr this, of "ch_mem c2"] show ?thesis unfolding a by (simp add: c2)
  qed
  then show "read_inv P ?acc rel (ch_mem c2)" "ptr_inv ?acc (ch_mem c2)" "read_view (ch_mem c2) = read_view (ch_mem c1)"
    "mo_r_data c2 = mo_r_data c1" by blast+
qed

lemma mem_history_cycle:
  assumes h: "mem_history P M acc rel ts ch" and t: "mem_tick P vpi ms [i] [ch] sys = Inr (Next ([ch'], sys'))"
    and mem: "sys_bytes sys \<in> M" and ok: "\<forall>x \<in> set (step_accepts P vpi ms ((ch, sys), Cycle i, s')). req_ok P (snd x)"
  shows "mem_history P M (acc @ step_accepts P vpi ms ((ch, sys), Cycle i, s')) rel
    (ts @ step_transfers ((ch, sys), Cycle i, s')) ch'"
proof -
  have i: "read_inv P acc rel (ch_mem ch)" "ptr_inv acc (ch_mem ch)" "r_ok P M ch"
    using h by (simp_all add: mem_history_def)
  from t obtain c1 s1 c2 where 1: "read_handshake P i ch sys = Inr (c1, s1)" and 2: "accept_read P vpi ms i c1 = Inr (Next c2)"
    and 3: "channel_cycle P vpi ms i c2 s1 = Inr (Next (ch', sys'))"
    by (auto simp: mem_tick_def res_simps flow_case_eq)
  note r = read_handshake_view [OF 1 i(3,1,2)]
  let ?acc = "acc @ step_accepts P vpi ms ((ch, sys), Cycle i, s')"
  note c2 = accept_read_history [OF 2 r(6,7,1,2) ok]
  have m1: "sys_bytes s1 \<in> M" using r(3) mem by simp
  have "list_all (full_beat P) (read_view (ch_mem c2))" "length (mo_r_data c2) = nat (DATA_BUS_BYTES P div 4)"
    using i(3) r(4,5) c2(3,4) by (auto simp: r_ok_def list_all_iff dest: list.set_sel(2) [rotated] split: if_splits)
  note cc = channel_cycle_view [OF 3 c2(1,2) this m1]
  have "\<exists>done. map snd rel = done @ read_view (ch_mem ch')
      \<and> list_all2 (\<lambda>b t. \<exists>mem \<in> M. t = r_signals P mem b) done (ts @ step_transfers ((ch, sys), Cycle i, s'))"
  proof -
    from h obtain del where d: "map snd rel = del @ read_view (ch_mem ch)" "list_all2 (\<lambda>b t. \<exists>mem \<in> M. t = r_signals P mem b) del ts"
      by (auto simp: mem_history_def)
    show ?thesis
    proof (cases "mo_r_valid ch \<and> mi_r_ready i")
      case False
      with d cc(3) c2(3) r(4) show ?thesis by auto
    next
      case True
      with i(3) have ne: "read_view (ch_mem ch) \<noteq> []" and sg: "\<exists>mem \<in> M. (mo_r_id ch, mo_r_last ch, mo_r_data ch) = r_signals P mem (hd (read_view (ch_mem ch)))"
        by (auto simp: r_ok_def)
      have "map snd rel = (del @ [hd (read_view (ch_mem ch))]) @ read_view (ch_mem ch')"
        using d(1) cc(3) c2(3) r(4) True ne by simp
      moreover have "list_all2 (\<lambda>b t. \<exists>mem \<in> M. t = r_signals P mem b) (del @ [hd (read_view (ch_mem ch))])
          (ts @ step_transfers ((ch, sys), Cycle i, s'))"
        using d(2) True sg by (intro list_all2_appendI) simp_all
      ultimately show ?thesis by blast
    qed
  qed
  then show ?thesis using cc(1,2,4) unfolding mem_history_def by blast
qed

definition mem_fresh :: "mem_params \<Rightarrow> chan \<Rightarrow> bool" where
  "mem_fresh P ch \<longleftrightarrow> ddr_read_q (ch_mem ch) = [] \<and> (\<forall>a. inflight_contents (in_flight_reads (ch_mem ch)) a = [])
     \<and> read_transactions (ch_mem ch) = [] \<and> wptrs (ch_mem ch) = {}
     \<and> \<not> mo_r_valid ch \<and> length (mo_r_data ch) = nat (DATA_BUS_BYTES P div 4)"

definition read_idle :: "chan \<Rightarrow> bool" where
  "read_idle ch \<longleftrightarrow> ddr_read_q (ch_mem ch) = [] \<and> (\<forall>a. inflight_contents (in_flight_reads (ch_mem ch)) a = [])
     \<and> read_transactions (ch_mem ch) = []"

lemma mem_history_exec:
  assumes "mem_exec P vpi ms s tr s'" and "mem_fresh P (fst s)" and "\<forall>x \<in> set tr. sys_bytes (snd (fst x)) \<in> M"
    and "\<forall>x \<in> set (accepted P vpi ms tr). req_ok P (snd x)"
  shows "mem_history P M (accepted P vpi ms tr) (released tr) (transfers tr) (fst s')"
  using assms
proof (induction rule: mem_exec.induct)
  case exec_nil
  from exec_nil.prems(1) have "read_inv P [] [] (ch_mem (fst s))" "ptr_inv [] (ch_mem (fst s))" "r_ok P M (fst s)"
    "read_view (ch_mem (fst s)) = []"
    by (simp_all add: mem_fresh_def read_inv_def ptr_inv_def r_ok_def read_view_def)
  then show ?case by (simp add: mem_history_def)
next
  case (exec_snoc tr s1 e s2)
  obtain ch sys where s1: "s1 = (ch, sys)" by (cases s1)
  have h: "mem_history P M (accepted P vpi ms tr) (released tr) (transfers tr) ch"
    using exec_snoc.IH exec_snoc.prems by (simp add: s1)
  from exec_snoc.hyps(2) [unfolded s1] show ?case
  proof cases
    case (cycle i ch' sys')
    have "\<forall>x \<in> set (step_accepts P vpi ms ((ch, sys), Cycle i, s2)). req_ok P (snd x)" and "sys_bytes sys \<in> M"
      using exec_snoc.prems(2,3) cycle(1) by (simp_all add: s1 del: step_accepts.simps)
    from mem_history_cycle [OF h cycle(3) this(2,1)] cycle(1,2) show ?thesis by (simp add: s1)
  next
    case (issue acc m)
    with mem_history_issue [OF h issue(3)] show ?thesis by (simp add: s1)
  next
    case (read_done a m)
    with mem_history_read_done [OF h read_done(3), of sys] show ?thesis by (simp add: s1)
  next
    case (write_done a m)
    with mem_history_view [OF h write_callback_side [OF write_done(3)]] show ?thesis by (simp add: s1)
  next
    case (outside sys')
    with h show ?thesis by (simp add: s1)
  qed
qed

lemma beats_done_all:
  assumes ok: "read_tx_ok P tx" and all: "{0..<nat (dram_tx_n_enqueues tx)} \<subseteq> set ks"
  shows "beats_done P tx (mark_all P ks (ddr_bus_beats_retrieved tx)) = n_beats P tx"
proof -
  let ?v = "ddr_bus_beats_retrieved tx"
  note d = read_tx_okD [OF ok]
  have B: "0 < burst P" using d(2) by simp
  have lv: "length ?v = n_beats P tx * mult P"
    using d(2,4,11) retrieved_length(1) [OF ok] by (simp add: nat_mult_distrib)
  have "mark_all P ks ?v ! i" if i: "i < n_beats P tx * mult P" for i
  proof -
    have "i < nat (dram_tx_n_enqueues tx) * burst P" using i retrieved_length(1) [OF ok] by simp
    then have "i div burst P \<in> {0..<nat (dram_tx_n_enqueues tx)}" using B by (simp add: less_mult_imp_div_less)
    then have "i div burst P \<in> set ks" using all by blast
    then show ?thesis using nth_mark_all [of i ?v P ks] i lv B by simp
  qed
  moreover have "k * mult P + i < n_beats P tx * mult P" if "k < n_beats P tx" "i < mult P" for k i
  proof -
    have "Suc k * mult P \<le> n_beats P tx * mult P" using that(1) by (intro mult_le_mono1) simp
    then show ?thesis using that(2) by simp
  qed
  ultimately have "\<forall>k \<in> set [0..<n_beats P tx]. beat_ready P (mark_all P ks ?v) k" by (simp add: beat_ready_def)
  then have "takeWhile (beat_ready P (mark_all P ks ?v)) [0..<n_beats P tx] = [0..<n_beats P tx]"
    by (simp only: takeWhile_eq_all_conv)
  then show ?thesis by (simp only: beats_done_def length_upt)
qed

definition expected_beat :: "mem_params \<Rightarrow> bytes \<Rightarrow> memory_transaction \<Rightarrow> nat \<Rightarrow> int \<times> bool \<times> u32 list" where
  "expected_beat P mem tx k = (tx_id tx, Suc k = n_beats P tx,
     map (\<lambda>j. load32 mem (tx_addr tx + of_int (tx_size tx * int k) + 4 * of_nat j)) [0..<nat (DATA_BUS_BYTES P div 4)])"

lemma r_signals_beat: "r_signals P mem (beat P tx k) = expected_beat P mem tx k"
  by (simp add: r_signals_def expected_beat_def beat_def new_transaction_def Let_def)

lemma append_map_prefix:
  assumes "xs @ ys = map f [0..<K]"
  shows "xs = map f [0..<length xs] \<and> length xs \<le> K"
proof -
  have "length (xs @ ys) = K" using assms by simp
  then have le: "length xs \<le> K" by simp
  have "xs = take (length xs) (map f [0..<K])" unfolding assms [symmetric] by simp
  with le show ?thesis by (simp add: take_map take_upt)
qed

text \<open>A list of transfers that shows the first \<open>k\<close> beats of a request, each with the data of a memory of the set.\<close>

definition shows_beats :: "mem_params \<Rightarrow> bytes set \<Rightarrow> memory_transaction \<Rightarrow> nat \<Rightarrow> (int \<times> bool \<times> u32 list) list \<Rightarrow> bool" where
  "shows_beats P M tx k ts \<longleftrightarrow> list_all2 (\<lambda>j t. \<exists>mem \<in> M. t = expected_beat P mem tx j) [0..<k] ts"

lemma shows_beats_single: "shows_beats P {mem} tx k ts \<longleftrightarrow> ts = map (expected_beat P mem tx) [0..<k]"
  by (auto simp: shows_beats_def list_all2_conv_all_nth intro!: nth_equalityI)

lemma list_all2_zip_filter:
  assumes "list_all2 R (map snd xs) ts"
  shows "list_all2 R (map snd (filter (\<lambda>x. fst x = p) xs)) (map snd (filter (\<lambda>x. fst x = p) (zip (map fst xs) ts)))"
  using assms by (induction xs arbitrary: ts) (auto simp: list_all2_Cons1)

lemma list_all2_filter_same:
  assumes "list_all2 R xs ys" and "\<And>x y. R x y \<Longrightarrow> Q x \<longleftrightarrow> Q' y"
  shows "list_all2 R (filter Q xs) (filter Q' ys)"
  using assms by (induction rule: list_all2_induct) auto

lemma read_state_beats:
  assumes "read_state P (ch_mem ch) p tx k"
  shows "k \<le> n_beats P tx" and "req_ok P tx \<Longrightarrow> read_idle ch \<Longrightarrow> k = n_beats P tx"
proof -
  from assms obtain ks n where s: "k = beats_done P tx (mark_all P ks (ddr_bus_beats_retrieved tx))"
    "n \<le> nat (dram_tx_n_enqueues tx)"
    "\<forall>j < n. j \<in> set ks \<or> p \<in> set (inflight_contents (in_flight_reads (ch_mem ch)) (dram_req_addr P tx j))"
    "p \<in> set (ddr_read_q (ch_mem ch)) \<longleftrightarrow> n < nat (dram_tx_n_enqueues tx)"
    unfolding read_state_def by blast
  show "k \<le> n_beats P tx" using beats_done_le s(1) by simp
  assume "req_ok P tx" "read_idle ch"
  moreover from this have "n = nat (dram_tx_n_enqueues tx)" "\<forall>j < n. j \<in> set ks" using s(2-4) by (auto simp: read_idle_def)
  ultimately show "k = n_beats P tx" using s(1) by (auto simp: req_ok_def intro!: beats_done_all)
qed

text \<open>The beats of a request that have been transferred are those at the front of its released beats.\<close>

lemma read_all_delivered:
  assumes ex: "mem_exec P vpi ms s tr s'" and "mem_fresh P (fst s)" and "\<forall>x \<in> set tr. sys_bytes (snd (fst x)) \<in> M"
    and "\<forall>x \<in> set (accepted P vpi ms tr). req_ok P (snd x)"
  obtains owner where "length owner = length (transfers tr)" and "set owner \<subseteq> fst ` set (accepted P vpi ms tr)"
    and "distinct (map fst (accepted P vpi ms tr))"
    and "\<And>p tx. (p, tx) \<in> set (accepted P vpi ms tr) \<Longrightarrow> \<exists>k \<le> n_beats P tx.
      shows_beats P M tx k (map snd (filter (\<lambda>x. fst x = p) (zip owner (transfers tr))))
      \<and> (distinct (map (\<lambda>x. tx_id (snd x)) (accepted P vpi ms tr)) \<longrightarrow>
          shows_beats P M tx k (filter (\<lambda>t. fst t = tx_id tx) (transfers tr)))
      \<and> (read_idle (fst s') \<longrightarrow> k = n_beats P tx)"
proof -
  let ?acc = "accepted P vpi ms tr" and ?rel = "released tr" and ?m = "ch_mem (fst s')"
  let ?R = "\<lambda>b t. \<exists>mem \<in> M. t = r_signals P mem b"
  have h: "read_inv P ?acc ?rel ?m" using mem_history_exec [OF assms] by (simp add: mem_history_def)
  from mem_history_exec [OF assms] obtain del where
    d: "map snd ?rel = del @ read_view ?m" "list_all2 ?R del (transfers tr)" by (auto simp: mem_history_def)
  define xs where "xs = take (length del) ?rel"
  define ys where "ys = drop (length del) ?rel"
  have xs: "map snd xs = del" "map snd ys = read_view ?m" "?rel = xs @ ys"
    by (simp_all add: xs_def ys_def take_map [symmetric] drop_map [symmetric] d(1))
  have all: "list_all2 ?R (map snd xs) (transfers tr)" using d(2) by (simp only: xs(1))
  show ?thesis
  proof (rule that [of "map fst xs"])
    show "length (map fst xs) = length (transfers tr)" using list_all2_lengthD [OF all] by simp
    show "set (map fst xs) \<subseteq> fst ` set ?acc" using read_invD(5) [OF h] xs(3) by auto
    show "distinct (map fst ?acc)" by (rule read_invD(1) [OF h])
    fix p tx assume p: "(p, tx) \<in> set ?acc"
    let ?f = "filter (\<lambda>x. fst x = p)"
    have "p \<in> fst ` set ?acc" using p by force
    from read_inv_entry [OF h this] obtain tx' K where e: "(p, tx') \<in> set ?acc" "req_ok P tx'" "read_state P ?m p tx' K"
      "map snd (?f ?rel) = map (beat P tx') [0..<K]" .
    have tx': "tx' = tx" by (rule read_inv_unique [OF h p e(1)])
    have f: "map snd (?f xs) @ map snd (?f ys) = map (beat P tx) [0..<K]" using e(4) unfolding tx' xs(3) by simp
    let ?k = "length (map snd (?f xs))"
    note k = append_map_prefix [OF f] and K = read_state_beats [OF e(3)]
    have sb: "shows_beats P M tx ?k ts" if "list_all2 ?R (map snd (?f xs)) ts" for ts
    proof -
      have "list_all2 ?R (map (beat P tx) [0..<?k]) ts" using that k by simp
      then show ?thesis by (simp add: shows_beats_def list_all2_map1 r_signals_beat)
    qed
    have "shows_beats P M tx ?k (map snd (?f (zip (map fst xs) (transfers tr))))"
      by (rule sb [OF list_all2_zip_filter [OF all]])
    moreover have "shows_beats P M tx ?k (filter (\<lambda>t. fst t = tx_id tx) (transfers tr))"
      if ids: "distinct (map (\<lambda>x. tx_id (snd x)) ?acc)"
    proof (rule sb)
      have idp: "tx_id b = tx_id tx \<longleftrightarrow> q = p" if "(q, b) \<in> set xs" for q b
      proof -
        have "(q, b) \<in> set ?rel" using that xs(3) by simp
        from released_beat [OF h this] obtain t k where t: "(q, t) \<in> set ?acc" "b = beat P t k" by metis
        then have "tx_id b = tx_id t" by (simp add: beat_def new_transaction_def Let_def)
        moreover have "tx_id t = tx_id tx \<longleftrightarrow> (q, t) = (p, tx)"
          using ids t(1) p unfolding distinct_map inj_on_def by (metis snd_conv)
        ultimately show ?thesis using read_inv_unique [OF h p] t(1) by auto
      qed
      have "list_all2 ?R (filter (\<lambda>b. tx_id b = tx_id tx) (map snd xs)) (filter (\<lambda>t. fst t = tx_id tx) (transfers tr))"
        by (rule list_all2_filter_same [OF all]) (auto simp: r_signals_def)
      moreover have "filter (\<lambda>b. tx_id b = tx_id tx) (map snd xs) = map snd (?f xs)"
        using idp by (auto simp: filter_map intro!: arg_cong [of _ _ "map snd"] filter_cong)
      ultimately show "list_all2 ?R (map snd (?f xs)) (filter (\<lambda>t. fst t = tx_id tx) (transfers tr))" by simp
    qed
    moreover have "?k = n_beats P tx" if "read_idle (fst s')"
    proof -
      have "map snd ys = []" using that xs(2) by (simp add: read_idle_def read_view_def)
      then have "ys = []" by simp
      then have "?k = length (map (beat P tx) [0..<K])" unfolding f [symmetric] by simp
      then have "?k = K" by simp
      then show ?thesis using K(2) e(2) that tx' by simp
    qed
    moreover have "?k \<le> n_beats P tx" using k K(1) tx' by simp
    ultimately show "\<exists>k \<le> n_beats P tx. shows_beats P M tx k (map snd (?f (zip (map fst xs) (transfers tr))))
      \<and> (distinct (map (\<lambda>x. tx_id (snd x)) ?acc) \<longrightarrow> shows_beats P M tx k (filter (\<lambda>t. fst t = tx_id tx) (transfers tr)))
      \<and> (read_idle (fst s') \<longrightarrow> k = n_beats P tx)" by blast
  qed
qed

section \<open>Property\<close>

text \<open>C3: full-width reads are answered with their own beats, in the order of each read, from the address channel to the data channel. Take
  any execution of cycles, DRAM requests and DRAM completions, in any order, from a channel with an idle read side, in which every accepted read
  has beats as wide as the bus and is a whole number of DRAM requests long (\<open>req_ok\<close>); identifiers may repeat and the host memory may
  change. Every transfer on the data channel then belongs to one accepted read (its owner, given by the transaction's address; different
  reads have different ones), and the transfers of a read are its first beats, in order, each with its identifier, the last flag on its last beat only, and as data
  the words at the beat's address in the host memory as it was at one moment of the execution; once the read side is idle again these are all its beats. When all reads have different
  identifiers, the transfers of a read are those with its identifier. When the host memory does not change, the data is that memory's (\<open>M\<close> a
  singleton). Reads with narrow beats are not answered in this way (\<open>narrow_read_unanswered\<close> in \<open>Mem_Ctrl\<close>), and reads with the same identifier
  may be answered out of order (\<open>same_id_reads_reordered\<close>).\<close>

theorem reads_delivered:
  assumes ex: "mem_exec P vpi ms s tr s'" and "mem_fresh P (fst s)" and "\<forall>x \<in> set tr. sys_bytes (snd (fst x)) \<in> M"
    and "\<forall>x \<in> set (accepted P vpi ms tr). req_ok P (snd x)"
  shows "\<exists>owner. length owner = length (transfers tr) \<and> set owner \<subseteq> fst ` set (accepted P vpi ms tr)
    \<and> distinct (map fst (accepted P vpi ms tr))
    \<and> (\<forall>(p, tx) \<in> set (accepted P vpi ms tr). \<exists>k \<le> n_beats P tx.
        shows_beats P M tx k (map snd (filter (\<lambda>x. fst x = p) (zip owner (transfers tr))))
        \<and> (distinct (map (\<lambda>x. tx_id (snd x)) (accepted P vpi ms tr)) \<longrightarrow>
            shows_beats P M tx k (filter (\<lambda>t. fst t = tx_id tx) (transfers tr)))
        \<and> (read_idle (fst s') \<longrightarrow> k = n_beats P tx))"
  by (rule read_all_delivered [OF assms]) blast

text \<open>A read of two beats, one DRAM request.\<close>

definition demo_read :: "mem_event list" where
  "demo_read = [Cycle (demo_mem_in\<lparr>mi_ar_valid := True, mi_ar_addr := 0x1000, mi_ar_size := 5, mi_ar_len := 1, mi_ar_id := 3\<rparr>),
     Issue (\<lambda>a w. True), Read_done 0x1000, Cycle demo_mem_in, Cycle demo_mem_in, Cycle demo_mem_in]"

text \<open>Steps of a channel that has no write under way leave the host memory alone.\<close>

fun no_write :: "mem_state \<times> mem_event \<times> mem_state \<Rightarrow> bool" where
  "no_write ((ch, sys), Cycle i, s') \<longleftrightarrow> write_transactions (ch_mem ch) = [] \<and> \<not> mi_aw_valid i"
| "no_write ((ch, sys), Outside sys', s') \<longleftrightarrow> sys_bytes sys' = sys_bytes sys"
| "no_write _ \<longleftrightarrow> True"

lemma read_handshake_writes: "read_handshake P i ch sys = Inr (ch', sys') \<Longrightarrow>
    write_transactions (ch_mem ch') = write_transactions (ch_mem ch) \<and> sys_bytes sys' = sys_bytes sys"
  by (auto simp: read_handshake_def Let_def res_simps split: if_splits)

lemma accept_read_writes: "accept_read P vpi ms i ch = Inr (Next ch') \<Longrightarrow>
    write_transactions (ch_mem ch') = write_transactions (ch_mem ch)"
  by (auto simp: accept_read_def make_shared_def Let_def res_simps split: if_splits)

lemma channel_cycle_bytes:
  assumes "channel_cycle P vpi ms i ch sys = Inr (Next (ch', sys'))" and "write_transactions (ch_mem ch) = []" and "\<not> mi_aw_valid i"
  shows "sys_bytes sys' = sys_bytes sys"
proof -
  from assms(1) obtain c1 c2 c3 c4 where 1: "response_handshake i ch = Inr c1" and 2: "drive_read P sys c1 = Inr c2"
    and 3: "accept_write P vpi ms i (drive_response c2) = Inr (Next c3)" and 4: "write_beat P i c3 sys = Inr (c4, sys')"
    by (auto simp: channel_cycle_def res_simps flow_case_eq)
  have "write_transactions (ch_mem c1) = []" using 1 assms(2) by (auto simp: response_handshake_def res_simps split: if_splits)
  then have "write_transactions (ch_mem (drive_response c2)) = []"
    by (simp add: drive_response_def Let_def drive_read_side [OF 2] split: list.split)
  moreover have "c3 = drive_response c2" using 3 assms(3) by (simp add: accept_write_def)
  ultimately show ?thesis using 4 by (simp add: write_beat_def)
qed

lemma mem_step_bytes:
  assumes "mem_step P vpi ms s e s'" and "no_write (s, e, s')"
  shows "sys_bytes (snd s') = sys_bytes (snd s)"
  using assms
proof cases
  case (cycle i ch sys ch' sys')
  from cycle(4) obtain c1 s1 c2 where 1: "read_handshake P i ch sys = Inr (c1, s1)" and 2: "accept_read P vpi ms i c1 = Inr (Next c2)"
    and 3: "channel_cycle P vpi ms i c2 s1 = Inr (Next (ch', sys'))"
    by (auto simp: mem_tick_def res_simps flow_case_eq)
  from channel_cycle_bytes [OF 3] read_handshake_writes [OF 1] accept_read_writes [OF 2] assms(2) cycle(1-3)
  show ?thesis by simp
qed auto

lemma mem_exec_bytes:
  assumes "mem_exec P vpi ms s tr s'" and "\<forall>x \<in> set tr. no_write x"
  shows "(\<forall>x \<in> set tr. sys_bytes (snd (fst x)) = sys_bytes (snd s)) \<and> sys_bytes (snd s') = sys_bytes (snd s)"
  using assms by (induction rule: mem_exec.induct) (auto dest!: mem_step_bytes)

theorem reads_delivered_witness:
  "\<exists>tr s'. mem_run demo_P False example_table demo_read (demo_chan empty_mem, demo_sys) = Some (tr, s')
    \<and> transfers tr = map (expected_beat demo_P (\<lambda>a. ucast a) (request demo_P 0x70000
          (demo_mem_in\<lparr>mi_ar_valid := True, mi_ar_addr := 0x1000, mi_ar_size := 5, mi_ar_len := 1, mi_ar_id := 3\<rparr>))) [0, 1]"
proof -
  let ?s = "(demo_chan empty_mem, demo_sys)" and ?r = "mem_run demo_P False example_table demo_read (demo_chan empty_mem, demo_sys)"
  let ?i = "demo_mem_in\<lparr>mi_ar_valid := True, mi_ar_addr := 0x1000, mi_ar_size := 5, mi_ar_len := 1, mi_ar_id := 3\<rparr>"
  let ?tx = "request demo_P 0x70000 ?i"
  have "case ?r of None \<Rightarrow> False | Some (tr, s') \<Rightarrow> list_all no_write tr \<and> accepted demo_P False example_table tr = [(0, ?tx)]
      \<and> map fst (transfers tr) = [3, 3]" by code_simp
  then obtain tr s' where r: "?r = Some (tr, s')" and w: "\<forall>x \<in> set tr. no_write x"
    and a: "accepted demo_P False example_table tr = [(0, ?tx)]" and t: "map fst (transfers tr) = [3, 3]"
    by (auto simp: list_all_iff split: option.splits)
  have fresh: "mem_fresh demo_P (fst ?s)"
    by (simp add: mem_fresh_def demo_chan_def empty_mem_def wptrs_def inflight_contents_def demo_P_def)
  have b: "\<forall>x \<in> set tr. sys_bytes (snd (fst x)) \<in> {\<lambda>a. ucast a}"
    using mem_exec_bytes [OF mem_run_exec [OF r] w] by (simp add: demo_sys_def)
  have "req_ok demo_P ?tx" by code_simp
  with reads_delivered [OF mem_run_exec [OF r] fresh b] obtain k where k: "k \<le> n_beats demo_P ?tx"
    "filter (\<lambda>t. fst t = tx_id ?tx) (transfers tr) = map (expected_beat demo_P (\<lambda>a. ucast a) ?tx) [0..<k]"
    by (auto simp: a shows_beats_single)
  have "tx_id ?tx = 3" by code_simp
  moreover have "fst ` set (transfers tr) = {3}" using arg_cong [OF t, of set] by (simp only: set_map) simp
  then have "\<forall>x \<in> set (transfers tr). fst x = 3" by blast
  ultimately have f: "filter (\<lambda>t. fst t = tx_id ?tx) (transfers tr) = transfers tr" by (simp only: filter_id_conv)
  have "length (transfers tr) = 2" using arg_cong [OF t, of length] by (simp only: length_map) simp
  then have "length (map (expected_beat demo_P (\<lambda>a. ucast a) ?tx) [0..<k]) = 2" using f k(2) by (simp only:)
  then have "k = 2" by simp
  then have "[0..<k] = [0, 1]" by (simp add: upt_rec numeral_2_eq_2)
  with r f k(2) show ?thesis by (simp only: option.inject) blast
qed

section \<open>Reads with the same identifier\<close>

text \<open>A read of one DRAM request that waits in the queue.\<close>

definition single_read :: "mem_params \<Rightarrow> mem_intf \<Rightarrow> nat \<Rightarrow> bool" where
  "single_read P m p \<longleftrightarrow> p < length (tx_heap m) \<and> p \<notin> set (read_transactions m)
     \<and> read_tx_ok P (tx_heap m ! p) \<and> dram_tx_axi_enqueue_progress (tx_heap m ! p) = 0 \<and> dram_tx_n_enqueues (tx_heap m ! p) = 1
     \<and> inflight_contents (in_flight_reads m) (tx_fpga_addr (tx_heap m ! p)) = []"

text \<open>A queue's oldest read of one request leaves the queue as the request is handed over.\<close>

lemma issue_single:
  assumes "single_read P m p" and "ddr_read_q m = p # ps" and "ddr_write_q m = []" and "\<not> read_queue_lock m" and "\<not> write_queue_lock m"
    and acc: "accept (tx_fpga_addr (tx_heap m ! p)) False"
  shows "try_to_enqueue_ddr P accept m = Inr (m\<lparr>tx_heap := (tx_heap m)[p := (tx_heap m ! p)\<lparr>dram_tx_axi_enqueue_progress := 1\<rparr>],
    dram_log := dram_log m @ [(tx_fpga_addr (tx_heap m ! p), False)],
    in_flight_reads := inflight_push (tx_fpga_addr (tx_heap m ! p)) p (in_flight_reads m), ddr_read_q := ps\<rparr>)"
proof -
  have p: "p < length (tx_heap m)" and e: "dram_tx_axi_enqueue_progress (tx_heap m ! p) = 0" "dram_tx_n_enqueues (tx_heap m ! p) = 1"
    using assms(1) by (simp_all add: single_read_def)
  have a: "dimm_addr P (tx_heap m ! p) = tx_fpga_addr (tx_heap m ! p)" by (simp add: dimm_addr_def e(1))
  have f: "find_read P (\<lambda>a. accept a False) m [] (ddr_read_q m) = Inr (Some p)" using acc by (simp add: assms(2) deref_valid [OF p] a)
  show ?thesis
    unfolding try_to_enqueue_ddr_def f using assms(2-5) by (simp add: issue_read_def deref_valid [OF p] a e Let_def mutex_lock_def dramsim_tx_finished_def)
qed

text \<open>Its completion releases all its beats.\<close>

lemma complete_single:
  assumes ok: "read_tx_ok P tx" and e: "dram_tx_axi_enqueue_progress tx = 0" "dram_tx_n_enqueues tx = 1"
  shows "\<exists>t. read_complete P (tx_fpga_addr tx) (tx\<lparr>dram_tx_axi_enqueue_progress := 1\<rparr>) = Inr (t, map (beat P tx) [0..<n_beats P tx])"
proof -
  let ?v = "ddr_bus_beats_retrieved tx"
  note d = read_tx_okD [OF ok]
  have len: "length ?v = n_beats P tx * mult P"
    using d(2,4,11) retrieved_length(1) [OF ok] by (simp add: nat_mult_distrib)
  have t: "tx_at tx (dram_tx_load_progress tx) ?v (beats_done P tx ?v) = tx"
    using d(5) by (simp add: tx_at_def beats_done_start [OF ok])
  have all: "beats_done P tx (mark (0 * burst P) (burst P) ?v) = n_beats P tx"
    using beats_done_all [OF ok, of "[0]"] e(2) by simp
  have "read_complete P (dram_req_addr P tx 0) (tx_at tx (dram_tx_load_progress tx) ?v (beats_done P tx ?v)) =
      Inr (tx_at tx (dram_tx_load_progress tx + 1) (mark (0 * burst P) (burst P) ?v) (n_beats P tx), map (beat P tx) [0..<n_beats P tx])"
    using read_complete_at [OF ok len, of 0 "dram_tx_load_progress tx"] e(2) unfolding all beats_done_start [OF ok] by simp
  then show ?thesis
    unfolding t read_complete_enq by (simp add: dram_req_addr_def)
qed

lemma callback_single:
  assumes "\<not> read_queue_lock m" and "in_flight_reads m a = Some [p]" and p: "p < length (tx_heap m)"
    and v: "valid_ptrs m (read_transactions m)" and n: "p \<notin> set (read_transactions m)"
    and "read_complete P a (tx_heap m ! p) = Inr (t, bs)"
  shows "\<exists>m'. read_callback P a m = Inr m' \<and> tx_heap m' = (tx_heap m)[p := t] @ bs \<and> in_flight_reads m' = (in_flight_reads m)(a \<mapsto> [])
    \<and> read_transactions m' = read_transactions m @ [length (tx_heap m)..<length (tx_heap m) + length bs]
    \<and> valid_ptrs m' (read_transactions m') \<and> \<not> read_queue_lock m' \<and> read_view m' = read_view m @ bs"
proof -
  let ?m = "m\<lparr>tx_heap := (tx_heap m)[p := t], in_flight_reads := (in_flight_reads m)(a \<mapsto> [])\<rparr>"
  have cb: "read_callback P a m = Inr (fold enqueue_read bs ?m)"
    using assms(1-3,6) by (simp add: read_callback_def mutex_lock_def inflight_take_def deref_valid)
  have lock: "read_queue_lock (fold enqueue_read bs m1) = read_queue_lock m1" for m1
    by (induction bs arbitrary: m1) (simp_all add: enqueue_read_def make_shared_def Let_def)
  have lt: "\<forall>q \<in> set (read_transactions m). q < length (tx_heap m)" using v by (simp add: valid_ptrs_def list_all_iff)
  have "read_view (fold enqueue_read bs ?m) = read_view m @ bs"
    unfolding read_view_def enqueue_read_all
    using nth_append_update [OF n lt] nth_append_upt [of "(tx_heap m)[p := t]" bs] by simp
  moreover have "valid_ptrs (fold enqueue_read bs ?m) (read_transactions (fold enqueue_read bs ?m))"
    using lt by (auto simp: valid_ptrs_def list_all_iff enqueue_read_all)
  ultimately show ?thesis using assms(1) unfolding cb by (simp add: enqueue_read_all lock)
qed



end
