(* ===== verification/Mem_Writes.thy ===== *)
theory Mem_Writes
  imports Mem_System
begin

text \<open>
  The write side of the transition system of \<open>Mem_System\<close>, from the write address channel to the response channel.

  The history of an execution is what was transferred: the accepted write addresses (\<open>writes\<close>), the beats taken from the write data channel
  (\<open>wdata\<close>) and the identifiers sent on the response channel (\<open>responses\<close>). \<open>data_inv\<close> ties the queue of open writes to addresses and beats,
  \<open>dram_inv\<close> ties the writes whose data is complete to the DRAM requests and to the answers given, \<open>resp_inv\<close> ties the answers to the response
  channel; \<open>read_side\<close> is the frame of all read operations. The theorems are \<open>writes_answered\<close> and \<open>writes_stored\<close>.
\<close>

section \<open>Histories\<close>

type_synonym wbeat = "u32 list \<times> u8 list \<times> bool"

definition write_request :: "mem_params \<Rightarrow> u64 \<Rightarrow> mem_in \<Rightarrow> memory_transaction" where
  "write_request P ad i = new_transaction P ad (2 ^ mi_aw_size i) (1 + int (mi_aw_len i)) 0 (mi_aw_burst i = 0)
     (mi_aw_id i) (mi_aw_addr i) False"

definition aw_targets :: "bool \<Rightarrow> mappings \<Rightarrow> mem_in \<Rightarrow> chan \<Rightarrow> u64 list" where
  "aw_targets vpi ms i ch =
     (if mi_aw_valid i \<and> mo_aw_ready ch then (case translate vpi ms (mi_aw_addr i) of Inl e \<Rightarrow> [] | Inr ad \<Rightarrow> [ad]) else [])"

definition cycle_wdata :: "bool \<Rightarrow> mappings \<Rightarrow> mem_in \<Rightarrow> chan \<Rightarrow> wbeat list" where
  "cycle_wdata vpi ms i ch =
     (if mi_w_valid i \<and> mo_w_ready ch \<and> (write_transactions (ch_mem ch) \<noteq> [] \<or> aw_targets vpi ms i ch \<noteq> [])
      then [(mi_w_strb i, mi_w_data i, mi_w_last i)] else [])"

fun step_writes :: "mem_params \<Rightarrow> bool \<Rightarrow> mappings \<Rightarrow> mem_state \<times> mem_event \<times> mem_state \<Rightarrow> memory_transaction list" where
  "step_writes P vpi ms ((ch, sys), Cycle i, s') = map (\<lambda>ad. write_request P ad i) (aw_targets vpi ms i ch)"
| "step_writes P vpi ms _ = []"

fun step_wdata :: "bool \<Rightarrow> mappings \<Rightarrow> mem_state \<times> mem_event \<times> mem_state \<Rightarrow> wbeat list" where
  "step_wdata vpi ms ((ch, sys), Cycle i, s') = cycle_wdata vpi ms i ch"
| "step_wdata vpi ms _ = []"

fun step_responses :: "mem_state \<times> mem_event \<times> mem_state \<Rightarrow> int list" where
  "step_responses ((ch, sys), Cycle i, s') = (if mi_b_ready i \<and> mo_b_valid ch then [mo_b_id ch] else [])"
| "step_responses _ = []"

abbreviation writes :: "mem_params \<Rightarrow> bool \<Rightarrow> mappings \<Rightarrow> mem_trace \<Rightarrow> memory_transaction list" where
  "writes P vpi ms tr \<equiv> concat (map (step_writes P vpi ms) tr)"

abbreviation wdata :: "bool \<Rightarrow> mappings \<Rightarrow> mem_trace \<Rightarrow> wbeat list" where
  "wdata vpi ms tr \<equiv> concat (map (step_wdata vpi ms) tr)"

abbreviation responses :: "mem_trace \<Rightarrow> int list" where
  "responses tr \<equiv> concat (map step_responses tr)"

text \<open>Where the beats belong: the number of bursts that have ended, and the position in the burst that has not.\<close>

definition bursts :: "wbeat list \<Rightarrow> nat" where
  "bursts bs = length (filter (\<lambda>(strb, data, l). l) bs)"

definition burst_pos :: "wbeat list \<Rightarrow> nat" where
  "burst_pos bs = length (takeWhile (\<lambda>(strb, data, l). \<not> l) (rev bs))"

definition beat_addr :: "memory_transaction \<Rightarrow> nat \<Rightarrow> u64" where
  "beat_addr tx j = (if tx_fixed tx then tx_addr tx else tx_addr tx + of_nat j * of_int (tx_size tx))"

definition placed :: "memory_transaction list \<Rightarrow> wbeat list \<Rightarrow> (u64 \<times> wbeat) list" where
  "placed txs bs = map (\<lambda>k. (beat_addr (txs ! bursts (take k bs)) (burst_pos (take k bs)), bs ! k)) [0..<length bs]"

definition store_beat :: "mem_params \<Rightarrow> u64 \<times> wbeat \<Rightarrow> bytes \<Rightarrow> bytes" where
  "store_beat P = (\<lambda>(a, strb, data, l) mem x.
     if unat (x - a) < nat (DATA_BUS_BYTES P) \<and> strb_bit strb (unat (x - a)) then data ! unat (x - a) else mem x)"

lemma bursts_simps [simp]: "bursts [] = 0" "bursts (bs @ [(strb, data, l)]) = (if l then Suc (bursts bs) else bursts bs)"
  by (simp_all add: bursts_def)

lemma burst_pos_simps [simp]: "burst_pos [] = 0" "burst_pos (bs @ [(strb, data, l)]) = (if l then 0 else Suc (burst_pos bs))"
  by (simp_all add: burst_pos_def)

lemma placed_snoc:
  "placed txs (bs @ [b]) = placed txs bs @ [(beat_addr (txs ! bursts bs) (burst_pos bs), b)]"
  by (simp add: placed_def nth_append cong: map_cong)

lemma placed_more:
  assumes "\<forall>k < length bs. bursts (take k bs) < length txs"
  shows "placed (txs @ txs') bs = placed txs bs"
  using assms by (simp add: placed_def nth_append)

section \<open>The read side\<close>

definition rptrs :: "mem_intf \<Rightarrow> nat set" where
  "rptrs m = set (read_transactions m) \<union> set (ddr_read_q m) \<union> (\<Union>a. set (inflight_contents (in_flight_reads m) a))"

abbreviation write_fields :: "mem_intf \<Rightarrow> nat list \<times> nat list \<times> (u64 \<rightharpoonup> nat list) \<times> int list \<times> int list \<times> int" where
  "write_fields m \<equiv> (write_transactions m, ddr_write_q m, in_flight_writes m, b_send_ids m, b_to_enqueue m, num_in_flight_writes m)"

definition read_side :: "mem_intf \<Rightarrow> mem_intf \<Rightarrow> bool" where
  "read_side m m' \<longleftrightarrow> write_fields m' = write_fields m \<and> length (tx_heap m) \<le> length (tx_heap m')
     \<and> (\<forall>p < length (tx_heap m). p \<notin> rptrs m \<longrightarrow> tx_heap m' ! p = tx_heap m ! p)
     \<and> rptrs m' \<subseteq> rptrs m \<union> {length (tx_heap m)..<length (tx_heap m')}"

lemma read_side_refl: "read_side m m"
  by (simp add: read_side_def)

lemma read_side_trans:
  assumes "read_side m1 m2" and "read_side m2 m3"
  shows "read_side m1 m3"
  unfolding read_side_def
proof (intro conjI allI impI)
  fix p assume p: "p < length (tx_heap m1)" "p \<notin> rptrs m1"
  with assms(1) have "p < length (tx_heap m2)" "p \<notin> rptrs m2" "tx_heap m2 ! p = tx_heap m1 ! p"
    by (auto simp: read_side_def)
  with assms(2) show "tx_heap m3 ! p = tx_heap m1 ! p" by (simp add: read_side_def)
next
  show "rptrs m3 \<subseteq> rptrs m1 \<union> {length (tx_heap m1)..<length (tx_heap m3)}"
    using assms unfolding read_side_def by fastforce
qed (use assms in \<open>simp_all add: read_side_def\<close>)

lemma read_side_heap:
  assumes "p \<in> rptrs m" and "rptrs m' \<subseteq> rptrs m" and "write_fields m' = write_fields m" and "tx_heap m' = (tx_heap m)[p := tx]"
  shows "read_side m m'"
  using assms by (auto simp: read_side_def) (metis nth_list_update_neq)

lemma read_handshake_side:
  assumes "read_handshake P i ch sys = Inr (ch', sys')"
  shows "read_side (ch_mem ch) (ch_mem ch')"
proof (cases "mo_r_valid ch \<and> mi_r_ready i")
  case False
  with assms have "ch' = ch" by (auto simp: read_handshake_def)
  then show ?thesis by (simp add: read_side_refl)
next
  case True
  let ?m = "ch_mem ch"
  from True assms obtain p ps tx where r: "read_transactions ?m = p # ps" "deref ?m p = Inr tx"
    by (auto simp: read_handshake_def Let_def res_simps)
  let ?t = "tx\<lparr>axi_bus_beats_progress := axi_bus_beats_progress tx + 1,
      tx_addr := (if tx_fixed tx then tx_addr tx else tx_addr tx + of_int (tx_size tx))\<rparr>"
  have "ch_mem ch' = ?m\<lparr>tx_heap := (tx_heap ?m)[p := ?t],
      read_transactions := if mo_r_last ch \<or> \<not> can_be_last tx then ps else p # ps\<rparr>"
    using True assms r by (auto simp: read_handshake_def Let_def res_simps)
  with r(1) show ?thesis by (intro read_side_heap [of p _ _ ?t]) (auto simp: rptrs_def split: if_splits)
qed

lemma accept_read_side: "accept_read P vpi ms i ch = Inr (Next ch') \<Longrightarrow> read_side (ch_mem ch) (ch_mem ch')"
  by (auto simp: accept_read_def make_shared_def Let_def res_simps read_side_def rptrs_def nth_append split: if_splits)

lemma issue_read_side:
  assumes "issue_read P p m = Inr m'" and "p \<in> set (ddr_read_q m)"
  shows "read_side m m'"
proof -
  obtain tx where d: "deref m p = Inr tx" using assms(1) by (auto simp: issue_read_def res_simps)
  let ?t = "tx\<lparr>dram_tx_axi_enqueue_progress := dram_tx_axi_enqueue_progress tx + 1\<rparr>"
  have m': "m' = m\<lparr>tx_heap := (tx_heap m)[p := ?t], dram_log := dram_log m @ [(dimm_addr P tx, False)],
      in_flight_reads := inflight_push (dimm_addr P tx) p (in_flight_reads m),
      ddr_read_q := if dramsim_tx_finished ?t then remove1 p (ddr_read_q m) else ddr_read_q m\<rparr>"
    using assms(1) d by (simp add: issue_read_def Let_def)
  have "set (ddr_read_q m') \<subseteq> set (ddr_read_q m)" by (simp add: m' set_remove1_subset)
  then have "rptrs m' \<subseteq> rptrs m"
    using assms(2) by (auto simp: rptrs_def m' dram_fifo.contents_push split: if_splits)
  then show ?thesis using assms(2) by (intro read_side_heap) (auto simp: m' rptrs_def)
qed

lemma enqueue_read_fields_kept: "write_fields (fold enqueue_read bs m) = write_fields m"
  by (induction bs arbitrary: m) (simp_all add: enqueue_read_def make_shared_def)

lemma read_callback_side:
  assumes "read_callback P a m = Inr m'"
  shows "read_side m m'"
proof -
  from assms obtain p fl t bs where f: "inflight_take a (in_flight_reads m) = Inr (p, fl)"
    and m': "m' = fold enqueue_read bs (m\<lparr>tx_heap := (tx_heap m)[p := t], in_flight_reads := fl\<rparr>)"
    by (auto simp: read_callback_def res_simps)
  note c = dram_fifo.take_front_Inr [OF f]
  have "set (inflight_contents fl b) \<subseteq> set (inflight_contents (in_flight_reads m) b)" for b
    using c by (cases "b = a") auto
  moreover have "p \<in> set (inflight_contents (in_flight_reads m) a)" using c(1) by simp
  ultimately show ?thesis
    using enqueue_read_fields_kept [of bs "m\<lparr>tx_heap := (tx_heap m)[p := t], in_flight_reads := fl\<rparr>"]
    by (auto simp: read_side_def rptrs_def m' enqueue_read_all nth_append) (metis nth_list_update_neq)
qed

section \<open>Invariants\<close>

text \<open>\<open>ps\<close> are the pointers of the accepted writes \<open>txs\<close>, \<open>bs\<close> the beats taken, \<open>ans\<close> the positions of the writes that have been answered,
  in the order of the answers, and \<open>rs\<close> the responses sent.\<close>

definition ptrs_ok :: "nat list \<Rightarrow> mem_intf \<Rightarrow> bool" where
  "ptrs_ok ps m \<longleftrightarrow> distinct ps \<and> (\<forall>p \<in> set ps \<union> rptrs m. p < length (tx_heap m)) \<and> set ps \<inter> rptrs m = {}"

definition write_at :: "memory_transaction \<Rightarrow> nat \<Rightarrow> memory_transaction" where
  "write_at tx j = tx\<lparr>axi_bus_beats_progress := int j, tx_addr := beat_addr tx j\<rparr>"

definition data_inv :: "nat list \<Rightarrow> memory_transaction list \<Rightarrow> wbeat list \<Rightarrow> mem_intf \<Rightarrow> bool" where
  "data_inv ps txs bs m \<longleftrightarrow> length ps = length txs \<and> bursts bs \<le> length txs
     \<and> (\<forall>k < length bs. bursts (take k bs) < length txs) \<and> (bursts bs = length txs \<longrightarrow> burst_pos bs = 0)
     \<and> write_transactions m = drop (bursts bs) ps
     \<and> (\<forall>k. bursts bs \<le> k \<and> k < length ps \<longrightarrow>
          tx_heap m ! (ps ! k) = write_at (txs ! k) (if k = bursts bs then burst_pos bs else 0))"

definition wpending :: "mem_intf \<Rightarrow> nat set" where
  "wpending m = set (ddr_write_q m) \<union> (\<Union>a. set (inflight_contents (in_flight_writes m) a))"

definition dram_inv :: "nat list \<Rightarrow> memory_transaction list \<Rightarrow> nat \<Rightarrow> nat list \<Rightarrow> mem_intf \<Rightarrow> bool" where
  "dram_inv ps txs n ans m \<longleftrightarrow> n \<le> length ps \<and> wpending m \<subseteq> set (take n ps) \<and> distinct ans \<and> set ans \<subseteq> {..<n}
     \<and> (\<forall>k < n. tx_id (tx_heap m ! (ps ! k)) = tx_id (txs ! k)
          \<and> (if k \<in> set ans then axi_bus_beats_progress (tx_heap m ! (ps ! k)) \<le> 0
             else axi_bus_beats_progress (tx_heap m ! (ps ! k)) = 1 \<and> ps ! k \<in> wpending m))"

definition resp_inv :: "memory_transaction list \<Rightarrow> nat list \<Rightarrow> int list \<Rightarrow> chan \<Rightarrow> bool" where
  "resp_inv txs ans rs ch \<longleftrightarrow>
     map (\<lambda>k. tx_id (txs ! k)) ans = rs @ b_send_ids (ch_mem ch) @ b_to_enqueue (ch_mem ch)
     \<and> (mo_b_valid ch \<longrightarrow> (\<exists>xs. b_send_ids (ch_mem ch) = mo_b_id ch # xs))
     \<and> num_in_flight_writes (ch_mem ch) = int (length txs) - int (length rs)"

definition write_inv ::
  "nat list \<Rightarrow> memory_transaction list \<Rightarrow> wbeat list \<Rightarrow> nat list \<Rightarrow> int list \<Rightarrow> chan \<Rightarrow> bool" where
  "write_inv ps txs bs ans rs ch \<longleftrightarrow> ptrs_ok ps (ch_mem ch) \<and> data_inv ps txs bs (ch_mem ch)
     \<and> dram_inv ps txs (bursts bs) ans (ch_mem ch) \<and> resp_inv txs ans rs ch"

lemma write_invD:
  assumes "write_inv ps txs bs ans rs ch"
  shows "ptrs_ok ps (ch_mem ch)" "data_inv ps txs bs (ch_mem ch)" "dram_inv ps txs (bursts bs) ans (ch_mem ch)"
    "resp_inv txs ans rs ch" "length ps = length txs"
  using assms by (simp_all add: write_inv_def data_inv_def)

lemma data_inv_frame:
  assumes "data_inv ps txs bs m" and "write_transactions m' = write_transactions m"
    and "\<And>k. bursts bs \<le> k \<Longrightarrow> k < length ps \<Longrightarrow> tx_heap m' ! (ps ! k) = tx_heap m ! (ps ! k)"
  shows "data_inv ps txs bs m'"
  using assms by (simp add: data_inv_def)

lemma dram_inv_frame:
  assumes "dram_inv ps txs n ans m" and "wpending m' = wpending m"
    and "\<And>k. k < n \<Longrightarrow> tx_heap m' ! (ps ! k) = tx_heap m ! (ps ! k)"
  shows "dram_inv ps txs n ans m'"
  using assms by (simp add: dram_inv_def)

lemma write_inv_frame:
  assumes "write_inv ps txs bs ans rs ch" and "read_side (ch_mem ch) m"
  shows "write_inv ps txs bs ans rs (ch\<lparr>ch_mem := m\<rparr>)"
proof -
  note i = write_invD [OF assms(1)]
  have old: "p < length (tx_heap (ch_mem ch)) \<and> p \<notin> rptrs (ch_mem ch)" if "p \<in> set ps" for p
    using i(1) that by (auto simp: ptrs_ok_def)
  have heap: "tx_heap m ! (ps ! k) = tx_heap (ch_mem ch) ! (ps ! k)" if "k < length ps" for k
    using old [of "ps ! k"] assms(2) that by (simp add: read_side_def)
  let ?n = "length (tx_heap (ch_mem ch))"
  have le: "?n \<le> length (tx_heap m)" and "rptrs m \<subseteq> rptrs (ch_mem ch) \<union> {?n..<length (tx_heap m)}"
    using assms(2) by (simp_all add: read_side_def)
  then have new: "p \<in> rptrs (ch_mem ch) \<or> ?n \<le> p \<and> p < length (tx_heap m)" if "p \<in> rptrs m" for p using that by auto
  have "p < ?n" if "p \<in> rptrs (ch_mem ch)" for p using i(1) that by (simp add: ptrs_ok_def)
  then have "\<forall>p \<in> set ps \<union> rptrs m. p < length (tx_heap m)" using old new le by (meson UnE less_le_trans)
  moreover have "p \<notin> rptrs m" if "p \<in> set ps" for p using new [of p] old [OF that] by auto
  ultimately have "ptrs_ok ps m" using i(1) by (simp add: ptrs_ok_def disjoint_iff)
  moreover have "data_inv ps txs bs m"
    by (rule data_inv_frame [OF i(2)]) (use assms(2) heap in \<open>simp_all add: read_side_def\<close>)
  moreover have "dram_inv ps txs (bursts bs) ans m"
    by (rule dram_inv_frame [OF i(3)])
      (use assms(2) heap i(3) in \<open>simp_all add: read_side_def wpending_def dram_inv_def\<close>)
  moreover have "resp_inv txs ans rs (ch\<lparr>ch_mem := m\<rparr>)" using i(4) assms(2) by (simp add: resp_inv_def read_side_def)
  ultimately show ?thesis by (simp add: write_inv_def)
qed

text \<open>Changes of the bus signals and queues of the response channel only.\<close>

lemma write_inv_resp:
  assumes "write_inv ps txs bs ans rs ch" and "resp_inv txs ans rs' ch'"
    and "tx_heap (ch_mem ch') = tx_heap (ch_mem ch)" and "write_transactions (ch_mem ch') = write_transactions (ch_mem ch)"
    and "wpending (ch_mem ch') = wpending (ch_mem ch)" and "rptrs (ch_mem ch') = rptrs (ch_mem ch)"
  shows "write_inv ps txs bs ans rs' ch'"
proof -
  note i = write_invD [OF assms(1)]
  have "ptrs_ok ps (ch_mem ch')" using i(1) assms(3,6) by (simp add: ptrs_ok_def)
  moreover have "data_inv ps txs bs (ch_mem ch')" by (rule data_inv_frame [OF i(2) assms(4)]) (simp add: assms(3))
  moreover have "dram_inv ps txs (bursts bs) ans (ch_mem ch')" by (rule dram_inv_frame [OF i(3) assms(5)]) (simp add: assms(3))
  ultimately show ?thesis using assms(2) by (simp add: write_inv_def)
qed

section \<open>The steps of a cycle\<close>

lemma response_handshake_inv:
  assumes "response_handshake i ch = Inr ch'" and inv: "write_inv ps txs bs ans rs ch"
  shows "write_inv ps txs bs ans (rs @ (if mi_b_ready i \<and> mo_b_valid ch then [mo_b_id ch] else [])) (ch'\<lparr>mo_b_valid := False\<rparr>)"
proof (cases "mi_b_ready i \<and> mo_b_valid ch")
  case False
  then have "ch' = ch" using assms(1) by (auto simp: response_handshake_def)
  moreover have "resp_inv txs ans rs (ch\<lparr>mo_b_valid := False\<rparr>)" using write_invD(4) [OF inv] by (simp add: resp_inv_def)
  ultimately show ?thesis using write_inv_resp [OF inv] False by auto
next
  case True
  let ?m = "ch_mem ch"
  from True write_invD(4) [OF inv] obtain xs where xs: "b_send_ids ?m = mo_b_id ch # xs" by (auto simp: resp_inv_def)
  have ch': "ch' = ch\<lparr>ch_mem := ?m\<lparr>b_send_ids := xs, num_in_flight_writes := num_in_flight_writes ?m - 1\<rparr>\<rparr>"
    using True assms(1) xs by (simp add: response_handshake_def)
  have "resp_inv txs ans (rs @ [mo_b_id ch]) (ch'\<lparr>mo_b_valid := False\<rparr>)"
    using write_invD(4) [OF inv] xs by (simp add: resp_inv_def ch')
  then have "write_inv ps txs bs ans (rs @ [mo_b_id ch]) (ch'\<lparr>mo_b_valid := False\<rparr>)"
    by (rule write_inv_resp [OF inv]) (simp_all add: ch' wpending_def rptrs_def)
  with True show ?thesis by simp
qed

lemma drive_response_inv:
  assumes inv: "write_inv ps txs bs ans rs (ch\<lparr>mo_b_valid := False\<rparr>)"
  shows "write_inv ps txs bs ans rs (drive_response ch)"
proof (rule write_inv_resp [OF inv])
  show "resp_inv txs ans rs (drive_response ch)"
    using write_invD(4) [OF inv]
    by (auto simp: resp_inv_def drive_response_def Let_def q_push_def split: list.split)
qed (auto simp: drive_response_def Let_def wpending_def rptrs_def split: list.split)

lemma accept_write_cases:
  assumes "accept_write P vpi ms i ch = Inr (Next ch')"
  obtains (refused) "aw_targets vpi ms i ch = []" "ch' = ch"
    | (accepted) ad where "aw_targets vpi ms i ch = [ad]"
      "ch' = ch\<lparr>ch_mem := (ch_mem ch)\<lparr>tx_heap := tx_heap (ch_mem ch) @ [write_request P ad i],
         write_transactions := write_transactions (ch_mem ch) @ [length (tx_heap (ch_mem ch))],
         num_in_flight_writes := num_in_flight_writes (ch_mem ch) + 1\<rparr>\<rparr>"
proof (cases "mi_aw_valid i \<and> mo_aw_ready ch")
  case False
  with assms show ?thesis by (intro refused) (auto simp: accept_write_def aw_targets_def)
next
  case True
  show ?thesis
  proof (cases "translate vpi ms (mi_aw_addr i)")
    case (Inl e)
    with True assms show ?thesis by (intro refused) (auto simp: accept_write_def aw_targets_def split: if_splits)
  next
    case (Inr ad)
    with True assms show ?thesis
      by (intro accepted [of ad])
        (auto simp: accept_write_def aw_targets_def make_shared_def write_request_def q_push_def split: if_splits)
  qed
qed

lemma write_at_request: "write_at (write_request P ad i) 0 = write_request P ad i"
  by (simp add: write_at_def write_request_def new_transaction_def beat_addr_def Let_def)

lemma accept_write_inv:
  assumes "accept_write P vpi ms i ch = Inr (Next ch')" and inv: "write_inv ps txs bs ans rs ch"
  shows "\<exists>ps'. write_inv ps' (txs @ map (\<lambda>ad. write_request P ad i) (aw_targets vpi ms i ch)) bs ans rs ch'"
  using assms(1)
proof (cases rule: accept_write_cases)
  case refused
  with inv show ?thesis by auto
next
  case (accepted ad)
  let ?m = "ch_mem ch" and ?tx = "write_request P ad i"
  let ?p = "length (tx_heap ?m)"
  note i = write_invD [OF inv]
  have lt: "ps ! k < ?p" if "k < length ps" for k using i(1) that by (simp add: ptrs_ok_def)
  have new: "?p \<notin> set ps" "?p \<notin> rptrs ?m" using i(1) by (auto simp: ptrs_ok_def)
  have r: "rptrs (ch_mem ch') = rptrs ?m" "wpending (ch_mem ch') = wpending ?m" by (simp_all add: accepted(2) rptrs_def wpending_def)
  have b: "bursts bs \<le> length ps" using i(2) by (simp add: data_inv_def)
  have "\<forall>p \<in> set ps \<union> rptrs ?m. p < ?p" using i(1) unfolding ptrs_ok_def by blast
  then have "ptrs_ok (ps @ [?p]) (ch_mem ch')"
    using i(1) new r(1) unfolding ptrs_ok_def by (auto simp: accepted(2) less_SucI)
  moreover have "data_inv (ps @ [?p]) (txs @ [?tx]) bs (ch_mem ch')"
    unfolding data_inv_def
  proof (intro conjI allI impI)
    fix k assume k: "bursts bs \<le> k \<and> k < length (ps @ [?p])"
    show "tx_heap (ch_mem ch') ! ((ps @ [?p]) ! k) = write_at ((txs @ [?tx]) ! k) (if k = bursts bs then burst_pos bs else 0)"
    proof (cases "k < length ps")
      case True
      with k lt i(2) show ?thesis by (simp add: data_inv_def nth_append accepted(2))
    next
      case False
      with k have "k = length ps" "k = length txs" using i(5) by simp_all
      with i(2) show ?thesis by (auto simp: data_inv_def accepted(2) write_at_request nth_append)
    qed
  qed (use i(2) b in \<open>auto simp: data_inv_def accepted(2) less_SucI\<close>)
  moreover have "dram_inv (ps @ [?p]) (txs @ [?tx]) (bursts bs) ans (ch_mem ch')"
    using i(3,5) b lt unfolding dram_inv_def r(2) by (auto simp: nth_append accepted(2))
  moreover have "resp_inv (txs @ [?tx]) ans rs ch'"
  proof -
    have "map (\<lambda>k. tx_id ((txs @ [?tx]) ! k)) ans = map (\<lambda>k. tx_id (txs ! k)) ans"
      using i(3,5) b by (auto simp: dram_inv_def nth_append)
    with i(4) show ?thesis by (simp add: resp_inv_def accepted(2))
  qed
  ultimately show ?thesis unfolding write_inv_def accepted(1) by auto
qed

lemma strobe_loop_stored:
  assumes "strobe_loop strb data a off n sys = Inr sys'" and "off + n \<le> 2 ^ 64"
  shows "sys_bytes sys' = (\<lambda>x. if off \<le> unat (x - a) \<and> unat (x - a) < off + n \<and> strb_bit strb (unat (x - a))
      then data ! unat (x - a) else sys_bytes sys x)"
  using assms
proof (induction n arbitrary: off sys)
  case 0
  then show ?case by (auto simp: fun_eq_iff)
next
  case (Suc n)
  from Suc.prems(1) obtain s where s: "getStrb strb (int off) = Inr s" by (auto simp: res_simps)
  then have sb: "s = strb_bit strb off"
    using getStrb_bit [of off strb] nth_res_Inr [of strb "int off div 32"]
    by (auto simp: getStrb_def Let_def res_simps) (metis of_nat_less_iff of_nat_numeral zdiv_int)+
  let ?sys = "if s then sys\<lparr>sys_bytes := (sys_bytes sys)(a + of_nat off := data ! off),
      memory_transacted := memory_transacted sys + 1\<rparr> else sys"
  have "strobe_loop strb data a (Suc off) n ?sys = Inr sys'"
    using Suc.prems(1) s by (cases s) (auto simp: res_simps)
  from Suc.IH [OF this] Suc.prems(2) have m: "sys_bytes sys' = (\<lambda>x. if Suc off \<le> unat (x - a) \<and> unat (x - a) < Suc off + n
      \<and> strb_bit strb (unat (x - a)) then data ! unat (x - a) else sys_bytes ?sys x)" by simp
  have u: "unat (x - a) = off \<longleftrightarrow> x = a + of_nat off" for x
    by (rule unat_offset) (use Suc.prems(2) in simp)
  show ?case
  proof
    fix x
    show "sys_bytes sys' x = (if off \<le> unat (x - a) \<and> unat (x - a) < off + Suc n \<and> strb_bit strb (unat (x - a))
      then data ! unat (x - a) else sys_bytes sys x)"
      unfolding m using u [of x] sb by (cases "unat (x - a) = off") auto
  qed
qed

definition taken :: "mem_in \<Rightarrow> chan \<Rightarrow> wbeat list" where
  "taken i ch = (if mi_w_valid i \<and> mo_w_ready ch \<and> write_transactions (ch_mem ch) \<noteq> []
     then [(mi_w_strb i, mi_w_data i, mi_w_last i)] else [])"

definition after_beat :: "memory_transaction \<Rightarrow> memory_transaction" where
  "after_beat tx = tx\<lparr>axi_bus_beats_progress := axi_bus_beats_progress tx + 1,
     tx_addr := (if tx_fixed tx then tx_addr tx else tx_addr tx + of_int (tx_size tx))\<rparr>"

lemma after_beat_at: "after_beat (write_at tx j) = write_at tx (Suc j)"
  by (simp add: after_beat_def write_at_def beat_addr_def algebra_simps)

lemma write_beat_cases:
  assumes "write_beat P i ch sys = Inr (ch', sys')" and "DATA_BUS_BYTES P \<le> 2 ^ 64"
  obtains (idle) "taken i ch = []" "ch_mem ch' = ch_mem ch" "sys' = sys"
    | (beat) p ps where "taken i ch = [(mi_w_strb i, mi_w_data i, mi_w_last i)]" "write_transactions (ch_mem ch) = p # ps"
      "sys_bytes sys' = store_beat P (tx_addr (tx_heap (ch_mem ch) ! p), mi_w_strb i, mi_w_data i, mi_w_last i) (sys_bytes sys)"
      "ch_mem ch' = (if mi_w_last i
         then (ch_mem ch)\<lparr>tx_heap := (tx_heap (ch_mem ch))[p := (after_beat (tx_heap (ch_mem ch) ! p))
             \<lparr>dram_tx_axi_enqueue_progress := 0, axi_bus_beats_progress := 1\<rparr>],
           write_transactions := ps, ddr_write_q := ddr_write_q (ch_mem ch) @ [p]\<rparr>
         else (ch_mem ch)\<lparr>tx_heap := (tx_heap (ch_mem ch))[p := after_beat (tx_heap (ch_mem ch) ! p)]\<rparr>)"
proof (cases "taken i ch = []")
  case True
  with assms(1) show ?thesis
    by (cases "write_transactions (ch_mem ch)"; intro idle) (auto simp: write_beat_def taken_def Let_def split: if_splits)
next
  case False
  let ?m = "ch_mem ch" and ?n = "nat (DATA_BUS_BYTES P)"
  from False obtain p ps where t: "mi_w_valid i" "mo_w_ready ch" "write_transactions ?m = p # ps"
    by (auto simp: taken_def neq_Nil_conv split: if_splits)
  with assms(1) obtain tx where d: "deref ?m p = Inr tx"
    and st: "strobe_loop (mi_w_strb i) (mi_w_data i) (tx_addr tx) 0 ?n
      (sys\<lparr>memory_transacted := memory_transacted sys + of_int (DATA_BUS_BYTES P)\<rparr>) = Inr sys'"
    by (auto simp: write_beat_def Let_def res_simps split: if_splits)
  have p: "tx = tx_heap ?m ! p" using d by (auto simp: deref_def res_simps)
  show ?thesis
  proof (rule beat [OF _ t(3)])
    show "sys_bytes sys' = store_beat P (tx_addr (tx_heap ?m ! p), mi_w_strb i, mi_w_data i, mi_w_last i) (sys_bytes sys)"
      using strobe_loop_stored [OF st] nat_mono [OF assms(2)] by (simp add: store_beat_def p fun_eq_iff)
    have "write_beat P i ch sys = Inr (ch', sys')" "deref ?m p = Inr (tx_heap ?m ! p)" using assms(1) d p by simp_all
    then show "ch_mem ch' = (if mi_w_last i
        then ?m\<lparr>tx_heap := (tx_heap ?m)[p := (after_beat (tx_heap ?m ! p))\<lparr>dram_tx_axi_enqueue_progress := 0, axi_bus_beats_progress := 1\<rparr>],
           write_transactions := ps, ddr_write_q := ddr_write_q ?m @ [p]\<rparr>
        else ?m\<lparr>tx_heap := (tx_heap ?m)[p := after_beat (tx_heap ?m ! p)]\<rparr>)"
      using t st p by (cases "mi_w_last i") (auto simp: write_beat_def after_beat_def Let_def res_simps simp del: if_split)
  qed (use t in \<open>simp add: taken_def\<close>)
qed

lemma write_beat_b: "write_beat P i ch sys = Inr (ch', sys') \<Longrightarrow> mo_b_valid ch' = mo_b_valid ch \<and> mo_b_id ch' = mo_b_id ch"
  by (auto simp: write_beat_def Let_def res_simps split: if_splits list.splits)

lemma data_inv_beat:
  assumes inv: "data_inv ps txs bs m" and ok: "ptrs_ok ps m" and wt: "write_transactions m = p # qs"
    and t: "(l, t) = (False, after_beat (tx_heap m ! p)) \<or> l" and h: "tx_heap m' = (tx_heap m)[p := t]"
    and wt': "write_transactions m' = (if l then qs else p # qs)"
  shows "data_inv ps txs (bs @ [(strb, data, l)]) m'" and "p = ps ! bursts bs" and "bursts bs < length ps"
    and "tx_heap m ! p = write_at (txs ! bursts bs) (burst_pos bs)"
proof -
  have d: "drop (bursts bs) ps = p # qs" using inv wt by (simp add: data_inv_def)
  then show lt: "bursts bs < length ps" by (metis drop_eq_Nil2 leI list.distinct(1))
  then show p: "p = ps ! bursts bs" using d by (metis hd_drop_conv_nth list.sel(1))
  show at: "tx_heap m ! p = write_at (txs ! bursts bs) (burst_pos bs)" using inv lt p by (simp add: data_inv_def)
  have len: "length ps = length txs" using inv by (simp add: data_inv_def)
  have tl: "drop (Suc (bursts bs)) ps = qs" using d by (metis drop_Suc list.sel(3) tl_drop)
  have ne: "ps ! k \<noteq> p" if "k < length ps" "k \<noteq> bursts bs" for k
    using ok p that lt by (simp add: ptrs_ok_def nth_eq_iff_index_eq)
  have pl: "p < length (tx_heap m)" using ok p lt by (simp add: ptrs_ok_def)
  have "tx_heap m' ! (ps ! k) = write_at (txs ! k) (if k = bursts (bs @ [(strb, data, l)]) then burst_pos (bs @ [(strb, data, l)]) else 0)"
    if k: "bursts (bs @ [(strb, data, l)]) \<le> k" "k < length ps" for k
  proof (cases "k = bursts bs")
    case True
    then have "\<not> l" using k(1) by (auto split: if_splits)
    then show ?thesis using True p t h pl at by (simp add: after_beat_at)
  next
    case False
    then have "bursts bs \<le> k" using k(1) by (auto split: if_splits)
    then have "tx_heap m ! (ps ! k) = write_at (txs ! k) 0" using inv k(2) False by (simp add: data_inv_def)
    then show ?thesis using ne [OF k(2) False] h False by auto
  qed
  moreover have "\<forall>k < Suc (length bs). bursts (take k bs) < length txs"
    using inv lt len by (auto simp: data_inv_def less_Suc_eq)
  ultimately show "data_inv ps txs (bs @ [(strb, data, l)]) m'"
    unfolding data_inv_def using lt len d tl wt' by (auto simp: take_Suc_conv_app_nth split: if_splits)
qed

text \<open>An operation of the DRAM side that changes one transaction, whose data is complete.\<close>

lemma dram_inv_change:
  assumes inv: "dram_inv ps txs n ans m" and ok: "ptrs_ok ps m" and k: "k < n" and h: "tx_heap m' = (tx_heap m)[ps ! k := t]"
    and id: "tx_id t = tx_id (txs ! k)" and pend: "wpending m' \<subseteq> set (take n ps)"
    and keep: "\<And>j. j < n \<Longrightarrow> j \<noteq> k \<Longrightarrow> ps ! j \<in> wpending m \<Longrightarrow> ps ! j \<in> wpending m'"
    and ans': "distinct ans'" "set ans' \<subseteq> {..<n}" "\<And>j. j \<noteq> k \<Longrightarrow> j \<in> set ans' \<longleftrightarrow> j \<in> set ans"
    and t: "if k \<in> set ans' then axi_bus_beats_progress t \<le> 0 else axi_bus_beats_progress t = 1 \<and> ps ! k \<in> wpending m'"
  shows "dram_inv ps txs n ans' m'"
proof -
  have n: "n \<le> length ps" using inv by (simp add: dram_inv_def)
  then have p: "ps ! k < length (tx_heap m)" using ok k by (simp add: ptrs_ok_def)
  have other: "tx_heap m' ! (ps ! j) = tx_heap m ! (ps ! j)" if "j < n" "j \<noteq> k" for j
    using ok that k n h by (simp add: ptrs_ok_def nth_eq_iff_index_eq)
  have "tx_id (tx_heap m' ! (ps ! j)) = tx_id (txs ! j)
      \<and> (if j \<in> set ans' then axi_bus_beats_progress (tx_heap m' ! (ps ! j)) \<le> 0
         else axi_bus_beats_progress (tx_heap m' ! (ps ! j)) = 1 \<and> ps ! j \<in> wpending m')" if j: "j < n" for j
  proof (cases "j = k")
    case True
    then show ?thesis using h p id t by simp
  next
    case False
    with inv other [OF j False] j keep [OF j False] ans'(3) [OF False] show ?thesis by (auto simp: dram_inv_def)
  qed
  with n pend ans'(1,2) show ?thesis by (simp add: dram_inv_def)
qed

text \<open>The whole invariant under such an operation.\<close>

lemma write_inv_dram:
  assumes inv: "write_inv ps txs bs ans rs ch" and dram: "dram_inv ps txs (bursts bs) ans' m"
    and k: "k < bursts bs" and h: "tx_heap m = (tx_heap (ch_mem ch))[ps ! k := t]"
    and "rptrs m = rptrs (ch_mem ch)" and "write_transactions m = write_transactions (ch_mem ch)"
    and "resp_inv txs ans' rs (ch\<lparr>ch_mem := m\<rparr>)"
  shows "write_inv ps txs bs ans' rs (ch\<lparr>ch_mem := m\<rparr>)"
proof -
  note i = write_invD [OF inv]
  have n: "bursts bs \<le> length ps" using i(3) by (simp add: dram_inv_def)
  have "data_inv ps txs bs m"
  proof (rule data_inv_frame [OF i(2) assms(6)])
    fix j assume "bursts bs \<le> j" "j < length ps"
    then have "ps ! j \<noteq> ps ! k" using i(1) k n by (simp add: ptrs_ok_def nth_eq_iff_index_eq)
    then show "tx_heap m ! (ps ! j) = tx_heap (ch_mem ch) ! (ps ! j)" by (simp add: h)
  qed
  moreover have "ptrs_ok ps m" using i(1) h assms(5) by (simp add: ptrs_ok_def)
  ultimately show ?thesis using dram assms(7) by (simp add: write_inv_def)
qed

lemma wpending_index:
  assumes "dram_inv ps txs n ans m" and "p \<in> wpending m"
  obtains k where "k < n" "p = ps ! k"
proof -
  have "p \<in> set (take n ps)" and "n \<le> length ps" using assms by (auto simp: dram_inv_def)
  then show ?thesis by (auto simp: in_set_conv_nth intro: that)
qed

lemma issue_write_inv:
  assumes inv: "write_inv ps txs bs ans rs ch" and "issue_write P p (ch_mem ch) = Inr m" and "p \<in> set (ddr_write_q (ch_mem ch))"
  shows "write_inv ps txs bs ans rs (ch\<lparr>ch_mem := m\<rparr>)"
proof -
  let ?m = "ch_mem ch"
  note i = write_invD [OF inv]
  obtain tx where d: "deref ?m p = Inr tx" using assms(2) by (auto simp: issue_write_def res_simps)
  let ?t = "tx\<lparr>dram_tx_axi_enqueue_progress := dram_tx_axi_enqueue_progress tx + 1\<rparr>"
  have m: "m = ?m\<lparr>tx_heap := (tx_heap ?m)[p := ?t], dram_log := dram_log ?m @ [(dimm_addr P tx, True)],
      in_flight_writes := inflight_push (dimm_addr P tx) p (in_flight_writes ?m),
      ddr_write_q := if dramsim_tx_finished ?t then remove1 p (ddr_write_q ?m) else ddr_write_q ?m\<rparr>"
    using assms(2) d by (simp add: issue_write_def Let_def)
  have pw: "p \<in> wpending ?m" using assms(3) by (simp add: wpending_def)
  from wpending_index [OF i(3) pw] obtain k where k: "k < bursts bs" "p = ps ! k" .
  have tx: "tx = tx_heap ?m ! (ps ! k)" using d k(2) by (auto simp: deref_def res_simps)
  have w: "wpending m = wpending ?m"
    using assms(3) set_remove1_subset [of p "ddr_write_q ?m"]
    by (auto simp: wpending_def m dram_fifo.contents_push split: if_splits)
  have "dram_inv ps txs (bursts bs) ans m"
  proof (rule dram_inv_change [OF i(3,1) k(1)])
    show "tx_heap m = (tx_heap ?m)[ps ! k := ?t]" by (simp add: m k(2))
  qed (use i(3) k(1) in \<open>auto simp: dram_inv_def w tx\<close>)
  then show ?thesis
    by (rule write_inv_dram [OF inv _ k(1)]) (use i(4) in \<open>auto simp: m k(2) rptrs_def resp_inv_def\<close>)
qed

lemma write_callback_inv:
  assumes inv: "write_inv ps txs bs ans rs ch" and "write_callback a (ch_mem ch) = Inr m"
  shows "\<exists>ans'. write_inv ps txs bs ans' rs (ch\<lparr>ch_mem := m\<rparr>)"
proof -
  let ?m = "ch_mem ch"
  note i = write_invD [OF inv]
  from assms(2) obtain p fl tx where f: "inflight_take a (in_flight_writes ?m) = Inr (p, fl)" and d: "deref ?m p = Inr tx"
    and m: "m = fold enqueue_response (snd (write_complete tx))
      (?m\<lparr>tx_heap := (tx_heap ?m)[p := fst (write_complete tx)], in_flight_writes := fl\<rparr>)"
    by (auto simp: write_callback_def Let_def res_simps case_prod_beta)
  note c = dram_fifo.take_front_Inr [OF f]
  have "p \<in> set (inflight_contents (in_flight_writes ?m) a)" using c(1) by simp
  then have pw: "p \<in> wpending ?m" unfolding wpending_def by blast
  from wpending_index [OF i(3) pw] obtain k where k: "k < bursts bs" "p = ps ! k" .
  let ?ans = "if k \<in> set ans then ans else ans @ [k]" and ?t = "tx\<lparr>axi_bus_beats_progress := axi_bus_beats_progress tx - 1\<rparr>"
  have tx: "tx = tx_heap ?m ! (ps ! k)" using d k(2) by (auto simp: deref_def res_simps)
  have st: "tx_id tx = tx_id (txs ! k)" "if k \<in> set ans then axi_bus_beats_progress tx \<le> 0 else axi_bus_beats_progress tx = 1"
    using i(3) k(1) unfolding tx by (auto simp: dram_inv_def)
  then have wc: "write_complete tx = (?t, if k \<in> set ans then [] else [tx_id (txs ! k)])"
    by (auto simp: write_complete_def Let_def split: if_splits)
  have fl: "q \<in> set (inflight_contents fl b) \<Longrightarrow> q \<in> set (inflight_contents (in_flight_writes ?m) b)"
    "q \<noteq> p \<Longrightarrow> q \<in> set (inflight_contents (in_flight_writes ?m) b) \<Longrightarrow> q \<in> set (inflight_contents fl b)" for q b
    using c by (cases "b = a"; auto)+
  have m': "wpending m = set (ddr_write_q ?m) \<union> (\<Union>a. set (inflight_contents fl a))" "rptrs m = rptrs ?m"
    "tx_heap m = (tx_heap ?m)[ps ! k := ?t]" "write_transactions m = write_transactions ?m"
    by (simp_all add: m wpending_def rptrs_def enqueue_response_same wc k(2))
  have "dram_inv ps txs (bursts bs) ?ans m"
  proof (rule dram_inv_change [OF i(3,1) k(1) m'(3)])
    have "wpending m \<subseteq> wpending ?m" unfolding m'(1) unfolding wpending_def by (auto dest: fl(1))
    also have "\<dots> \<subseteq> set (take (bursts bs) ps)" using i(3) by (simp add: dram_inv_def)
    finally show "wpending m \<subseteq> set (take (bursts bs) ps)" .
    fix j assume j: "j < bursts bs" "j \<noteq> k" "ps ! j \<in> wpending ?m"
    then have "ps ! j \<noteq> p" using i(1,3) k by (simp add: ptrs_ok_def dram_inv_def nth_eq_iff_index_eq)
    with j(3) show "ps ! j \<in> wpending m" unfolding m'(1) unfolding wpending_def by (auto dest: fl(2))
  qed (use i(3) k(1) st in \<open>auto simp: dram_inv_def split: if_splits\<close>)
  then have "write_inv ps txs bs ?ans rs (ch\<lparr>ch_mem := m\<rparr>)"
    by (rule write_inv_dram [OF inv _ k(1) m'(3,2,4)])
      (use i(4) in \<open>auto simp: resp_inv_def m wc enqueue_response_def q_push_def\<close>)
  then show ?thesis by blast
qed

text \<open>A beat hands the write in front of the queue to the DRAM side when it is the last one.\<close>

lemma dram_inv_data:
  assumes inv: "dram_inv ps txs n ans m" and ok: "ptrs_ok ps m" and p: "p = ps ! n" and n: "n < length ps"
    and at: "tx_heap m ! p = write_at (txs ! n) j"
    and h: "tx_heap m' = (tx_heap m)[p := if l then (after_beat (tx_heap m ! p))\<lparr>dram_tx_axi_enqueue_progress := 0, axi_bus_beats_progress := 1\<rparr>
      else after_beat (tx_heap m ! p)]"
    and w: "wpending m' = (if l then insert p (wpending m) else wpending m)"
  shows "dram_inv ps txs (if l then Suc n else n) ans m'"
proof -
  have pl: "p < length (tx_heap m)" using ok p n by (simp add: ptrs_ok_def)
  have "tx_heap m' ! (ps ! k) = tx_heap m ! (ps ! k)" if "k < n" for k
    using ok that n h p by (simp add: ptrs_ok_def nth_eq_iff_index_eq)
  moreover have "n \<notin> set ans" using inv by (auto simp: dram_inv_def)
  moreover have "tx_id (tx_heap m' ! p) = tx_id (txs ! n)" "l \<Longrightarrow> axi_bus_beats_progress (tx_heap m' ! p) = 1"
    using h pl at by (simp_all add: after_beat_def write_at_def)
  ultimately show ?thesis
    using inv n p w unfolding dram_inv_def by (auto simp: less_Suc_eq take_Suc_conv_app_nth)
qed

lemma write_beat_inv:
  assumes "write_beat P i ch sys = Inr (ch', sys')" and bus: "DATA_BUS_BYTES P \<le> 2 ^ 64" and inv: "write_inv ps txs bs ans rs ch"
  shows "write_inv ps txs (bs @ taken i ch) ans rs ch'"
    and "sys_bytes sys' = fold (\<lambda>b. store_beat P (beat_addr (txs ! bursts bs) (burst_pos bs), b)) (taken i ch) (sys_bytes sys)"
proof -
  let ?m = "ch_mem ch" and ?m' = "ch_mem ch'"
  note i = write_invD [OF inv]
  have b: "mo_b_valid ch' = mo_b_valid ch" "mo_b_id ch' = mo_b_id ch" using write_beat_b [OF assms(1)] by simp_all
  from assms(1) bus have "write_inv ps txs (bs @ taken i ch) ans rs ch'
    \<and> sys_bytes sys' = fold (\<lambda>b. store_beat P (beat_addr (txs ! bursts bs) (burst_pos bs), b)) (taken i ch) (sys_bytes sys)"
  proof (cases rule: write_beat_cases)
    case idle
    then show ?thesis using i b by (simp add: write_inv_def resp_inv_def)
  next
    case (beat p qs)
    let ?b = "(mi_w_strb i, mi_w_data i, mi_w_last i)"
    let ?t = "if mi_w_last i then (after_beat (tx_heap ?m ! p))\<lparr>dram_tx_axi_enqueue_progress := 0, axi_bus_beats_progress := 1\<rparr>
      else after_beat (tx_heap ?m ! p)"
    have h: "tx_heap ?m' = (tx_heap ?m)[p := ?t]" and wt: "write_transactions ?m' = (if mi_w_last i then qs else p # qs)"
      and w: "wpending ?m' = (if mi_w_last i then insert p (wpending ?m) else wpending ?m)" and rp: "rptrs ?m' = rptrs ?m"
      using beat(2,4) by (auto simp: wpending_def rptrs_def)
    have d: "data_inv ps txs (bs @ [?b]) ?m'" "p = ps ! bursts bs" "bursts bs < length ps"
      "tx_heap ?m ! p = write_at (txs ! bursts bs) (burst_pos bs)"
      using data_inv_beat [OF i(2,1) beat(2) _ h wt] by auto
    have "dram_inv ps txs (bursts (bs @ [?b])) ans ?m'" using dram_inv_data [OF i(3,1) d(2,3,4) h w] by simp
    moreover have "ptrs_ok ps ?m'" using i(1) h rp by (simp add: ptrs_ok_def)
    moreover have "resp_inv txs ans rs ch'" using i(4) b by (auto simp: resp_inv_def beat(4))
    moreover have "tx_addr (tx_heap ?m ! p) = beat_addr (txs ! bursts bs) (burst_pos bs)" by (simp add: d(4) write_at_def)
    ultimately show ?thesis using d(1) beat(1,3) by (simp add: write_inv_def)
  qed
  then show "write_inv ps txs (bs @ taken i ch) ans rs ch'"
    and "sys_bytes sys' = fold (\<lambda>b. store_beat P (beat_addr (txs ! bursts bs) (burst_pos bs), b)) (taken i ch) (sys_bytes sys)"
    by simp_all
qed

section \<open>Cycles and executions\<close>

lemma write_inv_cong:
  assumes "ch_mem ch' = ch_mem ch" and "mo_b_valid ch' = mo_b_valid ch" and "mo_b_id ch' = mo_b_id ch"
  shows "write_inv ps txs bs ans rs ch' = write_inv ps txs bs ans rs ch"
  by (simp add: write_inv_def resp_inv_def assms)

text \<open>The signals of the write channels until their own stage of the cycle.\<close>

abbreviation w_fields :: "chan \<Rightarrow> bool \<times> bool \<times> bool \<times> int" where
  "w_fields ch \<equiv> (mo_aw_ready ch, mo_w_ready ch, mo_b_valid ch, mo_b_id ch)"

lemma w_fields_kept:
  "read_handshake P i ch sys = Inr (ch', sys') \<Longrightarrow> w_fields ch' = w_fields ch \<and> write_transactions (ch_mem ch') = write_transactions (ch_mem ch)"
  "accept_read P vpi ms i ch = Inr (Next ch') \<Longrightarrow> w_fields ch' = w_fields ch \<and> write_transactions (ch_mem ch') = write_transactions (ch_mem ch)"
  "response_handshake i ch = Inr ch' \<Longrightarrow> w_fields ch' = w_fields ch \<and> write_transactions (ch_mem ch') = write_transactions (ch_mem ch)"
  "drive_read P sys ch = Inr ch' \<Longrightarrow> w_fields ch' = w_fields ch \<and> ch_mem ch' = ch_mem ch"
  "mo_aw_ready (drive_response ch) = mo_aw_ready ch" "mo_w_ready (drive_response ch) = mo_w_ready ch"
  "write_transactions (ch_mem (drive_response ch)) = write_transactions (ch_mem ch)"
  "drive_ready ch = Inr ch' \<Longrightarrow> ch_mem ch' = ch_mem ch \<and> mo_b_valid ch' = mo_b_valid ch \<and> mo_b_id ch' = mo_b_id ch"
  by (auto simp: read_handshake_def accept_read_def make_shared_def response_handshake_def drive_read_def drive_response_def drive_ready_def
      Let_def res_simps split: if_splits list.splits)

lemma accept_write_taken:
  assumes "accept_write P vpi ms i ch = Inr (Next ch')"
  shows "taken i ch' = cycle_wdata vpi ms i ch"
  using assms by (cases rule: accept_write_cases) (auto simp: taken_def cycle_wdata_def)

lemma channel_cycle_write:
  assumes "channel_cycle P vpi ms i ch sys = Inr (Next (ch', sys'))" and bus: "DATA_BUS_BYTES P \<le> 2 ^ 64"
    and inv: "write_inv ps txs bs ans rs ch"
  defines "txs' \<equiv> txs @ map (\<lambda>ad. write_request P ad i) (aw_targets vpi ms i ch)" and "b \<equiv> cycle_wdata vpi ms i ch"
  shows "\<exists>ps'. write_inv ps' txs' (bs @ b) ans (rs @ (if mi_b_ready i \<and> mo_b_valid ch then [mo_b_id ch] else [])) ch'"
    and "sys_bytes sys' = fold (\<lambda>b. store_beat P (beat_addr (txs' ! bursts bs) (burst_pos bs), b)) b (sys_bytes sys)"
proof -
  let ?rs = "rs @ (if mi_b_ready i \<and> mo_b_valid ch then [mo_b_id ch] else [])"
  from assms(1) obtain c1 c2 c3 c4 where 1: "response_handshake i ch = Inr c1" and 2: "drive_read P sys c1 = Inr c2"
    and 3: "accept_write P vpi ms i (drive_response c2) = Inr (Next c3)" and 4: "write_beat P i c3 sys = Inr (c4, sys')"
    and 5: "drive_ready c4 = Inr ch'"
    by (auto simp: channel_cycle_def res_simps flow_case_eq)
  note f1 = w_fields_kept(3) [OF 1] and f2 = w_fields_kept(4) [OF 2] and f5 = w_fields_kept(8) [OF 5]
  have s: "aw_targets vpi ms i (drive_response c2) = aw_targets vpi ms i ch"
    "cycle_wdata vpi ms i (drive_response c2) = b"
    unfolding b_def using f1 f2 by (simp_all add: cycle_wdata_def aw_targets_def w_fields_kept(5-7))
  have "write_inv ps txs bs ans ?rs (c2\<lparr>mo_b_valid := False\<rparr>)"
    using response_handshake_inv [OF 1 inv] write_inv_cong [of "c2\<lparr>mo_b_valid := False\<rparr>" "c1\<lparr>mo_b_valid := False\<rparr>"] f2 by simp
  from accept_write_inv [OF 3 drive_response_inv [OF this]] obtain ps' where
    i3: "write_inv ps' txs' bs ans ?rs c3" unfolding txs'_def s by blast
  have t: "taken i c3 = b" using accept_write_taken [OF 3] s by simp
  note w = write_beat_inv [OF 4 bus i3, unfolded t]
  from w(1) show "\<exists>ps'. write_inv ps' txs' (bs @ b) ans ?rs ch'" using write_inv_cong [of ch' c4] f5 by auto
  from w(2) show "sys_bytes sys' = fold (\<lambda>b. store_beat P (beat_addr (txs' ! bursts bs) (burst_pos bs), b)) b (sys_bytes sys)" .
qed

lemma mem_tick_write:
  assumes "mem_tick P vpi ms [i] [ch] sys = Inr (Next ([ch'], sys'))" and bus: "DATA_BUS_BYTES P \<le> 2 ^ 64"
    and inv: "write_inv ps txs bs ans rs ch"
  defines "txs' \<equiv> txs @ map (\<lambda>ad. write_request P ad i) (aw_targets vpi ms i ch)" and "b \<equiv> cycle_wdata vpi ms i ch"
  shows "\<exists>ps'. write_inv ps' txs' (bs @ b) ans (rs @ (if mi_b_ready i \<and> mo_b_valid ch then [mo_b_id ch] else [])) ch'"
    and "sys_bytes sys' = fold (\<lambda>b. store_beat P (beat_addr (txs' ! bursts bs) (burst_pos bs), b)) b (sys_bytes sys)"
proof -
  from assms(1) obtain c1 s1 c2 where 1: "read_handshake P i ch sys = Inr (c1, s1)" and 2: "accept_read P vpi ms i c1 = Inr (Next c2)"
    and 3: "channel_cycle P vpi ms i c2 s1 = Inr (Next (ch', sys'))"
    by (auto simp: mem_tick_def res_simps flow_case_eq)
  note f1 = w_fields_kept(1) [OF 1] and f2 = w_fields_kept(2) [OF 2]
  have "read_side (ch_mem ch) (ch_mem c2)" by (rule read_side_trans [OF read_handshake_side [OF 1] accept_read_side [OF 2]])
  then have "write_inv ps txs bs ans rs (ch\<lparr>ch_mem := ch_mem c2\<rparr>)" by (rule write_inv_frame [OF inv])
  then have i2: "write_inv ps txs bs ans rs c2" using write_inv_cong [of "ch\<lparr>ch_mem := ch_mem c2\<rparr>" c2] f1 f2 by simp
  have s: "aw_targets vpi ms i c2 = aw_targets vpi ms i ch" "cycle_wdata vpi ms i c2 = b" "mo_b_valid c2 = mo_b_valid ch" "mo_b_id c2 = mo_b_id ch"
    unfolding b_def using f1 f2 by (simp_all add: cycle_wdata_def aw_targets_def)
  have bytes: "sys_bytes s1 = sys_bytes sys" using read_handshake_writes [OF 1] by simp
  from channel_cycle_write [OF 3 bus i2, unfolded s bytes, folded txs'_def]
  show "\<exists>ps'. write_inv ps' txs' (bs @ b) ans (rs @ (if mi_b_ready i \<and> mo_b_valid ch then [mo_b_id ch] else [])) ch'"
    and "sys_bytes sys' = fold (\<lambda>b. store_beat P (beat_addr (txs' ! bursts bs) (burst_pos bs), b)) b (sys_bytes sys)"
    by simp_all
qed

definition write_fresh :: "chan \<Rightarrow> bool" where
  "write_fresh ch \<longleftrightarrow> (let m = ch_mem ch in write_transactions m = [] \<and> ddr_write_q m = []
     \<and> (\<forall>a. inflight_contents (in_flight_writes m) a = []) \<and> b_send_ids m = [] \<and> b_to_enqueue m = []
     \<and> num_in_flight_writes m = 0 \<and> \<not> mo_b_valid ch \<and> (\<forall>p \<in> rptrs m. p < length (tx_heap m)))"

definition write_idle :: "chan \<Rightarrow> bool" where
  "write_idle ch \<longleftrightarrow> (let m = ch_mem ch in write_transactions m = [] \<and> ddr_write_q m = []
     \<and> (\<forall>a. inflight_contents (in_flight_writes m) a = []) \<and> b_send_ids m = [] \<and> b_to_enqueue m = [])"

fun is_outside :: "mem_event \<Rightarrow> bool" where
  "is_outside (Outside sys) = True"
| "is_outside _ = False"

lemma write_fresh_inv: "write_fresh ch \<Longrightarrow> write_inv [] [] [] [] [] ch"
  by (simp add: write_fresh_def write_inv_def ptrs_ok_def data_inv_def dram_inv_def resp_inv_def wpending_def Let_def)

lemma try_to_enqueue_write:
  assumes "try_to_enqueue_ddr P acc (ch_mem ch) = Inr m" and inv: "write_inv ps txs bs ans rs ch"
  shows "write_inv ps txs bs ans rs (ch\<lparr>ch_mem := m\<rparr>)"
proof -
  let ?m = "ch_mem ch"
  from assms(1) obtain r m1 w where r: "find_read P (\<lambda>a. acc a False) ?m [] (ddr_read_q ?m) = Inr r"
    and m1: "(case r of None \<Rightarrow> Inr ?m | Some p \<Rightarrow> issue_read P p ?m) = Inr m1"
    and w: "find_write P (\<lambda>a. acc a True) m1 (ddr_write_q m1) = Inr w"
    and m: "(case w of None \<Rightarrow> Inr m1 | Some p \<Rightarrow> issue_write P p m1) = Inr m"
    by (auto simp: try_to_enqueue_ddr_def res_simps)
  have "read_side ?m m1"
    using r m1 by (auto dest!: find_read_mem intro: read_side_refl issue_read_side split: option.splits)
  from write_inv_frame [OF inv this] have i1: "write_inv ps txs bs ans rs (ch\<lparr>ch_mem := m1\<rparr>)" .
  show ?thesis
  proof (cases w)
    case None
    with m i1 show ?thesis by simp
  next
    case (Some p)
    with w have "p \<in> set (ddr_write_q m1)" by (auto dest: find_write_mem)
    with issue_write_inv [OF i1, of P p m] m Some show ?thesis by simp
  qed
qed

lemma placed_grow:
  assumes inv: "write_inv ps txs bs ans rs ch" and b: "length b \<le> 1"
  shows "placed (txs @ txs') (bs @ b) = placed txs bs @ map (Pair (beat_addr ((txs @ txs') ! bursts bs) (burst_pos bs))) b"
proof -
  have "placed (txs @ txs') bs = placed txs bs"
    by (rule placed_more) (use write_invD(2) [OF inv] in \<open>simp add: data_inv_def\<close>)
  then show ?thesis using b by (cases b) (simp_all add: placed_snoc)
qed

lemma write_inv_step:
  assumes "mem_step P vpi ms (ch, sys) e s2" and bus: "DATA_BUS_BYTES P \<le> 2 ^ 64"
    and i: "write_inv ps (writes P vpi ms tr) (wdata vpi ms tr) ans (responses tr) ch"
  defines "tr2 \<equiv> tr @ [((ch, sys), e, s2)]"
  shows "\<exists>ps ans. write_inv ps (writes P vpi ms tr2) (wdata vpi ms tr2) ans (responses tr2) (fst s2)"
    and "\<not> is_outside e \<Longrightarrow> \<exists>new. placed (writes P vpi ms tr2) (wdata vpi ms tr2) = placed (writes P vpi ms tr) (wdata vpi ms tr) @ new
      \<and> sys_bytes (snd s2) = fold (store_beat P) new (sys_bytes sys)"
proof -
  have "(\<exists>ps ans. write_inv ps (writes P vpi ms tr2) (wdata vpi ms tr2) ans (responses tr2) (fst s2)) \<and>
    (\<not> is_outside e \<longrightarrow> (\<exists>new. placed (writes P vpi ms tr2) (wdata vpi ms tr2) = placed (writes P vpi ms tr) (wdata vpi ms tr) @ new
      \<and> sys_bytes (snd s2) = fold (store_beat P) new (sys_bytes sys)))"
    using assms(1)
  proof cases
    case (cycle j ch' sys')
    note t = mem_tick_write [OF cycle(3) bus i]
    have "length (cycle_wdata vpi ms j ch) \<le> 1" by (simp add: cycle_wdata_def)
    note g = placed_grow [OF i this, of "map (\<lambda>ad. write_request P ad j) (aw_targets vpi ms j ch)"]
    from t(1) obtain ps' where "write_inv ps' (writes P vpi ms tr2) (wdata vpi ms tr2) ans (responses tr2) ch'"
      by (auto simp: tr2_def cycle(1))
    then have "\<exists>ps ans. write_inv ps (writes P vpi ms tr2) (wdata vpi ms tr2) ans (responses tr2) (fst s2)" unfolding cycle(2) fst_conv by blast
    with g show ?thesis by (simp add: tr2_def cycle(1,2) t(2) fold_map o_def)
  next
    case (issue acc m)
    from try_to_enqueue_write [OF issue(3) i] show ?thesis by (auto simp: tr2_def issue(1,2))
  next
    case (read_done a m)
    from write_inv_frame [OF i read_callback_side [OF read_done(3)]] show ?thesis by (auto simp: tr2_def read_done(1,2))
  next
    case (write_done a m)
    from write_callback_inv [OF i write_done(3)] show ?thesis by (auto simp: tr2_def write_done(1,2))
  next
    case (outside sys')
    with i show ?thesis by (auto simp: tr2_def)
  qed
  then show "\<exists>ps ans. write_inv ps (writes P vpi ms tr2) (wdata vpi ms tr2) ans (responses tr2) (fst s2)"
    and "\<not> is_outside e \<Longrightarrow> \<exists>new. placed (writes P vpi ms tr2) (wdata vpi ms tr2) = placed (writes P vpi ms tr) (wdata vpi ms tr) @ new
      \<and> sys_bytes (snd s2) = fold (store_beat P) new (sys_bytes sys)" by blast+
qed

lemma write_inv_exec:
  assumes "mem_exec P vpi ms s tr s'" and "write_fresh (fst s)" and bus: "DATA_BUS_BYTES P \<le> 2 ^ 64"
  shows "\<exists>ps ans. write_inv ps (writes P vpi ms tr) (wdata vpi ms tr) ans (responses tr) (fst s')"
  using assms(1,2)
proof (induction rule: mem_exec.induct)
  case exec_nil
  then show ?case by (auto intro!: exI [of _ "[]"] write_fresh_inv)
next
  case (exec_snoc tr s1 e s2)
  from exec_snoc.IH [OF exec_snoc.prems] write_inv_step(1) [OF _ bus, of vpi ms "fst s1" "snd s1" e s2 _ tr] exec_snoc.hyps(2)
  show ?case by auto
qed

text \<open>The part of an execution in which nobody else changes the memory: the memory changes by the beats taken in it.\<close>

lemma write_stored_exec:
  assumes "mem_exec P vpi ms s1 tr2 s'" and ex: "mem_exec P vpi ms s tr1 s1" and "write_fresh (fst s)" and bus: "DATA_BUS_BYTES P \<le> 2 ^ 64"
    and "\<forall>x \<in> set tr2. \<not> is_outside (fst (snd x))"
  shows "\<exists>new. placed (writes P vpi ms (tr1 @ tr2)) (wdata vpi ms (tr1 @ tr2)) = placed (writes P vpi ms tr1) (wdata vpi ms tr1) @ new
    \<and> sys_bytes (snd s') = fold (store_beat P) new (sys_bytes (snd s1))"
  using assms(1,5)
proof (induction rule: mem_exec.induct)
  case exec_nil
  then show ?case by simp
next
  case (exec_snoc tr s2 e s3)
  from exec_snoc.IH exec_snoc.prems obtain new where
    n: "placed (writes P vpi ms (tr1 @ tr)) (wdata vpi ms (tr1 @ tr)) = placed (writes P vpi ms tr1) (wdata vpi ms tr1) @ new"
      "sys_bytes (snd s2) = fold (store_beat P) new (sys_bytes (snd s1))" by auto
  from write_inv_exec [OF mem_exec_append [OF exec_snoc.hyps(1) ex] assms(3) bus] obtain ps ans where
    i: "write_inv ps (writes P vpi ms (tr1 @ tr)) (wdata vpi ms (tr1 @ tr)) ans (responses (tr1 @ tr)) (fst s2)" by blast
  have st: "mem_step P vpi ms (fst s2, snd s2) e s3" "\<not> is_outside e" using exec_snoc.hyps(2) exec_snoc.prems by auto
  from write_inv_step(2) [OF st(1) bus i st(2)] obtain new' where
    "placed (writes P vpi ms ((tr1 @ tr) @ [(s2, e, s3)])) (wdata vpi ms ((tr1 @ tr) @ [(s2, e, s3)])) =
       placed (writes P vpi ms (tr1 @ tr)) (wdata vpi ms (tr1 @ tr)) @ new'"
    "sys_bytes (snd s3) = fold (store_beat P) new' (sys_bytes (snd s2))" by auto
  with n show ?case by (intro exI [of _ "new @ new'"]) simp
qed

lemma write_all_answered:
  assumes "mem_exec P vpi ms s tr s'" and "write_fresh (fst s)" and "DATA_BUS_BYTES P \<le> 2 ^ 64"
  shows "\<exists>ans. responses tr = map (\<lambda>k. tx_id (writes P vpi ms tr ! k)) ans \<and> distinct ans
    \<and> set ans \<subseteq> {..<bursts (wdata vpi ms tr)} \<and> bursts (wdata vpi ms tr) \<le> length (writes P vpi ms tr)
    \<and> num_in_flight_writes (ch_mem (fst s')) = int (length (writes P vpi ms tr)) - int (length ans)
    \<and> (write_idle (fst s') \<longrightarrow> set ans = {..<length (writes P vpi ms tr)})"
proof -
  let ?txs = "writes P vpi ms tr" and ?bs = "wdata vpi ms tr" and ?m = "ch_mem (fst s')" and ?rs = "responses tr"
  from write_inv_exec [OF assms] obtain ps all where i: "write_inv ps ?txs ?bs all ?rs (fst s')" by blast
  note i = write_invD [OF i]
  let ?ans = "take (length ?rs) all"
  have r: "map (\<lambda>k. tx_id (?txs ! k)) all = ?rs @ b_send_ids ?m @ b_to_enqueue ?m" using i(4) by (simp add: resp_inv_def)
  then have "map (\<lambda>k. tx_id (?txs ! k)) ?ans = ?rs" by (simp add: take_map [symmetric])
  moreover have "length ?ans = length ?rs" using arg_cong [OF r, of length] by simp
  moreover have "distinct ?ans" "set ?ans \<subseteq> {..<bursts ?bs}"
    using i(3) set_take_subset [of "length ?rs" all] by (auto simp: dram_inv_def)
  moreover have b: "bursts ?bs \<le> length ?txs" using i(2) by (simp add: data_inv_def)
  moreover have "set ?ans = {..<length ?txs}" if idle: "write_idle (fst s')"
  proof -
    have e: "bursts ?bs = length ?txs" using idle i(2,5) b by (auto simp: write_idle_def data_inv_def Let_def)
    have "wpending ?m = {}" using idle by (simp add: write_idle_def wpending_def Let_def)
    then have "{..<bursts ?bs} \<subseteq> set all" using i(3) by (auto simp: dram_inv_def) (metis empty_iff)
    moreover have "?ans = all" using idle arg_cong [OF r, of length] by (simp add: write_idle_def Let_def)
    ultimately show ?thesis using i(3) e by (auto simp: dram_inv_def)
  qed
  ultimately show ?thesis using i(4) by (intro exI [of _ ?ans]) (simp add: resp_inv_def)
qed

section \<open>Properties\<close>


text \<open>A write of two beats, one DRAM request.\<close>

definition demo_aw :: mem_in where
  "demo_aw = demo_mem_in\<lparr>mi_aw_valid := True, mi_aw_addr := 0x1000, mi_aw_size := 5, mi_aw_len := 1, mi_aw_id := 5\<rparr>"

definition demo_burst :: "mem_event list" where
  "demo_burst = [Cycle demo_aw, Cycle (demo_write 1 False), Cycle (demo_write 2 True), Issue (\<lambda>a w. True), Write_done 0x1000,
     Cycle demo_mem_in, Cycle demo_mem_in, Cycle demo_mem_in]"

lemma demo_chan_fresh: "write_fresh (demo_chan empty_mem)"
  by (simp add: write_fresh_def demo_chan_def empty_mem_def rptrs_def inflight_contents_def)

lemma demo_burst_run:
  "\<exists>tr s'. mem_run demo_P False example_table demo_burst (demo_chan empty_mem, demo_sys) = Some (tr, s')
    \<and> writes demo_P False example_table tr = [write_request demo_P 0x70000 demo_aw] \<and> length (responses tr) = 1
    \<and> wdata False example_table tr = [([- 1], replicate 32 1, False), ([- 1], replicate 32 2, True)]
    \<and> (\<forall>x \<in> set tr. \<not> is_outside (fst (snd x)))"
proof -
  have "case mem_run demo_P False example_table demo_burst (demo_chan empty_mem, demo_sys) of
      None \<Rightarrow> False
    | Some (tr, s') \<Rightarrow> writes demo_P False example_table tr = [write_request demo_P 0x70000 demo_aw] \<and> length (responses tr) = 1
        \<and> wdata False example_table tr = [([- 1], replicate 32 1, False), ([- 1], replicate 32 2, True)]
        \<and> list_all (\<lambda>x. \<not> is_outside (fst (snd x))) tr" by code_simp
  then show ?thesis by (auto simp: list_all_iff split: option.splits)
qed


text \<open>Where AXI puts a beat: lane \<open>l\<close> of the bus carries the byte at offset \<open>l\<close> of the bus word that the beat's address is in. The writes for which
  the runtime agrees are those as wide as the bus at addresses that are a multiple of its width.\<close>

definition axi_place :: "mem_params \<Rightarrow> memory_transaction \<Rightarrow> nat \<Rightarrow> u64" where
  "axi_place P tx j = (let fpga = (if tx_fixed tx then tx_fpga_addr tx else tx_fpga_addr tx + of_nat j * of_int (tx_size tx)) in
     beat_addr tx j - fpga mod of_int (DATA_BUS_BYTES P))"

definition axi_placed :: "mem_params \<Rightarrow> memory_transaction list \<Rightarrow> wbeat list \<Rightarrow> (u64 \<times> wbeat) list" where
  "axi_placed P txs bs = map (\<lambda>k. (axi_place P (txs ! bursts (take k bs)) (burst_pos (take k bs)), bs ! k)) [0..<length bs]"

definition bus_aligned :: "mem_params \<Rightarrow> memory_transaction \<Rightarrow> bool" where
  "bus_aligned P tx \<longleftrightarrow> tx_size tx = DATA_BUS_BYTES P \<and> DATA_BUS_BYTES P dvd uint (tx_fpga_addr tx)"

lemma axi_place_aligned:
  assumes "bus_aligned P tx" and "DATA_BUS_BYTES P dvd 2 ^ 64" and "0 < DATA_BUS_BYTES P"
  shows "axi_place P tx j = beat_addr tx j"
proof -
  let ?b = "DATA_BUS_BYTES P" and ?w = "of_int (DATA_BUS_BYTES P) :: u64"
  have mod0: "(a :: u64) mod ?w = 0" if "?b dvd uint a" for a
  proof (cases "?b = 2 ^ 64")
    case True
    then have "?w = 0" by simp
    have "uint a < 2 ^ 64" using uint_lt2p [of a] by simp
    then have "uint a = 0" using that True zdvd_not_zless [of "uint a" "?b"] uint_ge_0 [of a] by linarith
    then have "a = 0" by (simp only: unsigned_eq_0_iff)
    then show ?thesis by simp
  next
    case False
    then have "?b < 2 ^ 64" using zdvd_imp_le [OF assms(2)] by simp
    then have "uint ?w = ?b" using assms(3) by (simp add: uint_word_of_int_eq take_bit_int_eq_self)
    then show ?thesis using that by (simp add: word_uint_eq_iff uint_mod)
  qed
  have "?b dvd uint (tx_fpga_addr tx + of_nat j * of_int (tx_size tx))"
  proof -
    have "?b dvd uint (tx_fpga_addr tx) + int j * ?b" using assms(1) by (simp add: bus_aligned_def)
    then have "?b dvd (uint (tx_fpga_addr tx) + int j * ?b) mod 2 ^ 64" using assms(2) by (simp add: dvd_mod)
    moreover have "tx_fpga_addr tx + of_nat j * of_int (tx_size tx) = word_of_int (uint (tx_fpga_addr tx) + int j * ?b)"
      using assms(1) by (simp add: bus_aligned_def)
    ultimately show ?thesis by (simp only: uint_word_of_int) simp
  qed
  with assms(1) show ?thesis by (simp add: axi_place_def Let_def mod0 bus_aligned_def)
qed



section \<open>The ready signal of the data channel\<close>

text \<open>While a write is open its data is accepted; with no write open, data and addresses are accepted together.\<close>

definition wready_inv :: "chan \<Rightarrow> bool" where
  "wready_inv ch \<longleftrightarrow> (if write_transactions (ch_mem ch) = [] then mo_w_ready ch = mo_aw_ready ch else mo_w_ready ch)"

lemma write_beat_ready:
  assumes "write_beat P i ch sys = Inr (ch', sys')" and "write_transactions (ch_mem ch) \<noteq> [] \<longrightarrow> mo_w_ready ch"
  shows "if write_transactions (ch_mem ch') = [] then mo_w_ready ch' = (num_in_flight_writes (ch_mem ch') < max_in_flight_writes)
    else mo_w_ready ch'"
  using assms by (cases "write_transactions (ch_mem ch)") (auto simp: write_beat_def Let_def res_simps split: if_splits)

lemma wready_cycle:
  assumes "mem_tick P vpi ms [i] [ch] sys = Inr (Next ([ch'], sys'))" and "wready_inv ch"
  shows "wready_inv ch'"
proof -
  from assms(1) obtain c1 s1 c2 where 1: "read_handshake P i ch sys = Inr (c1, s1)" and 2: "accept_read P vpi ms i c1 = Inr (Next c2)"
    and "channel_cycle P vpi ms i c2 s1 = Inr (Next (ch', sys'))"
    by (auto simp: mem_tick_def res_simps flow_case_eq)
  then obtain c3 c4 c5 c6 where 3: "response_handshake i c2 = Inr c3" and 4: "drive_read P s1 c3 = Inr c4"
    and 5: "accept_write P vpi ms i (drive_response c4) = Inr (Next c5)" and 6: "write_beat P i c5 s1 = Inr (c6, sys')"
    and 7: "drive_ready c6 = Inr ch'"
    by (auto simp: channel_cycle_def res_simps flow_case_eq)
  have "wready_inv (drive_response c4)"
    using assms(2) w_fields_kept(1) [OF 1] w_fields_kept(2) [OF 2] w_fields_kept(3) [OF 3] w_fields_kept(4) [OF 4]
    by (simp add: wready_inv_def w_fields_kept(5-7))
  with 5 have "write_transactions (ch_mem c5) \<noteq> [] \<longrightarrow> mo_w_ready c5"
    by (cases rule: accept_write_cases) (auto simp: wready_inv_def aw_targets_def split: if_splits)
  from write_beat_ready [OF 6 this] 7 show ?thesis
    by (auto simp: wready_inv_def drive_ready_def res_simps split: if_splits)
qed

theorem write_data_ready:
  assumes "mem_exec P vpi ms s tr s'" and "wready_inv (fst s)"
  shows "wready_inv (fst s')"
  using assms
proof (induction rule: mem_exec.induct)
  case (exec_snoc tr s1 e s2)
  have "wready_inv (fst s1)" using exec_snoc by blast
  with exec_snoc.hyps(2) show ?case
  proof cases
    case (cycle i ch sys ch' sys')
    with \<open>wready_inv (fst s1)\<close> show ?thesis by (auto intro: wready_cycle)
  next
    case (issue acc ch m sys)
    have "write_transactions m = write_transactions (ch_mem ch)"
      using issue(4) by (auto simp: try_to_enqueue_ddr_def issue_read_def issue_write_def Let_def res_simps split: option.splits)
    with issue \<open>wready_inv (fst s1)\<close> show ?thesis by (simp add: wready_inv_def)
  next
    case (read_done a ch m sys)
    with read_callback_side [OF read_done(4)] \<open>wready_inv (fst s1)\<close> show ?thesis by (simp add: wready_inv_def read_side_def)
  next
    case (write_done a ch m sys)
    have "write_transactions m = write_transactions (ch_mem ch)"
      using write_done(4) by (auto simp: write_callback_def Let_def res_simps enqueue_response_same case_prod_beta)
    with write_done \<open>wready_inv (fst s1)\<close> show ?thesis by (simp add: wready_inv_def)
  qed auto
qed

text \<open>Data that comes before its address is lost, although AXI lets it: with no write open the ready signal is high, and a beat
  transferred then is not stored and belongs to no burst.\<close>

theorem early_write_data_lost:
  assumes "mem_step P vpi ms (ch, sys) (Cycle i) (ch', sys')" and "mi_w_valid i" and "mo_w_ready ch"
    and "write_transactions (ch_mem ch) = []" and "\<not> mi_aw_valid i"
  shows "sys_bytes sys' = sys_bytes sys \<and> step_wdata vpi ms ((ch, sys), Cycle i, (ch', sys')) = []"
  using mem_step_bytes [OF assms(1)] assms(4,5) by (simp add: cycle_wdata_def aw_targets_def)

theorem early_write_data_run:
  "case mem_run demo_P False example_table [Cycle (demo_write 1 False), Cycle (demo_write 2 True), Cycle demo_aw, Cycle demo_mem_in]
      (demo_chan empty_mem, demo_sys) of
     None \<Rightarrow> False
   | Some (tr, (ch, sys)) \<Rightarrow> map mo_w_ready (map (fst \<circ> fst) tr) = [True, True, True, True]
       \<and> sys_bytes sys 0x70000 = 0 \<and> write_transactions (ch_mem ch) = [0]"
  by code_simp

end
