(* ===== verification/Mem_Channels.thy ===== *)
theory Mem_Channels
  imports "HOL-Library.Multiset" Mem_Writes
begin

text \<open>
  All memory channels together. \<open>tick_signals\<close> (src/sim/tick.cc) runs two loops over the channels, which share the host memory and the
  byte counter; the requests and completions of the DRAM models belong to one channel each. A channel of such an execution behaves as
  a channel on its own, in the sense of \<open>Mem_System\<close>, to which the other channels are changes of the host memory from outside:
  theorem \<open>channels_independent\<close>. Through it the theorems on one channel hold for every channel; \<open>channel_writes_answered\<close> and
  \<open>channel_reads_delivered\<close> state this for writes and for reads.
\<close>

section \<open>Steps and executions\<close>

datatype mems_event =
    Cycles "mem_in list"
  | At nat mem_event

type_synonym mems_state = "chan list \<times> mem_sys"

type_synonym mems_trace = "(mems_state \<times> mems_event \<times> mems_state) list"

fun is_cycle :: "mem_event \<Rightarrow> bool" where
  "is_cycle (Cycle i) = True"
| "is_cycle _ = False"

inductive mems_step :: "mem_params \<Rightarrow> bool \<Rightarrow> mappings \<Rightarrow> mems_state \<Rightarrow> mems_event \<Rightarrow> mems_state \<Rightarrow> bool"
  for P vpi ms where
    cycles: "mem_tick P vpi ms is chs sys = Inr (Next (chs', sys')) \<Longrightarrow> length is = length chs \<Longrightarrow>
      mems_step P vpi ms (chs, sys) (Cycles is) (chs', sys')"
  | at: "mem_step P vpi ms (chs ! k, sys) e (ch', sys') \<Longrightarrow> k < length chs \<Longrightarrow> \<not> is_cycle e \<Longrightarrow>
      mems_step P vpi ms (chs, sys) (At k e) (chs[k := ch'], sys')"

inductive mems_exec :: "mem_params \<Rightarrow> bool \<Rightarrow> mappings \<Rightarrow> mems_state \<Rightarrow> mems_trace \<Rightarrow> mems_state \<Rightarrow> bool"
  for P vpi ms s where
    mems_nil: "mems_exec P vpi ms s [] s"
  | mems_snoc: "mems_exec P vpi ms s tr s1 \<Longrightarrow> mems_step P vpi ms s1 e s2 \<Longrightarrow>
      mems_exec P vpi ms s (tr @ [(s1, e, s2)]) s2"

text \<open>What channel \<open>k\<close> sees of a step.\<close>

fun step_view :: "nat \<Rightarrow> mems_state \<times> mems_event \<times> mems_state \<Rightarrow> mem_trace" where
  "step_view k ((chs, sys), Cycles is, (chs', sys')) = [((chs ! k, sys), Cycle (is ! k), (chs' ! k, sys'))]"
| "step_view k ((chs, sys), At j e, (chs', sys')) = (if j = k then [((chs ! k, sys), e, (chs' ! k, sys'))] else [])"

abbreviation view :: "nat \<Rightarrow> mems_trace \<Rightarrow> mem_trace" where
  "view k tr \<equiv> concat (map (step_view k) tr)"

text \<open>Executions as a function of the events.\<close>

fun mems_apply :: "mem_params \<Rightarrow> bool \<Rightarrow> mappings \<Rightarrow> mems_event \<Rightarrow> mems_state \<Rightarrow> mems_state option" where
  "mems_apply P vpi ms (Cycles is) (chs, sys) =
     (if length is = length chs then (case mem_tick P vpi ms is chs sys of Inr (Next r) \<Rightarrow> Some r | _ \<Rightarrow> None) else None)"
| "mems_apply P vpi ms (At k e) (chs, sys) =
     (if k < length chs \<and> \<not> is_cycle e
      then map_option (\<lambda>(ch', sys'). (chs[k := ch'], sys')) (mem_apply P vpi ms e (chs ! k, sys)) else None)"

fun mems_run :: "mem_params \<Rightarrow> bool \<Rightarrow> mappings \<Rightarrow> mems_event list \<Rightarrow> mems_trace \<Rightarrow> mems_state \<Rightarrow> (mems_trace \<times> mems_state) option" where
  "mems_run P vpi ms [] tr s = Some (tr, s)"
| "mems_run P vpi ms (e # es) tr s =
     (case mems_apply P vpi ms e s of None \<Rightarrow> None | Some s1 \<Rightarrow> mems_run P vpi ms es (tr @ [(s, e, s1)]) s1)"

lemma mems_apply_step: "mems_apply P vpi ms e s = Some s' \<Longrightarrow> mems_step P vpi ms s e s'"
  by (induction P vpi ms e s rule: mems_apply.induct)
    (auto intro!: mems_step.intros mem_apply_step split: sum.splits flow.splits if_splits)

lemma mems_run_exec: "mems_run P vpi ms es tr s1 = Some (tr', s') \<Longrightarrow> mems_exec P vpi ms s tr s1 \<Longrightarrow> mems_exec P vpi ms s tr' s'"
proof (induction es arbitrary: tr s1)
  case (Cons e es)
  from Cons.prems(1) obtain s2 where a: "mems_apply P vpi ms e s1 = Some s2" "mems_run P vpi ms es (tr @ [(s1, e, s2)]) s2 = Some (tr', s')"
    by (auto split: option.splits)
  from Cons.IH [OF a(2) mems_snoc [OF Cons.prems(2) mems_apply_step [OF a(1)]]] show ?case .
qed simp

section \<open>One channel of a cycle\<close>

lemma read_stage_length:
  "length is = length chs \<Longrightarrow> read_stage P vpi ms is chs sys = Inr (Next (chs', sys')) \<Longrightarrow> length chs' = length chs"
  by (induction "is" chs arbitrary: sys chs' rule: list_induct2) (auto elim!: read_stage_Cons simp del: read_stage.simps(1))

lemma write_stage_length:
  "length is = length chs \<Longrightarrow> write_stage P vpi ms is chs sys = Inr (Next (chs', sys')) \<Longrightarrow> length chs' = length chs"
  by (induction "is" chs arbitrary: sys chs' rule: list_induct2) (auto elim!: write_stage_Cons simp del: write_stage.simps(1))

lemma read_stage_nth:
  assumes "length is = length chs" and "read_stage P vpi ms is chs sys = Inr (Next (chs', sys'))" and "k < length chs"
  shows "\<exists>s1 c s2. read_handshake P (is ! k) (chs ! k) s1 = Inr (c, s2) \<and> accept_read P vpi ms (is ! k) c = Inr (Next (chs' ! k))"
  using assms
proof (induction "is" chs arbitrary: sys chs' k rule: list_induct2)
  case Nil
  then show ?case by simp
next
  case (Cons i "is" ch chs)
  from Cons.prems(1) obtain c1 s1 c2 cs where 1: "read_handshake P i ch sys = Inr (c1, s1)" "accept_read P vpi ms i c1 = Inr (Next c2)"
    and r: "read_stage P vpi ms is chs s1 = Inr (Next (cs, sys'))" "chs' = c2 # cs" by (rule read_stage_Cons)
  show ?case
  proof (cases k)
    case 0
    with 1 r(2) show ?thesis by auto
  next
    case (Suc j)
    with Cons.IH [OF r(1), of j] Cons.prems(2) r(2) show ?thesis by simp
  qed
qed

text \<open>Channels that have no write under way.\<close>

definition quiet :: "mem_in list \<Rightarrow> chan list \<Rightarrow> bool" where
  "quiet is chs \<longleftrightarrow> list_all2 (\<lambda>i ch. write_transactions (ch_mem ch) = [] \<and> \<not> mi_aw_valid i) is chs"

lemma write_stage_nth:
  assumes "length is = length chs" and "write_stage P vpi ms is chs sys = Inr (Next (chs', sys'))" and "k < length chs"
  shows "\<exists>s1 s2. channel_cycle P vpi ms (is ! k) (chs ! k) s1 = Inr (Next (chs' ! k, s2))
    \<and> (quiet is chs \<longrightarrow> sys_bytes s1 = sys_bytes sys)"
  using assms
proof (induction "is" chs arbitrary: sys chs' k rule: list_induct2)
  case Nil
  then show ?case by simp
next
  case (Cons i "is" ch chs)
  from Cons.prems(1) obtain c1 s1 cs where 1: "channel_cycle P vpi ms i ch sys = Inr (Next (c1, s1))"
    and r: "write_stage P vpi ms is chs s1 = Inr (Next (cs, sys'))" "chs' = c1 # cs" by (rule write_stage_Cons)
  show ?case
  proof (cases k)
    case 0
    with 1 r(2) show ?thesis by auto
  next
    case (Suc j)
    have "quiet (i # is) (ch # chs) \<Longrightarrow> sys_bytes s1 = sys_bytes sys"
      using channel_cycle_bytes [OF 1] by (simp add: quiet_def)
    moreover have "quiet (i # is) (ch # chs) \<Longrightarrow> quiet is chs" by (simp add: quiet_def)
    ultimately show ?thesis using Cons.IH [OF r(1), of j] Cons.prems(2) r(2) Suc by auto
  qed
qed

text \<open>The read half of the cycle uses the shared state only to count bytes.\<close>

lemma read_handshake_shift:
  assumes "read_handshake P i ch s = Inr (c, s')"
  shows "\<exists>t. read_handshake P i ch t = Inr (c, u) \<and> sys_bytes t = sys_bytes u"
proof (cases "mo_r_valid ch \<and> mi_r_ready i")
  case False
  with assms show ?thesis by (auto simp: read_handshake_def)
next
  case True
  have "read_handshake P i ch (u\<lparr>memory_transacted := memory_transacted u - of_int (DATA_BUS_BYTES P)\<rparr>) = Inr (c, u)"
  proof -
    from True assms obtain p ps tx where "\<not> read_queue_lock (ch_mem ch)" "read_transactions (ch_mem ch) = p # ps" "deref (ch_mem ch) p = Inr tx"
      by (auto simp: read_handshake_def Let_def res_simps)
    then show ?thesis
      using True assms by (cases "mo_r_last ch \<or> \<not> can_be_last tx") (auto simp: read_handshake_def Let_def mutex_lock_def)
  qed
  then show ?thesis by (intro exI [of _ "u\<lparr>memory_transacted := memory_transacted u - of_int (DATA_BUS_BYTES P)\<rparr>"]) simp
qed

lemma read_stage_quiet:
  assumes "length is = length chs" and "read_stage P vpi ms is chs sys = Inr (Next (chs', sys'))"
  shows "sys_bytes sys' = sys_bytes sys \<and> (quiet is chs \<longrightarrow> quiet is chs')"
  using assms
proof (induction "is" chs arbitrary: sys chs' rule: list_induct2)
  case Nil
  then show ?case by simp
next
  case (Cons i "is" ch chs)
  from Cons.prems(1) obtain c1 s1 c2 cs where 1: "read_handshake P i ch sys = Inr (c1, s1)" and 2: "accept_read P vpi ms i c1 = Inr (Next c2)"
    and r: "read_stage P vpi ms is chs s1 = Inr (Next (cs, sys'))" "chs' = c2 # cs" by (rule read_stage_Cons)
  from Cons.IH [OF r(1)] read_handshake_writes [OF 1] accept_read_writes [OF 2] r(2) show ?case by (auto simp: quiet_def)
qed

lemma mem_tick_nth:
  assumes "mem_tick P vpi ms is chs sys = Inr (Next (chs', sys'))" and "length is = length chs" and "k < length chs"
  shows "\<exists>s1 s2. mem_tick P vpi ms [is ! k] [chs ! k] s1 = Inr (Next ([chs' ! k], s2))
    \<and> (quiet is chs \<longrightarrow> sys_bytes s1 = sys_bytes sys)"
proof -
  from assms(1) obtain cs s0 where r: "read_stage P vpi ms is chs sys = Inr (Next (cs, s0))"
    and w: "write_stage P vpi ms is cs s0 = Inr (Next (chs', sys'))"
    by (auto simp: mem_tick_def res_simps flow_case_eq)
  have len: "length cs = length chs" by (rule read_stage_length [OF assms(2) r])
  from read_stage_nth [OF assms(2) r assms(3)] obtain sa c sb where
    1: "read_handshake P (is ! k) (chs ! k) sa = Inr (c, sb)" and 2: "accept_read P vpi ms (is ! k) c = Inr (Next (cs ! k))" by blast
  from write_stage_nth [OF _ w, of k] assms(2,3) len obtain s1 s2 where
    3: "channel_cycle P vpi ms (is ! k) (cs ! k) s1 = Inr (Next (chs' ! k, s2))" and q: "quiet is cs \<longrightarrow> sys_bytes s1 = sys_bytes s0" by auto
  from read_handshake_shift [OF 1, of s1] obtain t where t: "read_handshake P (is ! k) (chs ! k) t = Inr (c, s1)" "sys_bytes t = sys_bytes s1" by blast
  have "mem_tick P vpi ms [is ! k] [chs ! k] t = Inr (Next ([chs' ! k], s2))" by (simp add: mem_tick_def t(1) 2 3)
  moreover have "sys_bytes t = sys_bytes sys" if "quiet is chs"
    using read_stage_quiet [OF assms(2) r] that q t(2) by simp
  ultimately show ?thesis by blast
qed

lemma write_stage_quiet:
  assumes "length is = length chs" and "write_stage P vpi ms is chs sys = Inr (Next (chs', sys'))" and "quiet is chs"
  shows "sys_bytes sys' = sys_bytes sys"
  using assms
proof (induction "is" chs arbitrary: sys chs' rule: list_induct2)
  case Nil
  then show ?case by simp
next
  case (Cons i "is" ch chs)
  from Cons.prems(1) obtain c1 s1 cs where 1: "channel_cycle P vpi ms i ch sys = Inr (Next (c1, s1))"
    and r: "write_stage P vpi ms is chs s1 = Inr (Next (cs, sys'))" by (rule write_stage_Cons)
  from channel_cycle_bytes [OF 1] Cons.IH [OF r] Cons.prems(2) show ?case by (simp add: quiet_def)
qed

lemma mem_tick_quiet:
  assumes "mem_tick P vpi ms is chs sys = Inr (Next (chs', sys'))" and len: "length is = length chs" and "quiet is chs"
  shows "sys_bytes sys' = sys_bytes sys"
proof -
  from assms(1) obtain cs s0 where r: "read_stage P vpi ms is chs sys = Inr (Next (cs, s0))"
    and w: "write_stage P vpi ms is cs s0 = Inr (Next (chs', sys'))"
    by (auto simp: mem_tick_def res_simps flow_case_eq)
  from write_stage_quiet [OF _ w] read_stage_quiet [OF len r] read_stage_length [OF len r] len assms(3) show ?thesis by simp
qed

lemma mem_tick_length:
  assumes "mem_tick P vpi ms is chs sys = Inr (Next (chs', sys'))" and len: "length is = length chs"
  shows "length chs' = length chs"
proof -
  from assms(1) obtain cs s0 where r: "read_stage P vpi ms is chs sys = Inr (Next (cs, s0))"
    and w: "write_stage P vpi ms is cs s0 = Inr (Next (chs', sys'))"
    by (auto simp: mem_tick_def res_simps flow_case_eq)
  from write_stage_length [OF _ w] read_stage_length [OF len r] len show ?thesis by simp
qed

section \<open>Projection\<close>

text \<open>What a channel does: its state and the event of every step of its own.\<close>

definition acts :: "mem_trace \<Rightarrow> (chan \<times> mem_event) list" where
  "acts tr = map (\<lambda>(s, e, s'). (fst s, e)) (filter (\<lambda>(s, e, s'). \<not> is_outside e) tr)"

fun quiet_step :: "mems_state \<times> mems_event \<times> mems_state \<Rightarrow> bool" where
  "quiet_step ((chs, sys), Cycles is, s') \<longleftrightarrow> quiet is chs"
| "quiet_step ((chs, sys), At j e, (chs', sys')) \<longleftrightarrow> sys_bytes sys' = sys_bytes sys"

lemma acts_append [simp]: "acts (tr @ tr') = acts tr @ acts tr'"
  by (simp add: acts_def)

lemma mem_exec_one: "mem_step P vpi ms s e s' \<Longrightarrow> mem_exec P vpi ms s [(s, e, s')] s'"
  using mem_exec.exec_snoc [OF mem_exec.exec_nil] by fastforce

lemma mems_step_view:
  assumes "mems_step P vpi ms (chs, sys) e (chs', sys')" and k: "k < length chs"
  shows "\<exists>tr. mem_exec P vpi ms (chs ! k, sys) tr (chs' ! k, sys') \<and> acts tr = acts (step_view k ((chs, sys), e, (chs', sys')))
    \<and> (quiet_step ((chs, sys), e, (chs', sys')) \<longrightarrow> (\<forall>x \<in> set tr. sys_bytes (snd (fst x)) = sys_bytes sys) \<and> sys_bytes sys' = sys_bytes sys)"
  using assms(1)
proof cases
  case (cycles "is")
  from mem_tick_nth [OF cycles(2,3) k] obtain s1 s2 where t: "mem_tick P vpi ms [is ! k] [chs ! k] s1 = Inr (Next ([chs' ! k], s2))"
    and q: "quiet is chs \<longrightarrow> sys_bytes s1 = sys_bytes sys" by blast
  let ?c = "chs ! k" and ?d = "chs' ! k"
  let ?tr = "[((?c, sys), Outside s1, (?c, s1)), ((?c, s1), Cycle (is ! k), (?d, s2)), ((?d, s2), Outside sys', (?d, sys'))]"
  have "mem_exec P vpi ms (?c, sys) ?tr (?d, sys')"
    by (intro mem_exec_Cons mem_exec_one mem_step.intros t)
  moreover have "acts ?tr = acts (step_view k ((chs, sys), e, (chs', sys')))" by (simp add: acts_def cycles(1))
  moreover have "sys_bytes s2 = sys_bytes sys \<and> sys_bytes sys' = sys_bytes sys" if "quiet is chs"
  proof -
    have "write_transactions (ch_mem (chs ! k)) = [] \<and> \<not> mi_aw_valid (is ! k)"
      using that k cycles(3) by (simp add: quiet_def list_all2_conv_all_nth)
    then have "quiet [is ! k] [chs ! k]" by (simp add: quiet_def)
    from mem_tick_quiet [OF t _ this] mem_tick_quiet [OF cycles(2,3)] that q show ?thesis by simp
  qed
  ultimately show ?thesis using q by (intro exI [of _ ?tr]) (simp add: cycles(1))
next
  case (at j f ch')
  show ?thesis
  proof (cases "j = k")
    case True
    with at k show ?thesis by (intro exI [of _ "[((chs ! k, sys), f, (ch', sys'))]"]) (auto intro: mem_exec_one)
  next
    case False
    with at k show ?thesis
      by (intro exI [of _ "[((chs ! k, sys), Outside sys', (chs ! k, sys'))]"]) (auto intro!: mem_exec_one mem_step.outside simp: acts_def)
  qed
qed

lemma mems_step_length: "mems_step P vpi ms s e s' \<Longrightarrow> length (fst s') = length (fst s)"
  by (induction rule: mems_step.induct) (auto dest: mem_tick_length)

lemma channel_view:
  assumes "mems_exec P vpi ms s tr s'" and "k < length (fst s)"
  shows "length (fst s') = length (fst s) \<and> (\<exists>tr'. mem_exec P vpi ms (fst s ! k, snd s) tr' (fst s' ! k, snd s')
    \<and> acts tr' = acts (view k tr)
    \<and> ((\<forall>x \<in> set tr. quiet_step x) \<longrightarrow> (\<forall>x \<in> set tr'. sys_bytes (snd (fst x)) = sys_bytes (snd s)) \<and> sys_bytes (snd s') = sys_bytes (snd s)))"
  using assms
proof (induction rule: mems_exec.induct)
  case mems_nil
  then show ?case by (auto intro!: exI [of _ "[]"] mem_exec.exec_nil)
next
  case (mems_snoc tr s1 e s2)
  from mems_snoc.IH [OF mems_snoc.prems] obtain tr1 where len: "length (fst s1) = length (fst s)"
    and e1: "mem_exec P vpi ms (fst s ! k, snd s) tr1 (fst s1 ! k, snd s1)" "acts tr1 = acts (view k tr)"
    and q1: "\<forall>x \<in> set tr. quiet_step x \<Longrightarrow>
      (\<forall>x \<in> set tr1. sys_bytes (snd (fst x)) = sys_bytes (snd s)) \<and> sys_bytes (snd s1) = sys_bytes (snd s)" by blast
  from mems_step_view [of P vpi ms "fst s1" "snd s1" e "fst s2" "snd s2" k] mems_snoc.hyps(2) mems_snoc.prems len obtain tr2 where
    e2: "mem_exec P vpi ms (fst s1 ! k, snd s1) tr2 (fst s2 ! k, snd s2)" "acts tr2 = acts (step_view k (s1, e, s2))"
    and q2: "quiet_step (s1, e, s2) \<Longrightarrow> (\<forall>x \<in> set tr2. sys_bytes (snd (fst x)) = sys_bytes (snd s1)) \<and> sys_bytes (snd s2) = sys_bytes (snd s1)"
    by auto
  have "mem_exec P vpi ms (fst s ! k, snd s) (tr1 @ tr2) (fst s2 ! k, snd s2)" by (rule mem_exec_append [OF e2(1) e1(1)])
  moreover have "acts (tr1 @ tr2) = acts (view k (tr @ [(s1, e, s2)]))" using e1(2) e2(2) by simp
  moreover have "length (fst s2) = length (fst s)" using mems_step_length [OF mems_snoc.hyps(2)] len by simp
  moreover have "(\<forall>x \<in> set (tr1 @ tr2). sys_bytes (snd (fst x)) = sys_bytes (snd s)) \<and> sys_bytes (snd s2) = sys_bytes (snd s)"
    if "\<forall>x \<in> set (tr @ [(s1, e, s2)]). quiet_step x"
    unfolding set_append ball_Un using q1 q2 that by simp
  ultimately show ?case by blast
qed

lemma step_history_sys:
  "step_writes P vpi ms ((ch, sys), e, s') = step_writes P vpi ms ((ch, sys0), e, s0)"
  "step_wdata vpi ms ((ch, sys), e, s') = step_wdata vpi ms ((ch, sys0), e, s0)"
  "step_responses ((ch, sys), e, s') = step_responses ((ch, sys0), e, s0)"
  "step_accepts P vpi ms ((ch, sys), e, s') = step_accepts P vpi ms ((ch, sys0), e, s0)"
  "step_transfers ((ch, sys), e, s') = step_transfers ((ch, sys0), e, s0)"
  by (cases e; simp)+

lemma history_acts:
  assumes "\<And>ch sys e s' sys0 s0. f ((ch, sys), e, s') = f ((ch, sys0), e, s0)" and "\<And>s sys s'. f (s, Outside sys, s') = []"
  shows "concat (map f tr) = concat (map (\<lambda>(ch, e). f ((ch, sys0), e, s0)) (acts tr))"
proof (induction tr)
  case (Cons x tr)
  obtain ch sys e s' where x: "x = ((ch, sys), e, s')" by (metis prod.exhaust)
  have "f x = f ((ch, sys0), e, s0)" unfolding x by (rule assms(1))
  moreover have "is_outside e \<Longrightarrow> f x = []" using assms(2) by (cases e) (simp_all add: x)
  ultimately show ?case using Cons.IH by (simp add: acts_def x)
qed (simp add: acts_def)

lemma acts_history:
  assumes "\<And>ch sys e s' sys0 s0. f ((ch, sys), e, s') = f ((ch, sys0), e, s0)" and "\<And>s sys s'. f (s, Outside sys, s') = []"
    and "acts tr' = acts tr"
  shows "concat (map f tr') = concat (map f tr)"
  using history_acts [of f, OF assms(1,2)] assms(3) by metis

lemma acts_histories:
  assumes "acts tr' = acts tr"
  shows "writes P vpi ms tr' = writes P vpi ms tr" "wdata vpi ms tr' = wdata vpi ms tr" "responses tr' = responses tr"
    "accepted P vpi ms tr' = accepted P vpi ms tr" "transfers tr' = transfers tr"
  by (rule acts_history [OF _ _ assms], rule step_history_sys, simp)+

section \<open>Properties\<close>

text \<open>C6: the memory channels do not interfere. In any execution of all channels together, every channel goes through an execution of a channel
  on its own, with changes of the host memory from outside between its steps: the same addresses are accepted, the same data transferred
  and the same responses sent. When no channel writes, the channel sees the same host memory throughout.\<close>

theorem channels_independent:
  assumes "mems_exec P vpi ms s tr s'" and "k < length (fst s)"
  shows "\<exists>tr'. mem_exec P vpi ms (fst s ! k, snd s) tr' (fst s' ! k, snd s')
    \<and> writes P vpi ms tr' = writes P vpi ms (view k tr) \<and> wdata vpi ms tr' = wdata vpi ms (view k tr)
    \<and> responses tr' = responses (view k tr) \<and> accepted P vpi ms tr' = accepted P vpi ms (view k tr)
    \<and> transfers tr' = transfers (view k tr)
    \<and> ((\<forall>x \<in> set tr. quiet_step x) \<longrightarrow> (\<forall>x \<in> set tr'. sys_bytes (snd (fst x)) = sys_bytes (snd s)))"
proof -
  from channel_view [OF assms] obtain tr' where "mem_exec P vpi ms (fst s ! k, snd s) tr' (fst s' ! k, snd s')"
    and "acts tr' = acts (view k tr)"
    and "(\<forall>x \<in> set tr. quiet_step x) \<longrightarrow> (\<forall>x \<in> set tr'. sys_bytes (snd (fst x)) = sys_bytes (snd s))" by blast
  with acts_histories [of tr' "view k tr"] show ?thesis by blast
qed

text \<open>The theorem on writes for every channel.\<close>

theorem channel_writes_answered:
  assumes "mems_exec P vpi ms s tr s'" and "k < length (fst s)" and "write_fresh (fst s ! k)" and "DATA_BUS_BYTES P \<le> 2 ^ 64"
    and "write_idle (fst s' ! k)"
  shows "mset (responses (view k tr)) = mset (map tx_id (writes P vpi ms (view k tr)))"
proof -
  let ?w = "writes P vpi ms (view k tr)"
  from channel_view [OF assms(1,2)] obtain tr' where e: "mem_exec P vpi ms (fst s ! k, snd s) tr' (fst s' ! k, snd s')"
    and a: "acts tr' = acts (view k tr)" by blast
  from write_all_answered [OF e] assms(3-5) obtain ans where r: "responses tr' = map (\<lambda>k. tx_id (writes P vpi ms tr' ! k)) ans"
    "distinct ans" "set ans = {..<length (writes P vpi ms tr')}" by auto
  have "mset ans = mset [0..<length ?w]" using r(2,3) acts_histories(1) [OF a, of P vpi ms] by (simp add: mset_set_set [symmetric] mset_upt atLeast0LessThan)
  then have "image_mset (\<lambda>k. tx_id (?w ! k)) (mset ans) = mset (map (\<lambda>k. tx_id (?w ! k)) [0..<length ?w])" by simp
  moreover have "map (\<lambda>k. tx_id (?w ! k)) [0..<length ?w] = map tx_id ?w" by (rule nth_equalityI) simp_all
  ultimately show ?thesis using r(1) acts_histories(1) [OF a, of P vpi ms] acts_histories(3) [OF a] by simp
qed

text \<open>The theorem on reads for every channel.\<close>

theorem channel_reads_delivered:
  assumes "mems_exec P vpi ms s tr s'" and "k < length (fst s)" and "mem_fresh P (fst s ! k)" and "\<forall>x \<in> set tr. quiet_step x"
    and "\<forall>x \<in> set (accepted P vpi ms (view k tr)). req_ok P (snd x)"
    and "distinct (map (\<lambda>x. tx_id (snd x)) (accepted P vpi ms (view k tr)))" and "(p, tx) \<in> set (accepted P vpi ms (view k tr))"
    and "read_idle (fst s' ! k)"
  shows "filter (\<lambda>t. fst t = tx_id tx) (transfers (view k tr)) = map (expected_beat P (sys_bytes (snd s)) tx) [0..<n_beats P tx]"
proof -
  from channel_view [OF assms(1,2)] obtain tr' where e: "mem_exec P vpi ms (fst s ! k, snd s) tr' (fst s' ! k, snd s')"
    and a: "acts tr' = acts (view k tr)" and q: "\<forall>x \<in> set tr'. sys_bytes (snd (fst x)) = sys_bytes (snd s)" using assms(4) by blast
  note h = acts_histories(4) [OF a, of P vpi ms] acts_histories(5) [OF a]
  have q': "\<forall>x \<in> set tr'. sys_bytes (snd (fst x)) \<in> {sys_bytes (snd s)}" using q by simp
  have f: "mem_fresh P (fst (fst s ! k, snd s))" and ok: "\<forall>x \<in> set (accepted P vpi ms tr'). req_ok P (snd x)"
    using assms(3,5) by (simp_all add: h)
  from read_all_delivered [OF e f q' ok] assms(6-8) show ?thesis
    unfolding h by (metis fst_conv shows_beats_single)
qed

text \<open>Two channels, one with a write and one with a read.\<close>

definition demo_two :: "mems_event list" where
  "demo_two =
     [Cycles [demo_aw, demo_mem_in\<lparr>mi_ar_valid := True, mi_ar_addr := 0x1000, mi_ar_size := 5, mi_ar_len := 1, mi_ar_id := 3\<rparr>],
      Cycles [demo_write 1 False, demo_mem_in], At 1 (Issue (\<lambda>a w. True)), Cycles [demo_write 2 True, demo_mem_in], At 0 (Issue (\<lambda>a w. True)),
      At 1 (Read_done 0x1000), At 0 (Write_done 0x1000), Cycles [demo_mem_in, demo_mem_in], Cycles [demo_mem_in, demo_mem_in],
      Cycles [demo_mem_in, demo_mem_in]]"

theorem channels_independent_witness:
  "\<exists>tr s' tr'. mems_run demo_P False example_table demo_two [] ([demo_chan empty_mem, demo_chan empty_mem], demo_sys) = Some (tr, s')
    \<and> mem_exec demo_P False example_table (demo_chan empty_mem, demo_sys) tr' (fst s' ! 1, snd s')
    \<and> map fst (transfers tr') = [3, 3] \<and> responses tr' = []"
proof -
  let ?s = "([demo_chan empty_mem, demo_chan empty_mem], demo_sys)"
  have "case mems_run demo_P False example_table demo_two [] ?s of None \<Rightarrow> False
    | Some (tr, s') \<Rightarrow> map fst (transfers (view 1 tr)) = [3, 3] \<and> responses (view 1 tr) = []" by code_simp
  then obtain tr s' where r: "mems_run demo_P False example_table demo_two [] ?s = Some (tr, s')"
    and t: "map fst (transfers (view 1 tr)) = [3, 3]" "responses (view 1 tr) = []" by (auto split: option.splits)
  have "1 < length (fst ?s)" by simp
  from channels_independent [OF mems_run_exec [OF r mems_nil] this] obtain tr' where
    "mem_exec demo_P False example_table (fst ?s ! 1, snd ?s) tr' (fst s' ! 1, snd s')"
    "transfers tr' = transfers (view 1 tr)" "responses tr' = responses (view 1 tr)" by blast
  then have "mem_exec demo_P False example_table (demo_chan empty_mem, demo_sys) tr' (fst s' ! 1, snd s')
      \<and> map fst (transfers tr') = [3, 3] \<and> responses tr' = []" using t by (simp only: fst_conv snd_conv nth_Cons_Suc nth_Cons_0 One_nat_def simp_thms)
  then show ?thesis by (intro exI [of _ tr] exI [of _ s'] exI [of _ tr'] conjI r) simp_all
qed

end
