(* ===== verification/Axi_Channels.thy ===== *)
theory Axi_Channels
  imports Signal_Wrappers Mem_Tick
begin

text \<open>
  The data and response channels of the AXI interfaces over the pointer wrappers of the Verilator builds
  (include/sim/axi/data_channel.h, include/sim/axi/response_channel.h); the address channel is in \<open>Signal_Wrappers\<close>.

  \<open>signal_bundle\<close> is the contract the three kinds of channels share: the signals are separate objects of at most eight bytes.
  It gives what a setter changes. Interpreted for each channel, it yields the theorem on read beats, and with the strobes
  the theorem on which lanes of a write the runtime sees.
\<close>

section \<open>Data channel\<close>

record data_channel =
  dc_ready :: wrapper
  dc_valid :: wrapper
  dc_data :: wrapper
  dc_strb :: wrapper
  dc_id :: wrapper
  dc_last :: wrapper

definition dc_init :: "wrapper \<Rightarrow> wrapper \<Rightarrow> wrapper \<Rightarrow> wrapper \<Rightarrow> wrapper \<Rightarrow> wrapper \<Rightarrow> data_channel" where
  "dc_init ready valid last_w id_w strb data_w =
     \<lparr>dc_ready = ready, dc_valid = valid, dc_data = data_w, dc_strb = strb, dc_id = id_w, dc_last = last_w\<rparr>"

definition dc_setData :: "bytes \<Rightarrow> data_channel \<Rightarrow> u32 \<Rightarrow> u32 \<Rightarrow> bytes res" where
  "dc_setData mem ch payload idx = gsd_set_word mem (dc_data ch) payload idx"

definition dc_getReady :: "bytes \<Rightarrow> data_channel \<Rightarrow> u8 res" where
  "dc_getReady mem ch = rbind (gsw_get mem (dc_ready ch)) (\<lambda>v. Inr (of_nat v))"

definition dc_setReady :: "bytes \<Rightarrow> data_channel \<Rightarrow> u8 \<Rightarrow> bytes res" where
  "dc_setReady mem ch ready = gsw_set mem (dc_ready ch) (ucast ready)"

definition dc_getValid :: "bytes \<Rightarrow> data_channel \<Rightarrow> u8 res" where
  "dc_getValid mem ch = rbind (gsw_get mem (dc_valid ch)) (\<lambda>v. Inr (of_nat v))"

definition dc_setValid :: "bytes \<Rightarrow> data_channel \<Rightarrow> u8 \<Rightarrow> bytes res" where
  "dc_setValid mem ch valid = gsw_set mem (dc_valid ch) (ucast valid)"

definition dc_getData :: "bytes \<Rightarrow> data_channel \<Rightarrow> u8 list" where
  "dc_getData mem ch = gsd_get mem (dc_data ch)"

definition dc_getId :: "bytes \<Rightarrow> data_channel \<Rightarrow> u64 res" where
  "dc_getId mem ch = rbind (gsw_get mem (dc_id ch)) (\<lambda>v. Inr (of_nat v))"

definition dc_setId :: "bytes \<Rightarrow> data_channel \<Rightarrow> u64 \<Rightarrow> bytes res" where
  "dc_setId mem ch i = gsw_set mem (dc_id ch) i"

definition dc_getLast :: "bytes \<Rightarrow> data_channel \<Rightarrow> u8 res" where
  "dc_getLast mem ch = rbind (gsw_get mem (dc_last ch)) (\<lambda>v. Inr (of_nat v))"

definition dc_setLast :: "bytes \<Rightarrow> data_channel \<Rightarrow> u8 \<Rightarrow> bytes res" where
  "dc_setLast mem ch l = gsw_set mem (dc_last ch) (ucast l)"

definition dc_fire :: "bytes \<Rightarrow> data_channel \<Rightarrow> bool res" where
  "dc_fire mem ch =
     rbind (gsw_get mem (dc_ready ch)) (\<lambda>r.
     if r \<noteq> 0 then rbind (gsw_get mem (dc_valid ch)) (\<lambda>v. Inr (v \<noteq> 0)) else Inr False)"

text \<open>\<open>getStrb\<close>, for a lane that is not negative: \<open>strb.get(chunk32)\<close> is the \<open>chunk32\<close>-th object of the type of the strobe signal.\<close>

definition dc_getStrb :: "bytes \<Rightarrow> data_channel \<Rightarrow> nat \<Rightarrow> bool res" where
  "dc_getStrb mem ch i =
     (let chunk32 = i div 32; subbit32 = i mod 32
      in rbind (gsw_get_at mem (dc_strb ch) (int chunk32)) (\<lambda>p.
         (let payload = drop_bit subbit32 (of_nat p :: u32)
          in Inr (bit payload 0))))"

text \<open>How \<open>tick_signals\<close> drives a read beat (src/sim/tick.cc) on the signals of a port: the words of the host memory at the transaction's address
  from the word \<open>start\<close> of the bus on, then \<open>valid\<close>, \<open>last\<close> and the identifier. Host memory and signals are the memory of one process.\<close>

fun set_port_words :: "data_channel \<Rightarrow> u64 \<Rightarrow> int \<Rightarrow> nat \<Rightarrow> nat \<Rightarrow> bytes \<Rightarrow> bytes res" where
  "set_port_words ch src start k 0 mem = Inr mem"
| "set_port_words ch src start k (Suc n) mem =
     rbind (dc_setData mem ch (load32 mem (src + 4 * of_nat k)) (of_int (int k + start))) (set_port_words ch src start (Suc k) n)"

definition beat_start :: "mem_params \<Rightarrow> memory_transaction \<Rightarrow> int" where
  "beat_start P tx = ((axi_bus_beats_progress tx * tx_size tx) mod DATA_BUS_BYTES P) div 4"

definition beat_last :: "memory_transaction \<Rightarrow> bool" where
  "beat_last tx \<longleftrightarrow> tx_len tx = axi_bus_beats_progress tx + 1 \<and> can_be_last tx"

definition drive_read_beat :: "mem_params \<Rightarrow> bytes \<Rightarrow> data_channel \<Rightarrow> memory_transaction \<Rightarrow> bytes res" where
  "drive_read_beat P mem ch tx =
     rbind (set_port_words ch (tx_addr tx) (beat_start P tx) 0 (nat (tx_size tx div 4)) mem) (\<lambda>mem.
     rbind (dc_setValid mem ch 1) (\<lambda>mem.
     rbind (dc_setLast mem ch (of_bool (beat_last tx))) (\<lambda>mem.
     dc_setId mem ch (of_int (tx_id tx)))))"

section \<open>Response channel\<close>

record response_channel =
  rc_ready :: wrapper
  rc_valid :: wrapper
  rc_id :: wrapper
  rc_send_ids :: "u32 list"
  rc_to_enqueue :: "u32 list"

definition rc_init :: "wrapper \<Rightarrow> wrapper \<Rightarrow> wrapper \<Rightarrow> response_channel \<Rightarrow> response_channel" where
  "rc_init ready valid id_w ch = ch\<lparr>rc_ready := ready, rc_valid := valid, rc_id := id_w\<rparr>"

definition rc_getReady :: "bytes \<Rightarrow> response_channel \<Rightarrow> u8 res" where
  "rc_getReady mem ch = rbind (gsw_get mem (rc_ready ch)) (\<lambda>v. Inr (of_nat v))"

definition rc_setReady :: "bytes \<Rightarrow> response_channel \<Rightarrow> u8 \<Rightarrow> bytes res" where
  "rc_setReady mem ch ready = gsw_set mem (rc_ready ch) (ucast ready)"

definition rc_getValid :: "bytes \<Rightarrow> response_channel \<Rightarrow> u8 res" where
  "rc_getValid mem ch = rbind (gsw_get mem (rc_valid ch)) (\<lambda>v. Inr (of_nat v))"

definition rc_setValid :: "bytes \<Rightarrow> response_channel \<Rightarrow> u8 \<Rightarrow> bytes res" where
  "rc_setValid mem ch valid = gsw_set mem (rc_valid ch) (ucast valid)"

text \<open>The getter of the identifier returns eight bits.\<close>

definition rc_getId :: "bytes \<Rightarrow> response_channel \<Rightarrow> u8 res" where
  "rc_getId mem ch = rbind (gsw_get mem (rc_id ch)) (\<lambda>v. Inr (of_nat v))"

definition rc_setId :: "bytes \<Rightarrow> response_channel \<Rightarrow> u64 \<Rightarrow> bytes res" where
  "rc_setId mem ch i = gsw_set mem (rc_id ch) i"

definition rc_fire :: "bytes \<Rightarrow> response_channel \<Rightarrow> bool res" where
  "rc_fire mem ch =
     rbind (gsw_get mem (rc_ready ch)) (\<lambda>r.
     if r \<noteq> 0 then rbind (gsw_get mem (rc_valid ch)) (\<lambda>v. Inr (v \<noteq> 0)) else Inr False)"

text \<open>How \<open>tick_signals\<close> drives the responses: the identifier in front, or \<open>valid\<close> low; one finished write moves to the queue.\<close>

definition drive_write_response :: "bytes \<Rightarrow> response_channel \<Rightarrow> (bytes \<times> response_channel) res" where
  "drive_write_response mem ch =
     rbind (case rc_send_ids ch of
              [] \<Rightarrow> rc_setValid mem ch 0
            | i # _ \<Rightarrow> rbind (rc_setValid mem ch 1) (\<lambda>mem. rc_setId mem ch (ucast i))) (\<lambda>mem.
     Inr (mem, case rc_to_enqueue ch of
                 [] \<Rightarrow> ch
               | i # is \<Rightarrow> ch\<lparr>rc_send_ids := rc_send_ids ch @ [i], rc_to_enqueue := is\<rparr>))"

section \<open>Bundles of signals\<close>

lemma two_apart: "all_apart ws \<Longrightarrow> i < length ws \<Longrightarrow> j < length ws \<Longrightarrow> i \<noteq> j \<Longrightarrow> apart (ws ! i) (ws ! j)"
  by (induction ws arbitrary: i j) (auto simp: nth_Cons list_all_iff split: nat.splits)

definition put :: "wrapper \<Rightarrow> u64 \<Rightarrow> bytes \<Rightarrow> bytes" where
  "put w v mem = mem_write mem (w_ptr w) (take (w_size w) (le_bytes v))"

locale signal_bundle =
  fixes ok :: "'c \<Rightarrow> bool"
    and signals :: "'c \<Rightarrow> wrapper list"
  assumes signals_fit: "ok c \<Longrightarrow> list_all field_ok (signals c)"
    and signals_apart: "ok c \<Longrightarrow> all_apart (signals c)"
begin

lemma signal_fits: "ok c \<Longrightarrow> w \<in> set (signals c) \<Longrightarrow> field_ok w"
  using signals_fit by (auto simp: list_all_iff)

text \<open>A setter succeeds, is read back truncated to the width of the signal, and leaves the other signals of the channel alone.\<close>

lemma set_signal: "ok c \<Longrightarrow> w \<in> set (signals c) \<Longrightarrow> gsw_set mem w v = Inr (put w v mem)"
  by (simp add: put_def gsw_set_ok signal_fits)

lemma get_same: "ok c \<Longrightarrow> w \<in> set (signals c) \<Longrightarrow> gsw_get (put w v mem) w = Inr (unat v mod 256 ^ w_size w)"
  by (simp add: put_def gsw_get_same signal_fits)

lemma get_other:
  "ok c \<Longrightarrow> i < length (signals c) \<Longrightarrow> j < length (signals c) \<Longrightarrow> i \<noteq> j \<Longrightarrow>
     gsw_get (put (signals c ! i) v mem) (signals c ! j) = gsw_get mem (signals c ! j)"
  unfolding put_def by (rule gsw_get_other) (simp_all add: two_apart signals_apart signal_fits)

end

abbreviation dc_signals :: "data_channel \<Rightarrow> wrapper list" where
  "dc_signals ch \<equiv> [dc_ready ch, dc_valid ch, dc_last ch, dc_id ch]"

text \<open>The four handshake signals, and the object of the data, which may be wide.\<close>

definition dc_ok :: "data_channel \<Rightarrow> bool" where
  "dc_ok ch \<longleftrightarrow> list_all field_ok (dc_signals ch) \<and> all_apart (dc_signals ch)
     \<and> list_all (\<lambda>w. 0 < w_size w \<and> apart w (dc_data ch) \<and> apart (dc_data ch) w) (dc_signals ch) \<and> int (w_size (dc_data ch)) < 2 ^ 32"

definition rc_ok :: "response_channel \<Rightarrow> bool" where
  "rc_ok ch \<longleftrightarrow> list_all field_ok [rc_ready ch, rc_valid ch, rc_id ch] \<and> all_apart [rc_ready ch, rc_valid ch, rc_id ch]
     \<and> 0 < w_size (rc_ready ch) \<and> 0 < w_size (rc_valid ch) \<and> 0 < w_size (rc_id ch)"

interpretation addr_bundle: signal_bundle channel_ok
  "\<lambda>ch. [ready_field ch, valid_field ch, id_field ch, size_field ch, burst_field ch, addr_field ch, len_field ch]"
  by unfold_locales (simp_all add: channel_ok_def)

interpretation data_bundle: signal_bundle dc_ok dc_signals
  by unfold_locales (simp_all add: dc_ok_def)

interpretation resp_bundle: signal_bundle rc_ok "\<lambda>ch. [rc_ready ch, rc_valid ch, rc_id ch]"
  by unfold_locales (simp_all add: rc_ok_def)

section \<open>Read beats\<close>

lemma set_keeps_data:
  assumes "dc_ok ch" and "w \<in> set (dc_signals ch)"
  shows "dc_getData (put w v mem) ch = dc_getData mem ch"
proof -
  have "apart (dc_data ch) w" using assms by (auto simp: dc_ok_def)
  moreover have "field_ok w" by (rule data_bundle.signal_fits [OF assms])
  ultimately show ?thesis
    using mem_read_apart [of "dc_data ch" w "take (w_size w) (le_bytes v)" mem] by (simp add: put_def dc_getData_def gsd_get_def field_ok_def)
qed

text \<open>Bytes written over a part of an object.\<close>

definition splice :: "nat \<Rightarrow> 'a list \<Rightarrow> 'a list \<Rightarrow> 'a list" where
  "splice n xs ys = take n ys @ xs @ drop (n + length xs) ys"

lemma length_splice: "n + length xs \<le> length ys \<Longrightarrow> length (splice n xs ys) = length ys"
  by (simp add: splice_def)

lemma splice_Nil [simp]: "splice n [] ys = ys"
  by (simp add: splice_def)

lemma splice_more:
  assumes "n + length xs + length xs' \<le> length ys"
  shows "splice (n + length xs) xs' (splice n xs ys) = splice n (xs @ xs') ys"
  using assms by (simp add: splice_def ac_simps)

lemma mem_write_within:
  assumes "n + length bs \<le> length c" and "length c < 2 ^ 64"
  shows "mem_write (mem_write mem p c) (p + of_nat n) bs = mem_write mem p (splice n bs c)"
proof (rule ext)
  fix x
  have n: "n < 2 ^ 64" and l: "length (splice n bs c) = length c" using assms length_splice [of n bs c] by simp_all
  show "mem_write (mem_write mem p c) (p + of_nat n) bs x = mem_write mem p (splice n bs c) x"
    using assms unat64_less [of "x - p"] unfolding mem_write_def unat_sub_after [OF n] l
    by (auto simp: splice_def nth_append min_def)
qed

lemma byte_digits:
  fixes a b c d :: nat
  assumes "a < 256" and "b < 256" and "c < 256" and n: "n = a + 256 * b + 65536 * c + 16777216 * d"
  shows "n mod 256 = a" "n div 256 mod 256 = b" "n div 65536 mod 256 = c" "n div 16777216 = d"
proof -
  have dg: "(x + 256 * y) mod 256 = x" "(x + 256 * y) div 256 = y" if "x < 256" for x y :: nat using that by simp_all
  have e: "n = a + 256 * (b + 256 * (c + 256 * d))" using n by simp
  show "n mod 256 = a" unfolding e by (rule dg [OF assms(1)])
  have 1: "n div 256 = b + 256 * (c + 256 * d)" unfolding e by (rule dg [OF assms(1)])
  show "n div 256 mod 256 = b" unfolding 1 by (rule dg [OF assms(2)])
  have 2: "n div 65536 = c + 256 * d" using div_mult2_eq [of n 256 256] dg(2) [OF assms(2)] by (simp add: 1)
  show "n div 65536 mod 256 = c" unfolding 2 by (rule dg [OF assms(3)])
  show "n div 16777216 = d" using div_mult2_eq [of n 65536 256] dg(2) [OF assms(3)] by (simp add: 2)
qed

lemma load32_bytes: "word_bytes (load32 mem a) = mem_read mem a 4"
proof -
  let ?b = "\<lambda>i :: nat. unat (mem (a + of_nat i))"
  define n where "n = ?b 0 + 256 * ?b 1 + 65536 * ?b 2 + 16777216 * ?b 3"
  have b: "?b i < 256" for i using unsigned_less [of "mem (a + of_nat i)", where 'a = nat] by simp
  have c: "(ucast (mem (a + of_nat i)) :: u32) = of_nat (?b i)" for i by (simp add: unsigned_ucast_eq)
  have "load32 mem a = of_nat n"
    using c [of 0] c [of 1] c [of 2] c [of 3] by (simp add: load32_def n_def)
  moreover have n32: "n < 2 ^ 32" using b [of 0] b [of 1] b [of 2] b [of 3] unfolding n_def by simp
  ultimately have u: "unat (ucast (load32 mem a) :: u64) = n" by (simp add: unsigned_ucast_eq unat_of_nat take_bit_nat_eq_self)
  show ?thesis
  proof (rule nth_equalityI)
    fix i assume "i < length (word_bytes (load32 mem a))"
    then have i: "i < 4" by simp
    have "unat (word_bytes (load32 mem a) ! i) = n div 256 ^ i mod 256"
      using i by (simp add: word_bytes_def le_bytes_def unat_byte u)
    moreover have "n div 256 ^ i mod 256 = ?b i"
    proof -
      from i consider "i = 0" | "i = 1" | "i = 2" | "i = 3" by linarith
      then show ?thesis using byte_digits [OF b b b n_def] b [of 3] by cases simp_all
    qed
    ultimately show "word_bytes (load32 mem a) ! i = mem_read mem a 4 ! i" using i by (simp add: word_unat_eq_iff)
  qed simp
qed

lemma load32_outside:
  assumes "apart \<lparr>w_ptr = src, w_size = n\<rparr> w" and "length c = w_size w" and "w_size w < 2 ^ 64" and "k + 4 \<le> n"
  shows "load32 (mem_write mem (w_ptr w) c) (src + of_nat k) = load32 mem (src + of_nat k)"
proof -
  have r: "mem_read (mem_write mem (w_ptr w) c) src n = mem_read mem src n"
    using mem_read_apart [OF assms(1), of c mem] assms(2,3) by simp
  have "mem_write mem (w_ptr w) c (src + of_nat i) = mem (src + of_nat i)" if "i < n" for i
    using arg_cong [OF r, of "\<lambda>xs. xs ! i"] that by simp
  then have e: "mem_write mem (w_ptr w) c (src + of_nat k + of_nat i) = mem (src + of_nat k + of_nat i)" if "i < 4" for i
    using that assms(4) by (simp add: add.assoc flip: of_nat_add)
  define a where "a = src + of_nat k"
  show ?thesis using e [of 0] e [of 1] e [of 2] e [of 3] unfolding a_def [symmetric] by (simp add: load32_def)
qed

text \<open>The loop copies the bytes at the source to their place on the bus and leaves the rest of the bus as it was.\<close>

lemma set_port_words_from:
  fixes mem :: bytes
  assumes sz: "w_size (dc_data ch) < 2 ^ 32" and "4 * (s + k + n) \<le> w_size (dc_data ch)"
    and ap: "apart \<lparr>w_ptr = src, w_size = 4 * (k + n)\<rparr> (dc_data ch)"
  defines "m \<equiv> \<lambda>k. mem_write mem (w_ptr (dc_data ch)) (splice (4 * s) (mem_read mem src (4 * k)) (dc_getData mem ch))"
  shows "set_port_words ch src (int s) k n (m k) = Inr (m (k + n))"
  using assms(2,3)
proof (induction n arbitrary: k)
  case 0
  then show ?case by simp
next
  case (Suc n)
  let ?w = "dc_data ch" and ?c = "\<lambda>k. splice (4 * s) (mem_read mem src (4 * k)) (dc_getData mem ch)"
  have len: "length (dc_getData mem ch) = w_size ?w" by (simp add: dc_getData_def gsd_get_def)
  then have lc: "length (?c k) = w_size ?w" using Suc.prems(1) by (simp add: length_splice)
  have u: "unat (of_int (int k + int s) :: u32) = s + k"
  proof -
    have "(of_int (int k + int s) :: u32) = of_nat (s + k)" by simp
    then show ?thesis using Suc.prems(1) sz by (simp add: unat_of_nat del: of_nat_add)
  qed
  have ld: "load32 (m k) (src + 4 * of_nat k) = load32 mem (src + 4 * of_nat k)"
    using load32_outside [OF Suc.prems(2), of "?c k" "4 * k" mem] lc sz by (simp add: m_def)
  have "mem_write (m k) (w_ptr ?w + of_nat (4 * s + length (mem_read mem src (4 * k)))) (mem_read mem (src + of_nat (4 * k)) 4) =
      mem_write mem (w_ptr ?w) (splice (4 * s + length (mem_read mem src (4 * k))) (mem_read mem (src + of_nat (4 * k)) 4) (?c k))"
    unfolding m_def by (rule mem_write_within) (use Suc.prems(1) lc sz in simp_all)
  also have "\<dots> = m (Suc k)"
    using splice_more [of "4 * s" "mem_read mem src (4 * k)" "mem_read mem (src + of_nat (4 * k)) 4" "dc_getData mem ch"] Suc.prems(1) len
      mem_read_append [of mem src "4 * k" 4] by (simp add: m_def add.commute)
  finally have w: "mem_write (m k) (w_ptr ?w + of_nat (4 * s + length (mem_read mem src (4 * k)))) (mem_read mem (src + of_nat (4 * k)) 4) = m (Suc k)" .
  have i: "4 * s + length (mem_read mem src (4 * k)) = 4 * (s + k)" and f: "4 * (s + k) + 4 \<le> w_size ?w" using Suc.prems(1) by simp_all
  have b: "take 4 (le_bytes (ucast (load32 mem (src + 4 * of_nat k)))) = mem_read mem (src + of_nat (4 * k)) 4"
    using load32_bytes [of mem "src + 4 * of_nat k"] by (simp add: word_bytes_def)
  have "dc_setData (m k) ch (load32 (m k) (src + 4 * of_nat k)) (of_int (int k + int s)) = Inr (m (Suc k))"
    unfolding dc_setData_def gsd_set_word_def u ld b if_P [OF f] w [unfolded i] ..
  then show ?case using Suc.IH [of "Suc k"] Suc.prems by simp
qed

lemma set_port_words_data:
  fixes mem :: bytes
  assumes "dc_ok ch" and fit: "4 * (s + n) \<le> w_size (dc_data ch)" and ap: "apart \<lparr>w_ptr = src, w_size = 4 * n\<rparr> (dc_data ch)"
  defines "c \<equiv> splice (4 * s) (mem_read mem src (4 * n)) (dc_getData mem ch)"
  defines "m \<equiv> mem_write mem (w_ptr (dc_data ch)) c"
  shows "length c = w_size (dc_data ch)" and "set_port_words ch src (int s) 0 n mem = Inr m" and "dc_getData m ch = c"
    and "w \<in> set (dc_signals ch) \<Longrightarrow> gsw_get m w = gsw_get mem w"
proof -
  have sz: "w_size (dc_data ch) < 2 ^ 32" using assms(1) by (simp add: dc_ok_def)
  show l: "length c = w_size (dc_data ch)" using fit by (simp add: c_def length_splice dc_getData_def gsd_get_def)
  have "mem_write mem (w_ptr (dc_data ch)) (splice (4 * s) (mem_read mem src 0) (dc_getData mem ch)) = mem"
    using mem_write_read [of "w_size (dc_data ch)" mem "w_ptr (dc_data ch)"] sz by (simp add: mem_read_def dc_getData_def gsd_get_def)
  then show "set_port_words ch src (int s) 0 n mem = Inr m"
    using set_port_words_from [OF sz, of s 0 n src mem] fit ap by (simp add: m_def c_def)
  show "dc_getData m ch = c"
    using mem_read_write [of c mem "w_ptr (dc_data ch)"] l sz by (simp add: dc_getData_def gsd_get_def m_def)
  assume "w \<in> set (dc_signals ch)"
  then have "apart w (dc_data ch)" using assms(1) by (auto simp: dc_ok_def)
  then show "gsw_get m w = gsw_get mem w"
    using mem_read_apart [of w "dc_data ch" c mem] l sz by (simp add: gsw_get_def gsw_get_at_def m_def)
qed

lemma flag_fits: "0 < n \<Longrightarrow> unat (of_bool b :: u64) mod 256 ^ n = of_bool b"
  by (cases b) (simp_all add: one_less_power)

lemma dc_get_other:
  assumes "dc_ok ch"
  shows "gsw_get (put (dc_valid ch) v mem) (dc_ready ch) = gsw_get mem (dc_ready ch)"
    "gsw_get (put (dc_last ch) v mem) (dc_ready ch) = gsw_get mem (dc_ready ch)"
    "gsw_get (put (dc_id ch) v mem) (dc_ready ch) = gsw_get mem (dc_ready ch)"
    "gsw_get (put (dc_last ch) v mem) (dc_valid ch) = gsw_get mem (dc_valid ch)"
    "gsw_get (put (dc_id ch) v mem) (dc_valid ch) = gsw_get mem (dc_valid ch)"
    "gsw_get (put (dc_id ch) v mem) (dc_last ch) = gsw_get mem (dc_last ch)"
  using data_bundle.get_other [OF assms, of 1 0] data_bundle.get_other [OF assms, of 2 0] data_bundle.get_other [OF assms, of 3 0]
    data_bundle.get_other [OF assms, of 2 1] data_bundle.get_other [OF assms, of 3 1] data_bundle.get_other [OF assms, of 3 2]
  by (simp_all add: numeral_2_eq_2 numeral_3_eq_3)

text \<open>A beat of at most the width of the bus, as AXI has them, lies within the bus.\<close>

lemma beat_fits:
  assumes "0 < tx_size tx" and "tx_size tx dvd DATA_BUS_BYTES P" and "0 < DATA_BUS_BYTES P"
  shows "0 \<le> beat_start P tx" and "4 * (nat (beat_start P tx) + nat (tx_size tx div 4)) \<le> nat (DATA_BUS_BYTES P)"
proof -
  let ?o = "(axi_bus_beats_progress tx * tx_size tx) mod DATA_BUS_BYTES P"
  have o: "0 \<le> ?o" "?o < DATA_BUS_BYTES P" using assms(3) by simp_all
  obtain b where b: "DATA_BUS_BYTES P = tx_size tx * b" using assms(2) by blast
  have "tx_size tx dvd ?o" using assms(2) by (simp add: dvd_mod)
  then obtain a where a: "?o = tx_size tx * a" by blast
  have "tx_size tx * a < DATA_BUS_BYTES P" using o(2) by (simp only: a)
  then have "a < b" using assms(1) by (simp add: b)
  then have "tx_size tx * (a + 1) \<le> tx_size tx * b" using assms(1) by simp
  then have "tx_size tx * a + tx_size tx \<le> DATA_BUS_BYTES P" by (simp add: b algebra_simps)
  then have le: "?o + tx_size tx \<le> DATA_BUS_BYTES P" by (simp only: a)
  show s: "0 \<le> beat_start P tx" using o(1) by (simp add: beat_start_def pos_imp_zdiv_nonneg_iff)
  have "4 * (x div 4 + y div 4) \<le> x + y" for x y :: int by presburger
  then have "4 * (?o div 4 + tx_size tx div 4) \<le> ?o + tx_size tx" .
  then have "4 * (beat_start P tx + tx_size tx div 4) \<le> DATA_BUS_BYTES P" using le by (simp add: beat_start_def)
  moreover have "0 \<le> tx_size tx div 4" using assms(1) by simp
  ultimately have "int (4 * (nat (beat_start P tx) + nat (tx_size tx div 4))) \<le> DATA_BUS_BYTES P" using s by simp
  then show "4 * (nat (beat_start P tx) + nat (tx_size tx div 4)) \<le> nat (DATA_BUS_BYTES P)" by (metis nat_int nat_mono)
qed

text \<open>A read beat driven on the data channel is what the design reads there. If the signals are separate objects, the sequence of setters
  leaves the host memory's words at the beat's place on the bus, the other words as they were, \<open>valid\<close> high, the \<open>last\<close> flag and the identifier truncated to the width of its
  signal; \<open>ready\<close>, which belongs to the design, is untouched, so \<open>fire\<close> is then exactly \<open>ready\<close>.\<close>

lemma read_beat_driven:
  fixes mem :: bytes
  assumes "dc_ok ch" and "0 \<le> beat_start P tx"
  defines "s \<equiv> nat (beat_start P tx)" and "n \<equiv> nat (tx_size tx div 4)" and "l \<equiv> beat_last tx" and "i \<equiv> of_int (tx_id tx) :: u64"
  assumes fit: "4 * (s + n) \<le> w_size (dc_data ch)" and ap: "apart \<lparr>w_ptr = tx_addr tx, w_size = 4 * n\<rparr> (dc_data ch)"
  defines "c \<equiv> splice (4 * s) (mem_read mem (tx_addr tx) (4 * n)) (dc_getData mem ch)"
  defines "m \<equiv> put (dc_id ch) i (put (dc_last ch) (of_bool l) (put (dc_valid ch) 1 (mem_write mem (w_ptr (dc_data ch)) c)))"
  shows "drive_read_beat P mem ch tx = Inr m" and "dc_getData m ch = c" and "length c = w_size (dc_data ch)"
    and "gsw_get m (dc_valid ch) = Inr 1" and "gsw_get m (dc_last ch) = Inr (of_bool l)"
    and "gsw_get m (dc_id ch) = Inr (unat i mod 256 ^ w_size (dc_id ch))" and "gsw_get m (dc_ready ch) = gsw_get mem (dc_ready ch)"
    and "gsw_get mem (dc_ready ch) = Inr r \<Longrightarrow> dc_fire m ch = Inr (r \<noteq> 0)"
proof -
  have sz: "0 < w_size (dc_valid ch)" "0 < w_size (dc_last ch)" using assms(1) by (simp_all add: dc_ok_def)
  note words = set_port_words_data [OF assms(1) fit ap, where mem = mem, folded c_def]
    and set = data_bundle.set_signal [OF assms(1)]
    and same = data_bundle.get_same [OF assms(1)] and other = dc_get_other [OF assms(1)] and data = set_keeps_data [OF assms(1)]
  show "length c = w_size (dc_data ch)" by (rule words(1))
  have "set_port_words ch (tx_addr tx) (beat_start P tx) 0 n mem = Inr (mem_write mem (w_ptr (dc_data ch)) c)"
    using words(2) assms(2) by (simp add: s_def)
  then show "drive_read_beat P mem ch tx = Inr m"
    by (simp add: drive_read_beat_def n_def dc_setValid_def dc_setLast_def dc_setId_def set m_def l_def i_def)
  show v: "gsw_get m (dc_valid ch) = Inr 1" and "gsw_get m (dc_last ch) = Inr (of_bool l)"
    and "gsw_get m (dc_id ch) = Inr (unat i mod 256 ^ w_size (dc_id ch))" and r: "gsw_get m (dc_ready ch) = gsw_get mem (dc_ready ch)"
    and "dc_getData m ch = c"
    using sz flag_fits [of "w_size (dc_valid ch)" True] by (simp_all add: m_def other same data words flag_fits)
  show "gsw_get mem (dc_ready ch) = Inr r \<Longrightarrow> dc_fire m ch = Inr (r \<noteq> 0)" using v r by (simp add: dc_fire_def)
qed

text \<open>The words on the bus are those of the abstract channel: the loop over words (\<open>set_data_loop\<close>, src/sim/tick.cc) and the loop over the port agree.\<close>

lemma set_data_loop_splice:
  "s + k + n \<le> length d \<Longrightarrow> set_data_loop mem src (int s) k n d =
     Inr (splice (s + k) (map (\<lambda>j. load32 mem (src + 4 * of_nat j)) [k..<k + n]) d)"
proof (induction n arbitrary: k d)
  case 0
  then show ?case by simp
next
  case (Suc n)
  let ?x = "load32 mem (src + 4 * of_nat k)" and ?f = "\<lambda>j. load32 mem (src + 4 * of_nat j)"
  have u: "upd_res d (int k + int s) ?x = Inr (d[s + k := ?x])" using Suc.prems by (simp add: upd_res_def nat_int_add add.commute [of k s])
  have "splice (s + k + length [?x]) (map ?f [Suc k..<Suc k + n]) (splice (s + k) [?x] d) = splice (s + k) ([?x] @ map ?f [Suc k..<Suc k + n]) d"
    by (rule splice_more) (use Suc.prems in simp)
  moreover have "splice (s + k) [?x] d = d[s + k := ?x]" using Suc.prems by (simp add: splice_def upd_conv_take_nth_drop)
  moreover have "[k..<k + Suc n] = k # [Suc k..<Suc k + n]" by (simp add: upt_conv_Cons del: upt_Suc)
  ultimately show ?case using Suc.IH [of "Suc k" "d[s + k := ?x]"] Suc.prems u by (simp del: upt_Suc)
qed

lemma words_read: "concat (map word_bytes (map (\<lambda>j. load32 mem (src + 4 * of_nat j)) [0..<n])) = mem_read mem src (4 * n)"
proof (induction n)
  case (Suc n)
  then show ?case using mem_read_append [of mem src "4 * n" 4] by (simp add: load32_bytes add.commute)
qed (simp add: mem_read_def)

lemma take_concat_words: "take (4 * n) (concat (map word_bytes d)) = concat (map word_bytes (take n d))"
  by (induction d arbitrary: n) (auto simp: take_Cons split: nat.splits)

lemma drop_concat_words: "drop (4 * n) (concat (map word_bytes d)) = concat (map word_bytes (drop n d))"
  by (induction d arbitrary: n) (auto simp: drop_Cons split: nat.splits)

lemma port_shows_words:
  assumes "s + n \<le> length d"
  shows "\<exists>d'. set_data_loop mem src (int s) 0 n d = Inr d'
    \<and> concat (map word_bytes d') = splice (4 * s) (mem_read mem src (4 * n)) (concat (map word_bytes d))"
proof -
  let ?ws = "map (\<lambda>j. load32 mem (src + 4 * of_nat j)) [0..<n]"
  have "concat (map word_bytes (splice s ?ws d)) = splice (4 * s) (concat (map word_bytes ?ws)) (concat (map word_bytes d))"
    using drop_concat_words [of "s + n" d] by (simp only: splice_def map_append concat_append take_concat_words length_concat_words length_map length_upt diff_zero add_mult_distrib2)
  then show ?thesis
    using set_data_loop_splice [of s 0 n d mem src] assms unfolding words_read by (simp only: add_0 add_0_right) blast
qed

definition demo_data :: "nat \<Rightarrow> data_channel" where
  "demo_data strb = \<lparr>dc_ready = \<lparr>w_ptr = 0x100, w_size = 1\<rparr>, dc_valid = \<lparr>w_ptr = 0x101, w_size = 1\<rparr>,
     dc_data = \<lparr>w_ptr = 0x140, w_size = 8\<rparr>, dc_strb = \<lparr>w_ptr = 0x110, w_size = strb\<rparr>, dc_id = \<lparr>w_ptr = 0x102, w_size = 2\<rparr>,
     dc_last = \<lparr>w_ptr = 0x104, w_size = 1\<rparr>\<rparr>"

section \<open>Strobes\<close>

lemma bit_payload: "bit (drop_bit s (of_nat p :: u32)) 0 \<longleftrightarrow> s < 32 \<and> bit p s"
  by (simp add: bit_simps)

lemma dc_getStrb_bit:
  assumes "w_ptr (dc_strb ch) \<noteq> 0"
  shows "dc_getStrb mem ch i = Inr (bit (le_value (mem_read mem (w_ptr (dc_strb ch) + of_nat (w_size (dc_strb ch) * (i div 32)))
      (w_size (dc_strb ch)))) (i mod 32))"
proof -
  have "int (w_size (dc_strb ch)) * int (i div 32) = int (w_size (dc_strb ch) * (i div 32))" by simp
  then have "(of_int (int (w_size (dc_strb ch)) * int (i div 32)) :: u64) = of_nat (w_size (dc_strb ch) * (i div 32))"
    by (metis of_int_of_nat_eq)
  then show ?thesis
    using assms by (simp add: dc_getStrb_def Let_def gsw_get_at_def bit_payload del: of_nat_mult of_int_mult)
qed

lemma strobe_low:
  assumes "field_ok (dc_strb ch)" and "i < 32"
  defines "p \<equiv> \<lambda>mem. le_value (mem_read mem (w_ptr (dc_strb ch)) (w_size (dc_strb ch)))"
  shows "dc_getStrb mem ch i = Inr (bit (p mem) i)" and "dc_getStrb mem ch i = getStrb [of_nat (p mem)] (int i)"
proof -
  have "w_ptr (dc_strb ch) \<noteq> 0" using assms(1) by (simp add: field_ok_def)
  then show e: "dc_getStrb mem ch i = Inr (bit (p mem) i)" using assms(2) by (simp add: dc_getStrb_bit p_def)
  have "getStrb [of_nat q] (int i) = Inr (bit q i)" for q
    using assms(2) bit_payload [of i q] by (simp add: getStrb_def Let_def nth_res_def)
  then show "dc_getStrb mem ch i = getStrb [of_nat (p mem)] (int i)" by (simp only: e)
qed

lemma mem_read_after:
  assumes "w_size w = 8"
  shows "mem_read (put w v mem) (w_ptr w + 8) 8 = mem_read mem (w_ptr w + 8) 8"
proof (rule nth_equalityI)
  fix j assume j: "j < length (mem_read (put w v mem) (w_ptr w + 8) 8)"
  then have "unat (of_nat (8 + j) :: u64) = 8 + j" by (simp add: unat_of_nat del: of_nat_add)
  then show "mem_read (put w v mem) (w_ptr w + 8) 8 ! j = mem_read mem (w_ptr w + 8) 8 ! j"
    using j assms by (simp add: put_def mem_write_def algebra_simps)
qed simp

lemma strobe_high:
  assumes "field_ok (dc_strb ch)" and "32 \<le> i" and "w_size (dc_strb ch) = 8" and "i < 8 * w_size (dc_strb ch)"
  shows "dc_getStrb mem ch i = Inr (bit (le_value (mem_read mem (w_ptr (dc_strb ch) + 8) 8)) (i - 32))"
    and "dc_getStrb (put (dc_strb ch) v mem) ch i = dc_getStrb mem ch i"
proof -
  have p: "w_ptr (dc_strb ch) \<noteq> 0" using assms(1) by (simp add: field_ok_def)
  have "i = 32 + (i - 32)" "i - 32 < 32" using assms(2-4) by simp_all
  then have d: "i div 32 = 1" "i mod 32 = i - 32" by (metis add.commute div_mult_self1_is_m div_add_self1 div_less plus_1_eq_Suc zero_neq_numeral One_nat_def, metis mod_add_self1 mod_less)
  have e: "dc_getStrb m ch i = Inr (bit (le_value (mem_read m (w_ptr (dc_strb ch) + 8) 8)) (i - 32))" for m
    using assms(3) by (simp add: dc_getStrb_bit [of ch, OF p] d)
  show "dc_getStrb mem ch i = Inr (bit (le_value (mem_read mem (w_ptr (dc_strb ch) + 8) 8)) (i - 32))" by (rule e)
  show "dc_getStrb (put (dc_strb ch) v mem) ch i = dc_getStrb mem ch i"
    by (simp only: e mem_read_after [OF assms(3)])
qed

text \<open>C25: the runtime sees the strobes of the first 32 lanes only. On a bus of at most 32 bytes every lane of a write has its own strobe,
  and these are the strobes the memory half of the cycle works with; on a bus of 64 bytes, whose strobe is one object of 64 bits, a lane from 32 on is
  read from the eight bytes after the strobe, whatever the strobe is.\<close>

theorem strobe_lanes:
  assumes "field_ok (dc_strb ch)" and "i < 8 * w_size (dc_strb ch)"
  shows "(i < 32 \<longrightarrow> dc_getStrb mem ch i = Inr (bit (le_value (mem_read mem (w_ptr (dc_strb ch)) (w_size (dc_strb ch)))) i)
      \<and> dc_getStrb mem ch i = getStrb [of_nat (le_value (mem_read mem (w_ptr (dc_strb ch)) (w_size (dc_strb ch))))] (int i))
    \<and> (32 \<le> i \<and> w_size (dc_strb ch) = 8 \<longrightarrow>
         dc_getStrb mem ch i = Inr (bit (le_value (mem_read mem (w_ptr (dc_strb ch) + 8) 8)) (i - 32))
         \<and> (\<forall>v. dc_getStrb (put (dc_strb ch) v mem) ch i = dc_getStrb mem ch i))"
  using strobe_low [OF assms(1)] strobe_high [OF assms(1) _ _ assms(2)] by blast

theorem strobe_lanes_witness:
  "dc_getStrb (put (dc_strb (demo_data 8)) (- 1) (\<lambda>a. 0)) (demo_data 8) 37 = Inr False
    \<and> dc_getStrb (\<lambda>a. 1) (demo_data 2) 8 = Inr True"
proof -
  have ok: "field_ok (dc_strb (demo_data 8))" "37 < 8 * w_size (dc_strb (demo_data 8))" "w_size (dc_strb (demo_data 8)) = 8"
    "field_ok (dc_strb (demo_data 2))" "8 < 8 * w_size (dc_strb (demo_data 2))"
    by (simp_all add: demo_data_def field_ok_def)
  have "le_value (mem_read (\<lambda>a. 0) (w_ptr (dc_strb (demo_data 8)) + 8) 8) = 0"
    by (simp add: mem_read_def upt_rec numeral_eq_Suc)
  moreover have "getStrb [of_nat (le_value (mem_read (\<lambda>a. 1) (w_ptr (dc_strb (demo_data 2))) (w_size (dc_strb (demo_data 2)))))] (int 8) = Inr True"
    by code_simp
  ultimately show ?thesis
    using strobe_lanes [OF ok(1,2), of "\<lambda>a. 0", THEN conjunct2] strobe_lanes [OF ok(4,5), of "\<lambda>a. 1", THEN conjunct1] ok(3) by auto
qed

end
