(* ===== verification/Verilator_Wiring.thy ===== *)
theory Verilator_Wiring
  imports Axi_Channels Sim_Frontend
begin

text \<open>
  How the Verilator frontends connect the runtime to the fields of the generated class \<open>BeethovenTop\<close> (src/sim/axi/verilator_axi_frontend.cc,
  src/sim/chipkit/verilator_chipkit_frontend.cc), and the levels they set before the first clock.

  The class is not part of the repository: a layout gives the object of every port, by the name of the port. The channels are built from it
  with the initialisers of the channels in the order of their arguments. \<open>layout_ok\<close> states what C++ promises of the fields of a
  class: they are separate objects. With it the theorem on read beats of \<open>Axi_Channels\<close> becomes one on the pins of the design.
\<close>

section \<open>Channels\<close>

type_synonym layout = "string \<Rightarrow> wrapper"

definition address_init :: "wrapper \<Rightarrow> wrapper \<Rightarrow> wrapper \<Rightarrow> wrapper \<Rightarrow> wrapper \<Rightarrow> wrapper \<Rightarrow> wrapper \<Rightarrow> address_channel" where
  "address_init ready valid id_w size_w burst_w addr_w len_w =
     \<lparr>ready_field = ready, valid_field = valid, id_field = id_w, size_field = size_w, burst_field = burst_w, addr_field = addr_w,
      len_field = len_w\<rparr>"

record mem_channels =
  mc_ar :: address_channel
  mc_aw :: address_channel
  mc_w :: data_channel
  mc_r :: data_channel
  mc_b :: response_channel

text \<open>\<open>GetSetDataWrapper<uint8_t, bus_bytes>\<close> at the object of a port.\<close>

definition data_wrapper :: "layout \<Rightarrow> nat \<Rightarrow> string \<Rightarrow> wrapper" where
  "data_wrapper lay bus_bytes n = (lay n)\<lparr>w_size := bus_bytes\<rparr>"

definition wire_address :: "layout \<Rightarrow> string \<Rightarrow> address_channel" where
  "wire_address lay ch =
     address_init (lay (ch @ ''ready'')) (lay (ch @ ''valid'')) (lay (ch @ ''id'')) (lay (ch @ ''size'')) (lay (ch @ ''burst''))
       (lay (ch @ ''addr'')) (lay (ch @ ''len''))"

text \<open>The channel of the first memory; the variable \<open>dummy\<close> stands in for the missing identifier of the write data and for the
  missing strobe of the read data.\<close>

definition wire_bus :: "layout \<Rightarrow> wrapper \<Rightarrow> nat \<Rightarrow> string \<Rightarrow> mem_channels \<Rightarrow> mem_channels" where
  "wire_bus lay dummy bus_bytes bus m =
     \<lparr>mc_ar = wire_address lay (bus @ ''ar''),
      mc_aw = wire_address lay (bus @ ''aw''),
      mc_w = dc_init (lay (bus @ ''wready'')) (lay (bus @ ''wvalid'')) (lay (bus @ ''wlast'')) dummy (lay (bus @ ''wstrb''))
               (data_wrapper lay bus_bytes (bus @ ''wdata'')),
      mc_r = dc_init (lay (bus @ ''rready'')) (lay (bus @ ''rvalid'')) (lay (bus @ ''rlast'')) (lay (bus @ ''rid'')) dummy
               (data_wrapper lay bus_bytes (bus @ ''rdata'')),
      mc_b = rc_init (lay (bus @ ''bready'')) (lay (bus @ ''bvalid'')) (lay (bus @ ''bid'')) (mc_b m)\<rparr>"

text \<open>The second memory, with two channels.\<close>

definition wire_memory2 :: "layout \<Rightarrow> wrapper \<Rightarrow> nat \<Rightarrow> mem_channels \<Rightarrow> mem_channels" where
  "wire_memory2 lay dummy bus_bytes m = wire_bus lay dummy bus_bytes ''M01_AXI_'' m"

text \<open>The DMA port; its data wrappers are 64 bytes wide.\<close>

definition wire_dma :: "layout \<Rightarrow> wrapper \<Rightarrow> mem_channels \<Rightarrow> mem_channels" where
  "wire_dma lay dummy m = wire_bus lay dummy 64 ''dma_'' m"

text \<open>The ChipKit frontend has one memory.\<close>

definition chip_wire_memory :: "layout \<Rightarrow> wrapper \<Rightarrow> nat \<Rightarrow> mem_channels \<Rightarrow> mem_channels" where
  "chip_wire_memory lay dummy bus_bytes m = wire_bus lay dummy bus_bytes ''M00_AXI_'' m"

subsection \<open>Levels before the first clock\<close>

fun idle_memories :: "mem_channels list \<Rightarrow> bytes \<Rightarrow> bytes res" where
  "idle_memories [] mem = Inr mem"
| "idle_memories (m # ms) mem =
     rbind (dc_setValid mem (mc_r m) 0) (\<lambda>mem.
     rbind (rc_setValid mem (mc_b m) 0) (\<lambda>mem.
     rbind (setReady mem (mc_aw m) True) (idle_memories ms)))"

definition idle_dma :: "mem_channels \<Rightarrow> bytes \<Rightarrow> bytes res" where
  "idle_dma m mem =
     rbind (rc_setReady mem (mc_b m) 0) (\<lambda>mem.
     rbind (setValid mem (mc_ar m) False) (\<lambda>mem.
     rbind (setValid mem (mc_aw m) False) (\<lambda>mem.
     rbind (dc_setValid mem (mc_w m) 0) (\<lambda>mem.
     dc_setReady mem (mc_r m) 0))))"

section \<open>Control bus\<close>

text \<open>The wrappers of \<open>AXIControlIntf\<close>, by the names of its members.\<close>

definition wire_control :: "layout \<Rightarrow> (string \<times> wrapper) list" where
  "wire_control lay =
     [(''aw_valid'', lay ''S00_AXI_awvalid''), (''aw_ready'', lay ''S00_AXI_awready''), (''aw_addr'', lay ''S00_AXI_awaddr''),
      (''ar_valid'', lay ''S00_AXI_arvalid''), (''ar_ready'', lay ''S00_AXI_arready''), (''ar_addr'', lay ''S00_AXI_araddr''),
      (''w_valid'', lay ''S00_AXI_wvalid''), (''w_ready'', lay ''S00_AXI_wready''), (''w_data'', lay ''S00_AXI_wdata''),
      (''r_ready'', lay ''S00_AXI_rready''), (''r_valid'', lay ''S00_AXI_rvalid''), (''r_data'', lay ''S00_AXI_rdata''),
      (''b_ready'', lay ''S00_AXI_bready''), (''b_valid'', lay ''S00_AXI_bvalid'')]"

definition control_quiet :: "(string \<times> u64) list" where
  "control_quiet =
     [(''S00_AXI_bready'', 0), (''S00_AXI_arvalid'', 0), (''S00_AXI_rready'', 0), (''S00_AXI_wvalid'', 0), (''S00_AXI_awvalid'', 0)]"

definition verilator_constants :: "(string \<times> u64) list" where
  "verilator_constants =
     [(''S00_AXI_arregion'', 0), (''S00_AXI_arqos'', 0), (''S00_AXI_arprot'', 0), (''S00_AXI_arcache'', 0), (''S00_AXI_arlock'', 0),
      (''S00_AXI_arlen'', 0), (''S00_AXI_arsize'', 2), (''S00_AXI_arburst'', 0),
      (''S00_AXI_awregion'', 0), (''S00_AXI_awqos'', 0), (''S00_AXI_awprot'', 0), (''S00_AXI_awcache'', 0), (''S00_AXI_awlock'', 0),
      (''S00_AXI_awlen'', 0), (''S00_AXI_awsize'', 2), (''S00_AXI_awburst'', 0),
      (''S00_AXI_wlast'', 1), (''S00_AXI_wstrb'', 0xF)]"

text \<open>An assignment to a field of the class.\<close>

fun assign_ports :: "layout \<Rightarrow> (string \<times> u64) list \<Rightarrow> bytes \<Rightarrow> bytes" where
  "assign_ports lay [] mem = mem"
| "assign_ports lay ((n, v) # ps) mem = assign_ports lay ps (put (lay n) v mem)"

section \<open>Properties\<close>

text \<open>The ports used are separate objects of the process, of at most eight bytes unless they carry data.\<close>

definition ports_apart :: "layout \<Rightarrow> string list \<Rightarrow> bool" where
  "ports_apart lay ns \<longleftrightarrow> list_all (\<lambda>n. list_all (\<lambda>k. n = k \<or> apart (lay n) (lay k)) ns) ns"

definition small_port :: "layout \<Rightarrow> string \<Rightarrow> bool" where
  "small_port lay n \<longleftrightarrow> field_ok (lay n) \<and> 0 < w_size (lay n)"

definition bus_ports :: "string \<Rightarrow> string list" where
  "bus_ports bus = map snd (memory_signals bus)"

definition layout_ok :: "layout \<Rightarrow> string \<Rightarrow> bool" where
  "layout_ok lay bus \<longleftrightarrow> ports_apart lay (bus_ports bus) \<and> int (w_size (lay (bus @ ''rdata''))) < 2 ^ 32
     \<and> list_all (small_port lay) (map ((@) bus) [''rready'', ''rvalid'', ''rlast'', ''rid''])"

lemma ports_apartD: "ports_apart lay ns \<Longrightarrow> n \<in> set ns \<Longrightarrow> k \<in> set ns \<Longrightarrow> n \<noteq> k \<Longrightarrow> apart (lay n) (lay k)"
  by (auto simp: ports_apart_def list_all_iff)

lemma read_ports: "set (map ((@) bus) [''rready'', ''rvalid'', ''rlast'', ''rid'', ''rdata'']) \<subseteq> set (bus_ports bus)"
  by (simp add: bus_ports_def memory_signals_def)

lemma wired_read_channel:
  assumes "w_size (lay (bus @ ''rdata'')) = bus_bytes"
  shows "dc_data (mc_r (wire_bus lay dummy bus_bytes bus m)) = lay (bus @ ''rdata'')"
    "dc_ready (mc_r (wire_bus lay dummy bus_bytes bus m)) = lay (bus @ ''rready'')"
    "dc_valid (mc_r (wire_bus lay dummy bus_bytes bus m)) = lay (bus @ ''rvalid'')"
    "dc_last (mc_r (wire_bus lay dummy bus_bytes bus m)) = lay (bus @ ''rlast'')"
    "dc_id (mc_r (wire_bus lay dummy bus_bytes bus m)) = lay (bus @ ''rid'')"
  using assms by (simp_all add: wire_bus_def dc_init_def data_wrapper_def)

lemma wired_read_ok:
  assumes "layout_ok lay bus" and "w_size (lay (bus @ ''rdata'')) = bus_bytes"
  shows "dc_ok (mc_r (wire_bus lay dummy bus_bytes bus m))"
proof -
  have ap: "apart (lay (bus @ n)) (lay (bus @ k))"
    if "n \<in> set [''rready'', ''rvalid'', ''rlast'', ''rid'', ''rdata'']" "k \<in> set [''rready'', ''rvalid'', ''rlast'', ''rid'', ''rdata'']" "n \<noteq> k" for n k
    using ports_apartD [of lay "bus_ports bus" "bus @ n" "bus @ k"] assms(1) that read_ports [of bus] by (auto simp: layout_ok_def)
  show ?thesis
    using assms ap by (simp add: dc_ok_def wired_read_channel layout_ok_def small_port_def)
qed

lemma put_frame:
  assumes "apart u w" and "field_ok w"
  shows "mem_read (put w v mem) (w_ptr u) (w_size u) = mem_read mem (w_ptr u) (w_size u)"
  using mem_read_apart [OF assms(1), of "take (w_size w) (le_bytes v)" mem] assms(2) by (simp add: put_def field_ok_def)

lemma read_beat_frame:
  fixes mem :: bytes and l :: bool and i :: u64
  assumes "layout_ok lay bus" and "length c = w_size (lay (bus @ ''rdata''))" and "n \<in> set (bus_ports bus)"
    and "n \<notin> set (map ((@) bus) [''rdata'', ''rvalid'', ''rlast'', ''rid''])"
  defines "m \<equiv> put (lay (bus @ ''rid'')) i (put (lay (bus @ ''rlast'')) (of_bool l) (put (lay (bus @ ''rvalid'')) 1
      (mem_write mem (w_ptr (lay (bus @ ''rdata''))) c)))"
  shows "mem_read m (w_ptr (lay n)) (w_size (lay n)) = mem_read mem (w_ptr (lay n)) (w_size (lay n))"
proof -
  have ap: "apart (lay n) (lay (bus @ k))" if "k \<in> set [''rvalid'', ''rlast'', ''rid'', ''rdata'']" for k
    using ports_apartD [of lay "bus_ports bus" n "bus @ k"] assms(1,3,4) that read_ports [of bus] by (auto simp: layout_ok_def)
  have ok: "field_ok (lay (bus @ ''rvalid''))" "field_ok (lay (bus @ ''rlast''))" "field_ok (lay (bus @ ''rid''))"
    "w_size (lay (bus @ ''rdata'')) < 2 ^ 64"
    using assms(1) by (simp_all add: layout_ok_def small_port_def)
  show ?thesis
    using mem_read_apart [OF ap _ ok(4), of c mem] assms(2)
    by (simp add: m_def put_frame ap ok)
qed

text \<open>C24: a read beat reaches the pins of the design. Take any bus of the design whose ports are separate objects, wired as the frontends do it with a data port as wide as
  the data bus, and a beat whose size divides the width of the bus and whose bytes in host memory do not overlap the data port. Driving the beat succeeds and leaves on the port \<open>rdata\<close> the
  bytes of the host memory at the beat's address, whole words of them, from the word \<open>beat_start\<close> of the bus on, and the rest of the port as it was; \<open>rvalid\<close> is high, \<open>rlast\<close> the last flag of the
  transaction, \<open>rid\<close> the identifier truncated to the port, and no other port of the bus changes. If the port showed a list of words before, it now
  shows the words that the abstract channel computes for the beat (\<open>set_data_loop\<close>, as in \<open>drive_read\<close>).\<close>

theorem wired_read_beat:
  assumes "layout_ok lay bus" and bus: "int (w_size (lay (bus @ ''rdata''))) = DATA_BUS_BYTES P"
    and "0 < tx_size tx" and "tx_size tx dvd DATA_BUS_BYTES P" and "0 < DATA_BUS_BYTES P"
    and ap: "apart \<lparr>w_ptr = tx_addr tx, w_size = 4 * nat (tx_size tx div 4)\<rparr> (lay (bus @ ''rdata''))"
  defines "s \<equiv> nat (beat_start P tx)" and "n \<equiv> nat (tx_size tx div 4)"
  shows "\<exists>mem'. drive_read_beat P mem (mc_r (wire_bus lay dummy (nat (DATA_BUS_BYTES P)) bus m)) tx = Inr mem'
    \<and> gsd_get mem' (lay (bus @ ''rdata'')) = splice (4 * s) (mem_read mem (tx_addr tx) (4 * n)) (gsd_get mem (lay (bus @ ''rdata'')))
    \<and> gsw_get mem' (lay (bus @ ''rvalid'')) = Inr 1
    \<and> gsw_get mem' (lay (bus @ ''rlast'')) = Inr (of_bool (beat_last tx))
    \<and> gsw_get mem' (lay (bus @ ''rid'')) = Inr (unat (of_int (tx_id tx) :: u64) mod 256 ^ w_size (lay (bus @ ''rid'')))
    \<and> (\<forall>k \<in> set (bus_ports bus). k \<notin> set (map ((@) bus) [''rdata'', ''rvalid'', ''rlast'', ''rid'']) \<longrightarrow>
         mem_read mem' (w_ptr (lay k)) (w_size (lay k)) = mem_read mem (w_ptr (lay k)) (w_size (lay k)))
    \<and> (\<forall>d. gsd_get mem (lay (bus @ ''rdata'')) = concat (map word_bytes d) \<longrightarrow>
         (\<exists>d'. set_data_loop mem (tx_addr tx) (beat_start P tx) 0 n d = Inr d'
            \<and> gsd_get mem' (lay (bus @ ''rdata'')) = concat (map word_bytes d')))"
proof -
  let ?B = "nat (DATA_BUS_BYTES P)" and ?w = "lay (bus @ ''rdata'')"
  let ?ch = "mc_r (wire_bus lay dummy ?B bus m)"
  let ?c = "splice (4 * s) (mem_read mem (tx_addr tx) (4 * n)) (gsd_get mem ?w)"
  let ?m = "put (lay (bus @ ''rid'')) (of_int (tx_id tx)) (put (lay (bus @ ''rlast'')) (of_bool (beat_last tx)) (put (lay (bus @ ''rvalid'')) 1
      (mem_write mem (w_ptr ?w) ?c)))"
  have B: "w_size ?w = ?B" using bus by simp
  note ch = wired_read_channel [where lay = lay and bus = bus, OF B, of dummy m] and fits = beat_fits [OF assms(3-5)]
  have "4 * (s + n) \<le> w_size (dc_data ?ch)" "apart \<lparr>w_ptr = tx_addr tx, w_size = 4 * n\<rparr> (dc_data ?ch)"
    using fits(2) ap B by (simp_all only: ch s_def n_def)
  note r = read_beat_driven [OF wired_read_ok [OF assms(1) B, where dummy = dummy and m = m] fits(1), folded s_def n_def, OF this,
      where mem = mem, unfolded ch dc_getData_def]
  have data: "gsd_get ?m ?w = ?c" by (rule r(2))
  have words: "\<exists>d'. set_data_loop mem (tx_addr tx) (beat_start P tx) 0 n d = Inr d' \<and> gsd_get ?m ?w = concat (map word_bytes d')"
    if d: "gsd_get mem ?w = concat (map word_bytes d)" for d
  proof -
    have "w_size ?w = 4 * length d" using arg_cong [OF d, of length] by (simp add: gsd_get_def)
    then have "s + n \<le> length d" using fits(2) B by (simp add: s_def n_def)
    from port_shows_words [OF this, of mem "tx_addr tx"] fits(1) d show ?thesis unfolding data by (auto simp: s_def)
  qed
  have frame: "\<forall>k \<in> set (bus_ports bus). k \<notin> set (map ((@) bus) [''rdata'', ''rvalid'', ''rlast'', ''rid'']) \<longrightarrow>
         mem_read ?m (w_ptr (lay k)) (w_size (lay k)) = mem_read mem (w_ptr (lay k)) (w_size (lay k))"
    using read_beat_frame [OF assms(1) r(3)] by blast
  show ?thesis
    by (intro exI [of _ ?m] conjI allI impI r(1) r(4-6) frame data words)
qed

text \<open>Assigned ports hold their values, as far as they fit.\<close>

lemma assign_ports_other:
  assumes "ports_apart lay ns" and "list_all (small_port lay) ns" and "fst ` set ps \<subseteq> set ns" and "n \<in> set ns - fst ` set ps"
  shows "gsw_get (assign_ports lay ps mem) (lay n) = gsw_get mem (lay n)"
  using assms(3,4)
proof (induction ps arbitrary: mem)
  case Nil
  then show ?case by simp
next
  case (Cons p ps)
  obtain k v where p: "p = (k, v)" by (cases p)
  have "apart (lay n) (lay k)" "field_ok (lay k)"
    using ports_apartD [OF assms(1), of n k] assms(2) Cons.prems by (auto simp: p list_all_iff small_port_def)
  then have "gsw_get (put (lay k) v mem) (lay n) = gsw_get mem (lay n)" unfolding put_def by (rule gsw_get_other)
  with Cons.IH [of "put (lay k) v mem"] Cons.prems show ?case by (simp add: p)
qed

lemma assign_ports_values:
  assumes "ports_apart lay (map fst ps)" and "list_all (small_port lay) (map fst ps)" and "distinct (map fst ps)" and "(n, v) \<in> set ps"
  shows "gsw_get (assign_ports lay ps mem) (lay n) = Inr (unat v mod 256 ^ w_size (lay n))"
  using assms
proof (induction ps arbitrary: mem)
  case Nil
  then show ?case by simp
next
  case (Cons p ps)
  obtain k x where p: "p = (k, x)" by (cases p)
  show ?case
  proof (cases "(n, v) = p")
    case True
    then have "n \<in> set (map fst (p # ps)) - fst ` set ps" "field_ok (lay n)"
      using Cons.prems(2,3) by (auto simp: p small_port_def)
    moreover have "fst ` set ps \<subseteq> set (map fst (p # ps))" by auto
    ultimately show ?thesis
      using assign_ports_other [OF Cons.prems(1,2), of ps n "put (lay n) v mem"] True gsw_get_same [of "lay n" mem v] by (simp add: p put_def)
  next
    case False
    with Cons.prems show ?thesis
      using Cons.IH [of "put (lay k) x mem"] by (auto simp: p ports_apart_def list_all_iff)
  qed
qed

text \<open>The ports wired by the Verilator frontends are those the VPI frontend binds, and the constants of the control bus are the same; the VPI
  frontend also sets the two identifiers.\<close>

lemma control_ports_agree: "set (map snd (wire_control lay)) = lay ` set (map snd control_signals)"
  by (simp add: wire_control_def control_signals_def insert_commute)

lemma constants_agree:
  "set (map (\<lambda>(n, v). (n, ucast v)) control_constants) =
     set verilator_constants \<union> {(''S00_AXI_arid'', 0), (''S00_AXI_awid'', 0)}"
  by (simp add: control_constants_def verilator_constants_def insert_commute)

text \<open>A class whose ports are sixteen bytes apart.\<close>

definition demo_layout :: layout where
  "demo_layout n = \<lparr>w_ptr = 0x1000 + 16 * of_nat (length (takeWhile ((\<noteq>) n) (bus_ports ''M00_AXI_''))),
     w_size = if n = ''M00_AXI_rdata'' then 8 else 1\<rparr>"

lemma slots_apart:
  assumes "i \<noteq> j" and "i < 64" and "j < 64" and "m \<le> 16" and "n \<le> 16"
  shows "apart \<lparr>w_ptr = 0x1000 + 16 * of_nat i, w_size = m\<rparr> \<lparr>w_ptr = 0x1000 + 16 * of_nat j, w_size = n\<rparr>"
proof -
  have "0x1000 + 16 * of_nat i + of_nat a \<noteq> (0x1000 + 16 * of_nat j + of_nat b :: u64)" if "a < 16" "b < 16" for a b
  proof
    assume "0x1000 + 16 * of_nat i + of_nat a = (0x1000 + 16 * of_nat j + of_nat b :: u64)"
    then have "(of_nat (16 * i + a) :: u64) = of_nat (16 * j + b)" by simp
    then have "unat (of_nat (16 * i + a) :: u64) = unat (of_nat (16 * j + b) :: u64)" by (rule arg_cong)
    moreover have "16 * i + a < 2 ^ 64" "16 * j + b < 2 ^ 64" using assms(2,3) that by simp_all
    ultimately have "16 * i + a = 16 * j + b" by (simp only: unat_of_nat take_bit_eq_mod len_of_numeral_defs mod_less) simp
    then have "(16 * i + a) div 16 = (16 * j + b) div 16" by simp
    with that assms(1) show False by simp
  qed
  then show ?thesis using assms(4,5) by (auto simp: apart_def list_all_iff)
qed

lemma first_index: "n \<in> set ns \<Longrightarrow> length (takeWhile ((\<noteq>) n) ns) < length ns \<and> ns ! length (takeWhile ((\<noteq>) n) ns) = n"
  by (induction ns) auto

lemma demo_layout_ok: "layout_ok demo_layout ''M00_AXI_''"
proof -
  have l: "length (bus_ports ''M00_AXI_'') < 64" by (simp add: bus_ports_def memory_signals_def address_signals_def)
  have "apart (demo_layout n) (demo_layout k)" if nk: "n \<in> set (bus_ports ''M00_AXI_'')" "k \<in> set (bus_ports ''M00_AXI_'')" "n \<noteq> k" for n k
    unfolding demo_layout_def
    by (rule slots_apart) (use first_index [OF nk(1)] first_index [OF nk(2)] nk(3) l in auto)
  then have "ports_apart demo_layout (bus_ports ''M00_AXI_'')" by (auto simp: ports_apart_def list_all_iff)
  moreover have "small_port demo_layout n" if "n \<in> set (bus_ports ''M00_AXI_'')" for n
  proof -
    let ?i = "length (takeWhile ((\<noteq>) n) (bus_ports ''M00_AXI_''))"
    have "?i < 64" using first_index [OF that] l by simp
    then have "unat (of_nat (0x1000 + 16 * ?i) :: u64) = 0x1000 + 16 * ?i" by (simp add: unat_of_nat del: of_nat_add of_nat_mult)
    then have "(of_nat (0x1000 + 16 * ?i) :: u64) \<noteq> 0" by (metis add_is_0 unat_0 zero_neq_numeral)
    then show ?thesis by (simp add: small_port_def field_ok_def demo_layout_def)
  qed
  ultimately show ?thesis using read_ports [of "''M00_AXI_''"] by (auto simp: layout_ok_def demo_layout_def)
qed

definition demo_unwired :: mem_channels where
  "demo_unwired = \<lparr>mc_ar = demo_channel, mc_aw = demo_channel, mc_w = demo_data 1, mc_r = demo_data 1,
     mc_b = \<lparr>rc_ready = demo_layout ''r'', rc_valid = demo_layout ''v'', rc_id = demo_layout ''i'', rc_send_ids = [], rc_to_enqueue = []\<rparr>\<rparr>"

text \<open>A read of two beats of four bytes on a bus of eight, at the second beat: it appears on the upper half of the bus.\<close>

definition demo_narrow :: memory_transaction where
  "demo_narrow = (new_transaction demo_P 0x44 4 2 1 False 7 0x1000 True)\<lparr>can_be_last := True\<rparr>"

theorem wired_read_beat_witness:
  "\<exists>mem'. drive_read_beat (demo_P\<lparr>DATA_BUS_BYTES := 8\<rparr>) (\<lambda>a. ucast a)
       (mc_r (wire_bus demo_layout (demo_layout ''dummy'') 8 ''M00_AXI_'' demo_unwired)) demo_narrow = Inr mem'
    \<and> drop 4 (gsd_get mem' (demo_layout ''M00_AXI_rdata'')) = [0x44, 0x45, 0x46, 0x47]
    \<and> gsw_get mem' (demo_layout ''M00_AXI_rlast'') = Inr 1 \<and> gsw_get mem' (demo_layout ''M00_AXI_rid'') = Inr 7"
proof -
  let ?P = "demo_P\<lparr>DATA_BUS_BYTES := 8\<rparr>"
  have f: "tx_addr demo_narrow = 0x44" "tx_size demo_narrow = 4" "tx_id demo_narrow = 7" "beat_start ?P demo_narrow = 1" "beat_last demo_narrow"
    by (simp_all add: demo_narrow_def new_transaction_def Let_def beat_start_def beat_last_def)
  have w: "w_size (demo_layout (''M00_AXI_'' @ ''rdata'')) = 8" "w_size (demo_layout ''M00_AXI_rid'') = 1"
    by (simp_all add: demo_layout_def)
  have ne: "0x44 + of_nat i \<noteq> w_ptr (demo_layout (''M00_AXI_'' @ ''rdata'')) + of_nat j" if "i < 4" "j < 8" for i j
  proof -
    let ?k = "length (takeWhile ((\<noteq>) ''M00_AXI_rdata'') (bus_ports ''M00_AXI_''))"
    have "?k < 64" using first_index [of "''M00_AXI_rdata''" "bus_ports ''M00_AXI_''"]
      by (simp add: bus_ports_def memory_signals_def address_signals_def)
    then have "unat (of_nat (0x1000 + 16 * ?k + j) :: u64) \<noteq> unat (of_nat (0x44 + i) :: u64)"
      using that by (simp add: unat_of_nat take_bit_nat_eq_self del: of_nat_add of_nat_mult)
    then have "(of_nat (0x1000 + 16 * ?k + j) :: u64) \<noteq> of_nat (0x44 + i)" by metis
    moreover have "w_ptr (demo_layout (''M00_AXI_'' @ ''rdata'')) + of_nat j = of_nat (0x1000 + 16 * ?k + j)" by (simp add: demo_layout_def)
    moreover have "0x44 + of_nat i = (of_nat (0x44 + i) :: u64)" by simp
    ultimately show ?thesis by metis
  qed
  have ap: "apart \<lparr>w_ptr = tx_addr demo_narrow, w_size = 4 * nat (tx_size demo_narrow div 4)\<rparr> (demo_layout (''M00_AXI_'' @ ''rdata''))"
    unfolding apart_def list_all_iff
  proof (intro ballI)
    fix i j assume "i \<in> set [0..<w_size \<lparr>w_ptr = tx_addr demo_narrow, w_size = 4 * nat (tx_size demo_narrow div 4)\<rparr>]"
      and "j \<in> set [0..<w_size (demo_layout (''M00_AXI_'' @ ''rdata''))]"
    then have "i < 4" "j < 8" using f(2) w(1) by simp_all
    from ne [OF this] show "w_ptr \<lparr>w_ptr = tx_addr demo_narrow, w_size = 4 * nat (tx_size demo_narrow div 4)\<rparr> + of_nat i \<noteq>
        w_ptr (demo_layout (''M00_AXI_'' @ ''rdata'')) + of_nat j" by (simp only: wrapper.simps f(1)) blast
  qed
  have b: "mem_read (\<lambda>a. ucast a) 0x44 4 = [0x44, 0x45, 0x46, 0x47]" by code_simp
  let ?g = "gsd_get (\<lambda>a. ucast a) (demo_layout (''M00_AXI_'' @ ''rdata''))"
  have "length ?g = 8" using w(1) by (simp add: gsd_get_def)
  then have d: "drop 4 (splice 4 [0x44, 0x45, 0x46, 0x47] ?g) = [0x44, 0x45, 0x46, 0x47]" by (simp add: splice_def)
  have pre: "int (w_size (demo_layout (''M00_AXI_'' @ ''rdata''))) = DATA_BUS_BYTES ?P" "0 < tx_size demo_narrow"
    "tx_size demo_narrow dvd DATA_BUS_BYTES ?P" "0 < DATA_BUS_BYTES ?P" using w(1) by (simp_all add: f)
  have n: "nat (DATA_BUS_BYTES ?P) = 8" "4 * nat (beat_start ?P demo_narrow) = 4" "4 * nat (tx_size demo_narrow div 4) = 4"
    "(unat (of_int (tx_id demo_narrow) :: u64) mod 256 ^ w_size (demo_layout (''M00_AXI_'' @ ''rid''))) = 7"
    using w(2) by (simp_all add: f)
  from wired_read_beat [where lay = demo_layout and bus = "''M00_AXI_''" and P = ?P and tx = demo_narrow and mem = "\<lambda>a. ucast a",
      OF demo_layout_ok pre ap, of "demo_layout ''dummy''" demo_unwired, unfolded n f(1) b] obtain mem' where
    "drive_read_beat ?P (\<lambda>a. ucast a) (mc_r (wire_bus demo_layout (demo_layout ''dummy'') 8 ''M00_AXI_'' demo_unwired)) demo_narrow = Inr mem'"
    "gsd_get mem' (demo_layout (''M00_AXI_'' @ ''rdata'')) = splice 4 [0x44, 0x45, 0x46, 0x47] ?g"
    "gsw_get mem' (demo_layout (''M00_AXI_'' @ ''rlast'')) = Inr (of_bool (beat_last demo_narrow))"
    "gsw_get mem' (demo_layout (''M00_AXI_'' @ ''rid'')) = Inr 7" by blast
  with d f(5) show ?thesis by (intro exI [of _ mem']) simp
qed

end
