(* ===== verification/Chipkit_Sim.thy ===== *)
theory Chipkit_Sim
  imports Sim_Frontend
begin

text \<open>
  The program of the Verilator ChipKit build, from the first reset to the end of the run (\<open>run_verilator\<close> and \<open>main\<close> of
  src/sim/chipkit/verilator_chipkit_frontend.cc), with the serial ports of \<open>Chipkit_Uart\<close> connected to pins of the design.

  The design is a parameter: \<open>dut_ops\<close> of \<open>Sim_Frontend\<close> for clock, reset and evaluation, \<open>pin_ops\<close> for its other pins. The level
  of an input pin that a serial port drives is the field \<open>rxd\<close> of the port, set at the design after every tick. \<open>rest\<close> stands for the
  memory half of \<open>tick_signals\<close> (\<open>Mem_Tick\<close>). The loops that wait for a serial port have a bound on the number of turns and fail
  with \<open>Diverges\<close> past it; \<open>uart_rank\<close> counts the ticks a port needs until its queue is sent, so the bound of the theorem is enough.
\<close>

section \<open>Model\<close>

record 'd pin_ops =
  pin_get :: "string \<Rightarrow> 'd \<Rightarrow> u8"
  pin_set :: "string \<Rightarrow> u8 \<Rightarrow> 'd \<Rightarrow> 'd"

definition set_pin :: "'d pin_ops \<Rightarrow> string \<Rightarrow> u8 \<Rightarrow> 'd sim \<Rightarrow> 'd sim" where
  "set_pin T n v s = s\<lparr>sim_dut := pin_set T n v (sim_dut s)\<rparr>"

text \<open>The levels of the pins before the first clock, and of the memory channel.\<close>

definition chip_levels :: "u8 \<Rightarrow> (string \<times> u8) list" where
  "chip_levels baud =
     [(''CHIP_UART_M_RXD'', 1), (''CHIP_UART_M_CTS'', 0), (''CHIP_UART_M_BAUD_SEL'', baud), (''CHIP_FESEL'', 0), (''CHIP_SCEN'', 0),
      (''CHIP_SHIFTOUT'', 0), (''CHIP_SHIFTIN'', 0), (''CHIP_SCLK2'', 0), (''CHIP_SCLK1'', 0),
      (''M00_AXI_rvalid'', 0), (''M00_AXI_bvalid'', 0), (''M00_AXI_awready'', 1)]"

definition set_pins :: "'d pin_ops \<Rightarrow> (string \<times> u8) list \<Rightarrow> 'd sim \<Rightarrow> 'd sim" where
  "set_pins T ps s = fold (\<lambda>(n, v). set_pin T n v) ps s"

text \<open>A clock cycle of the loops without signals: steady, reset2.\<close>

definition steady_cycle :: "'d dut_ops \<Rightarrow> u64 \<Rightarrow> 'd sim \<Rightarrow> 'd sim res" where
  "steady_cycle D inc s =
     rbind (eval_tick D (advance inc (set_clock D True s))) (\<lambda>s.
     rbind (eval_tick D (advance inc (set_clock D False (dump s)))) (\<lambda>s.
     Inr (dump s)))"

fun steady_loop :: "'d dut_ops \<Rightarrow> u64 \<Rightarrow> nat \<Rightarrow> 'd sim \<Rightarrow> 'd sim res" where
  "steady_loop D inc 0 s = Inr s"
| "steady_loop D inc (Suc n) s = rbind (steady_cycle D inc s) (steady_loop D inc n)"

text \<open>\<open>uart_chipfront.tick()\<close>\<close>

definition chip_uart_tick :: "'d pin_ops \<Rightarrow> int \<Rightarrow> uart \<times> 'd sim \<Rightarrow> (uart \<times> 'd sim) res" where
  "chip_uart_tick T d us =
     rbind (uart_tick d (pin_get T ''CHIP_UART_M_TXD'' (sim_dut (snd us))) (fst us)) (\<lambda>u.
     Inr (u, set_pin T ''CHIP_UART_M_RXD'' (rxd u) (snd us)))"

text \<open>The bodies of the two loading loops; they differ in the order of the tick and the dump.\<close>

definition memory_cycle :: "'d pin_ops \<Rightarrow> 'd dut_ops \<Rightarrow> u64 \<Rightarrow> int \<Rightarrow> uart \<times> 'd sim \<Rightarrow> (uart \<times> 'd sim) res" where
  "memory_cycle T D inc d us =
     rbind (steady_cycle D inc (snd us)) (\<lambda>s. chip_uart_tick T d (fst us, s))"

definition program_cycle :: "'d pin_ops \<Rightarrow> 'd dut_ops \<Rightarrow> u64 \<Rightarrow> int \<Rightarrow> uart \<times> 'd sim \<Rightarrow> (uart \<times> 'd sim) res" where
  "program_cycle T D inc d us =
     rbind (eval_tick D (advance inc (set_clock D True (snd us)))) (\<lambda>s.
     rbind (eval_tick D (advance inc (set_clock D False (dump s)))) (\<lambda>s.
     rbind (chip_uart_tick T d (fst us, s)) (\<lambda>(u, s).
     Inr (u, dump s))))"

text \<open>\<open>while (!in_stream.empty() || top.CHIP_UART_M_RXD == 0)\<close>\<close>

fun wait_loop :: "(uart \<times> 'd sim \<Rightarrow> (uart \<times> 'd sim) res) \<Rightarrow> nat \<Rightarrow> uart \<times> 'd sim \<Rightarrow> (uart \<times> 'd sim) res" where
  "wait_loop cycle 0 us = (if load_done (fst us) then Inr us else Inl Diverges)"
| "wait_loop cycle (Suc n) us = (if load_done (fst us) then Inr us else rbind (cycle us) (wait_loop cycle n))"

definition load_memory ::
  "'d pin_ops \<Rightarrow> 'd dut_ops \<Rightarrow> u64 \<Rightarrow> int \<Rightarrow> (string \<Rightarrow> string option) \<Rightarrow> nat \<Rightarrow> string option \<Rightarrow> uart \<times> 'd sim \<Rightarrow> (uart \<times> 'd sim) res" where
  "load_memory T D inc d fs fuel dma_file us =
     (case dma_file of
        None \<Rightarrow> Inr us
      | Some n \<Rightarrow>
          rbind (readMemFile2ChipkitDMA (in_stream (fst us)) (fs n)) (\<lambda>q.
          wait_loop (memory_cycle T D inc d) fuel ((fst us)\<lparr>in_stream := q\<rparr>, set_pin T ''CHIP_ASPSEL'' 0 (snd us))))"

definition load_program ::
  "'d pin_ops \<Rightarrow> 'd dut_ops \<Rightarrow> u64 \<Rightarrow> int \<Rightarrow> (string \<Rightarrow> string option) \<Rightarrow> nat \<Rightarrow> string option \<Rightarrow> uart \<times> 'd sim \<Rightarrow> (uart \<times> 'd sim) res" where
  "load_program T D inc d fs fuel trace_file us =
     (case trace_file of
        None \<Rightarrow> Inl Null_pointer
      | Some n \<Rightarrow>
          rbind (readMemFile2ChipkitDMA (in_stream (fst us)) (fs n)) (\<lambda>q.
          wait_loop (program_cycle T D inc d) fuel ((fst us)\<lparr>in_stream := q\<rparr>, set_pin T ''CHIP_ASPSEL'' 1 (snd us))))"

text \<open>The state of the last loop. \<open>cm_stdout_strm\<close> is the local queue \<open>stdout_strm\<close>, from which the loop prints and takes the signal
  to stop.\<close>

record 'm chip_main =
  cm_std :: uart
  cm_mem :: 'm
  cm_ms :: u64
  cm_stdout_strm :: "u8 list"
  cm_last_size :: nat
  cm_printed :: "u8 list"
  cm_kill :: bool

definition check_stdout :: "'m chip_main \<Rightarrow> 'm chip_main" where
  "check_stdout c =
     (if cm_last_size c \<noteq> length (cm_stdout_strm c) then
        c\<lparr>cm_printed := cm_printed c @ [last (cm_stdout_strm c)], cm_last_size := length (cm_stdout_strm c),
          cm_kill := (cm_kill c \<or> last (cm_stdout_strm c) = 4)\<rparr>
      else c)"

text \<open>\<open>tick_signals(&uart_stdfront)\<close> and the check of \<open>stdout_strm\<close>.\<close>

definition chip_signals ::
  "'d pin_ops \<Rightarrow> int \<Rightarrow> ('m \<Rightarrow> 'd \<Rightarrow> ('m \<times> 'd) res) \<Rightarrow> 'm chip_main \<Rightarrow> 'd \<Rightarrow> ('m chip_main \<times> 'd) res" where
  "chip_signals T d rest c dut =
     rbind (uart_tick d (pin_get T ''STDUART_uart_txd'' dut) (cm_std c)) (\<lambda>u.
     rbind (rest (cm_mem c) (pin_set T ''STDUART_uart_rxd'' (rxd u) dut)) (\<lambda>(m, dut).
     Inr (check_stdout (c\<lparr>cm_std := u, cm_mem := m\<rparr>), dut)))"

definition count_ms :: "u64 \<Rightarrow> 'm chip_main \<Rightarrow> 'm chip_main" where
  "count_ms t c = (if t > cm_ms c * 1000 * 1000 * 1000 then c\<lparr>cm_ms := cm_ms c + 1\<rparr> else c)"

text \<open>\<open>while (not kill_sig && (--count > 0))\<close>\<close>

fun chip_run_loop ::
  "'d pin_ops \<Rightarrow> 'd dut_ops \<Rightarrow> u64 \<Rightarrow> int \<Rightarrow> ('m \<Rightarrow> 'd \<Rightarrow> ('m \<times> 'd) res) \<Rightarrow> nat \<Rightarrow> 'm chip_main \<times> 'd sim \<Rightarrow> ('m chip_main \<times> 'd sim) res" where
  "chip_run_loop T D inc d rest 0 cs = Inr cs"
| "chip_run_loop T D inc d rest (Suc n) cs =
     (if cm_kill (fst cs) \<or> n = 0 then Inr cs
      else rbind (run_cycle D inc (chip_signals T d rest) (count_ms (main_time (snd cs)) (fst cs), snd cs)) (chip_run_loop T D inc d rest n))"

text \<open>The set-up of the memory controller and the DRAM model (\<open>Mem_Ctrl\<close>), the wiring (\<open>Verilator_Wiring\<close>) and the output to the console are
  left out; the values of the two file names are those of the globals.\<close>

definition run_chipkit ::
  "'d pin_ops \<Rightarrow> 'd dut_ops \<Rightarrow> nat \<Rightarrow> bool \<Rightarrow> ('m \<Rightarrow> 'd \<Rightarrow> ('m \<times> 'd) res) \<Rightarrow> (string \<Rightarrow> string option) \<Rightarrow> nat \<Rightarrow> string option \<Rightarrow> string option
     \<Rightarrow> 'm \<Rightarrow> 'd sim \<Rightarrow> ('m chip_main \<times> 'd sim) res" where
  "run_chipkit T D fpga_clock active_reset rest fs fuel dma_file trace_file m s =
     (if fpga_clock = 0 then Inl Div_by_zero
      else
        (let inc = of_nat (500000 div fpga_clock)
         in rbind (set_baud 14) (\<lambda>(baud_sel, d).
            (let s = set_reset D active_reset s;
                 std = uart_init (pin_get T ''STDUART_uart_rxd'' (sim_dut s));
                 chip = (uart_init (pin_get T ''CHIP_UART_M_RXD'' (sim_dut s)))\<lparr>rxd := 1\<rparr>
             in rbind (reset_loop D inc 50 (set_pins T (chip_levels (ucast baud_sel)) s)) (\<lambda>s.
                rbind (steady_loop D inc 1000 (set_clock D False (set_reset D (\<not> active_reset) s))) (\<lambda>s.
                rbind (load_memory T D inc d fs fuel dma_file (chip, s)) (\<lambda>us.
                rbind (load_program T D inc d fs fuel trace_file us) (\<lambda>(chip, s).
                rbind (steady_loop D inc 1000 s) (\<lambda>s.
                rbind (steady_loop D inc 6 (set_reset D active_reset s)) (\<lambda>s.
                chip_run_loop T D inc d rest 10000
                  (\<lparr>cm_std = std, cm_mem = m, cm_ms = 1, cm_stdout_strm = [], cm_last_size = 0, cm_printed = [], cm_kill = False\<rparr>,
                   set_reset D (\<not> active_reset) s)))))))))))"

text \<open>The main program reads the file names into variables of its own that hide the globals of the same names, which stay
  empty.\<close>

definition chipkit_main ::
  "'d pin_ops \<Rightarrow> 'd dut_ops \<Rightarrow> nat \<Rightarrow> bool \<Rightarrow> ('m \<Rightarrow> 'd \<Rightarrow> ('m \<times> 'd) res) \<Rightarrow> (string \<Rightarrow> string option) \<Rightarrow> nat \<Rightarrow> string list
     \<Rightarrow> 'm \<Rightarrow> 'd sim \<Rightarrow> ('m chip_main \<times> 'd sim) res" where
  "chipkit_main T D fpga_clock active_reset rest fs fuel argv m s =
     rbind (parse_args chipkit_option argv no_options) (\<lambda>o1.
     if trace_opt o1 = None then Inl Assert_failed
     else (let global_dma_file = None; global_trace_file = None
           in run_chipkit T D fpga_clock active_reset rest fs fuel global_dma_file global_trace_file m s))"

section \<open>The serial port\<close>

text \<open>The states the sender goes through and the ticks it needs from there until it is idle with an empty queue.\<close>

definition uart_inv :: "nat \<Rightarrow> uart \<Rightarrow> bool" where
  "uart_inv d u \<longleftrightarrow> in_enable u \<and> 0 \<le> baud_count_in u
     \<and> (case in_state u of
          IDLE \<Rightarrow> baud_count_in u = 0 \<and> rxd u = 1
        | START_BAUD \<Rightarrow> False
        | START \<Rightarrow> baud_count_in u < int d \<and> 0 < baud_count_in u \<and> in_byte_progress u = 0 \<and> in_stream u \<noteq> []
        | BITS_BAUD \<Rightarrow> baud_count_in u < int d \<and> 1 \<le> in_byte_progress u \<and> in_byte_progress u \<le> 8 \<and> in_stream u \<noteq> []
        | BITS \<Rightarrow> 1 \<le> in_byte_progress u \<and> in_byte_progress u < 8 \<and> in_stream u \<noteq> []
        | STOP \<Rightarrow> baud_count_in u < 2 * int d)"

definition uart_rank :: "nat \<Rightarrow> uart \<Rightarrow> nat" where
  "uart_rank d u =
     (let k = 11 * d + 7; n = length (in_stream u); c = nat (baud_count_in u); p = in_byte_progress u
      in case in_state u of
           IDLE \<Rightarrow> n * k
         | START_BAUD \<Rightarrow> 0
         | START \<Rightarrow> (n - 1) * k + (10 * d + 7) + (d - c)
         | BITS_BAUD \<Rightarrow> (n - 1) * k + 2 * d + (8 - p) * (d + 1) + (d - c)
         | BITS \<Rightarrow> (n - 1) * k + 2 * d + (8 - p) * (d + 1)
         | STOP \<Rightarrow> n * k + (2 * d - c))"

lemma uart_receive_keeps:
  "in_state (uart_receive d t u) = in_state u" "in_stream (uart_receive d t u) = in_stream u"
  "in_enable (uart_receive d t u) = in_enable u" "baud_count_in (uart_receive d t u) = baud_count_in u"
  "in_byte_progress (uart_receive d t u) = in_byte_progress u" "rxd (uart_receive d t u) = rxd u"
  by (simp_all add: uart_receive_def Let_def split: uart_state_t.split)

lemma uart_receive_same: "uart_inv d (uart_receive e t u) = uart_inv d u" "uart_rank d (uart_receive e t u) = uart_rank d u"
  by (simp_all add: uart_inv_def uart_rank_def uart_receive_keeps cong: uart_state_t.case_cong)

lemma uart_send_steps:
  assumes "2 \<le> d" and "uart_inv d u"
  shows "\<exists>u'. uart_send (int d) u = Inr u' \<and> uart_inv d u' \<and> (\<not> load_done u \<longrightarrow> Suc (uart_rank d u') = uart_rank d u)"
proof (cases "in_state u")
  case IDLE
  show ?thesis
  proof (cases "in_stream u")
    case Nil
    with IDLE assms(2) show ?thesis by (simp add: uart_send_def uart_inv_def load_done_def)
  next
    case (Cons b bs)
    with IDLE assms show ?thesis by (simp add: uart_send_def uart_inv_def uart_rank_def Let_def algebra_simps)
  qed
next
  case START_BAUD
  with assms(2) show ?thesis by (simp add: uart_inv_def)
next
  case START
  with assms obtain b bs where "in_stream u = b # bs" by (auto simp: uart_inv_def neq_Nil_conv)
  with START assms show ?thesis
    by (cases "baud_count_in u + 1 = int d")
      (auto simp: uart_send_def uart_inv_def uart_rank_def Let_def algebra_simps nat_add_distrib)
next
  case BITS
  with assms obtain b bs where s: "in_stream u = b # bs" by (auto simp: uart_inv_def neq_Nil_conv)
  from BITS assms(2) have p: "in_byte_progress u < 8" by (simp add: uart_inv_def)
  then have "(8 - in_byte_progress u) * (d + 1) = (8 - Suc (in_byte_progress u)) * (d + 1) + (d + 1)"
    by (metis Suc_diff_Suc mult_Suc add.commute)
  with BITS assms s p show ?thesis
    by (auto simp: uart_send_def uart_inv_def uart_rank_def Let_def)
next
  case BITS_BAUD
  with assms obtain b bs where "in_stream u = b # bs" by (auto simp: uart_inv_def neq_Nil_conv)
  with BITS_BAUD assms show ?thesis
    by (cases "baud_count_in u + 1 = int d"; cases "in_byte_progress u = 8")
      (auto simp: uart_send_def uart_inv_def uart_rank_def Let_def nat_add_distrib)
next
  case STOP
  with assms show ?thesis
    by (cases "baud_count_in u + 1 = 2 * int d") (auto simp: uart_send_def uart_inv_def uart_rank_def Let_def nat_add_distrib)
qed

lemma uart_tick_steps:
  assumes "2 \<le> d" and "uart_inv d u"
  obtains u' where "uart_tick (int d) t u = Inr u'" "uart_inv d u'" "\<not> load_done u \<Longrightarrow> Suc (uart_rank d u') = uart_rank d u"
  using uart_send_steps [OF assms] by (auto simp: uart_tick_def uart_receive_same)

lemma load_done_rank:
  assumes "uart_inv d u" and "uart_rank d u = 0" and "2 \<le> d"
  shows "load_done u"
  using assms by (cases "in_state u") (auto simp: uart_inv_def uart_rank_def load_done_def Let_def)

lemma load_done_append:
  assumes "uart_inv d u" and "load_done u"
  shows "uart_inv d (u\<lparr>in_stream := q\<rparr>)" and "uart_rank d (u\<lparr>in_stream := q\<rparr>) \<le> length q * (11 * d + 7) + 2 * d"
  using assms by (cases "in_state u"; auto simp: uart_inv_def uart_rank_def load_done_def Let_def)+

section \<open>Clock cycles\<close>

text \<open>From \<open>s\<close> to \<open>s'\<close> the design has been clocked \<open>n\<close> times, high and low, with one level of the reset.\<close>

definition clocked :: "u64 \<Rightarrow> nat \<Rightarrow> 'd sim \<Rightarrow> 'd sim \<Rightarrow> bool" where
  "clocked inc n s s' \<longleftrightarrow> main_time s' = main_time s + of_nat (2 * n) * inc \<and> sim_reset s' = sim_reset s
     \<and> sim_evals s' = sim_evals s @ concat (replicate n [(True, sim_reset s), (False, sim_reset s)])"

lemma clocked_0: "clocked inc 0 s s"
  by (simp add: clocked_def)

lemma clocked_trans: "clocked inc m s1 s2 \<Longrightarrow> clocked inc n s2 s3 \<Longrightarrow> clocked inc (m + n) s1 s3"
  by (simp add: clocked_def replicate_add algebra_simps)

lemma clocked_Suc: "clocked inc 1 s1 s2 \<Longrightarrow> clocked inc n s2 s3 \<Longrightarrow> clocked inc (Suc n) s1 s3"
  using clocked_trans [of inc 1 s1 s2 n s3] by simp

lemma set_pin_same: "main_time (set_pin T n v s) = main_time s" "sim_reset (set_pin T n v s) = sim_reset s"
  "sim_evals (set_pin T n v s) = sim_evals s"
  by (simp_all add: set_pin_def)

lemma set_pins_same: "main_time (set_pins T ps s) = main_time s" "sim_reset (set_pins T ps s) = sim_reset s"
  "sim_evals (set_pins T ps s) = sim_evals s"
  by (induction ps arbitrary: s) (auto simp: set_pins_def set_pin_same)

lemma clocked_pin: "clocked inc n (set_pin T p v s) s' = clocked inc n s s'" "clocked inc n s (set_pin T p v s') = clocked inc n s s'"
  by (simp_all add: clocked_def set_pin_same)

lemma steady_cycle_ok:
  assumes "\<forall>d. is_ok (dut_eval D d)"
  obtains s' where "steady_cycle D inc s = Inr s'" "clocked inc 1 s s'"
proof -
  let ?s0 = "advance inc (set_clock D True s)"
  obtain d1 where 1: "eval_tick D ?s0 = Inr (?s0\<lparr>sim_dut := d1, sim_evals := sim_evals ?s0 @ [(sim_clock ?s0, sim_reset ?s0)]\<rparr>)"
    using eval_tick_Inr [OF assms, of ?s0] by blast
  let ?s1 = "advance inc (set_clock D False (dump (?s0\<lparr>sim_dut := d1, sim_evals := sim_evals ?s0 @ [(sim_clock ?s0, sim_reset ?s0)]\<rparr>)))"
  obtain d2 where 2: "eval_tick D ?s1 = Inr (?s1\<lparr>sim_dut := d2, sim_evals := sim_evals ?s1 @ [(sim_clock ?s1, sim_reset ?s1)]\<rparr>)"
    using eval_tick_Inr [OF assms, of ?s1] by blast
  have "steady_cycle D inc s = Inr (dump (?s1\<lparr>sim_dut := d2, sim_evals := sim_evals ?s1 @ [(sim_clock ?s1, sim_reset ?s1)]\<rparr>))"
    by (simp only: steady_cycle_def 1 2 rbind.simps)
  then show ?thesis
    by (rule that) (simp add: clocked_def set_clock_def advance_def dump_def)
qed

lemma steady_loop_ok:
  assumes "\<forall>d. is_ok (dut_eval D d)"
  shows "\<exists>s'. steady_loop D inc n s = Inr s' \<and> clocked inc n s s'"
proof (induction n arbitrary: s)
  case 0
  then show ?case by (simp add: clocked_0)
next
  case (Suc n)
  obtain s1 where "steady_cycle D inc s = Inr s1" "clocked inc 1 s s1" by (rule steady_cycle_ok [OF assms])
  with Suc.IH [of s1] clocked_Suc [of inc s s1 n] show ?case by auto
qed

lemma dump_pin: "dump (set_pin T n v s) = set_pin T n v (dump s)" "sim_dut (dump s) = sim_dut s"
  by (simp_all add: dump_def set_pin_def)

text \<open>The order of the tick and the dump in the two loops makes no difference.\<close>

lemma program_cycle_eq: "program_cycle T D inc d = memory_cycle T D inc d"
  by (rule ext) (simp add: program_cycle_def memory_cycle_def steady_cycle_def rbind_assoc chip_uart_tick_def dump_pin)

lemma memory_cycle_ok:
  assumes "\<forall>d. is_ok (dut_eval D d)" and "2 \<le> d" and "uart_inv d u"
  obtains u' s' where "memory_cycle T D inc (int d) (u, s) = Inr (u', s')" "uart_inv d u'" "clocked inc 1 s s'"
    "\<not> load_done u \<Longrightarrow> Suc (uart_rank d u') = uart_rank d u"
proof -
  obtain s1 where s1: "steady_cycle D inc s = Inr s1" "clocked inc 1 s s1" by (rule steady_cycle_ok [OF assms(1)])
  obtain u' where u': "uart_tick (int d) (pin_get T ''CHIP_UART_M_TXD'' (sim_dut s1)) u = Inr u'" "uart_inv d u'"
    "\<not> load_done u \<Longrightarrow> Suc (uart_rank d u') = uart_rank d u" using uart_tick_steps [OF assms(2,3)] by blast
  show ?thesis
    by (rule that [of u' "set_pin T ''CHIP_UART_M_RXD'' (rxd u') s1"])
      (use s1 u' in \<open>simp_all add: memory_cycle_def chip_uart_tick_def clocked_pin\<close>)
qed

lemma wait_loop_ok:
  assumes "\<forall>d. is_ok (dut_eval D d)" and "2 \<le> d" and "uart_inv d u" and "uart_rank d u \<le> fuel"
  shows "\<exists>u' s' k. wait_loop (memory_cycle T D inc (int d)) fuel (u, s) = Inr (u', s') \<and> uart_inv d u' \<and> load_done u'
    \<and> k \<le> uart_rank d u \<and> clocked inc k s s'"
  using assms(3,4)
proof (induction fuel arbitrary: u s)
  case 0
  then have "load_done u" using load_done_rank assms(2) by auto
  with 0 show ?case by (auto intro!: exI [of _ 0] clocked_0)
next
  case (Suc fuel)
  show ?case
  proof (cases "load_done u")
    case True
    with Suc show ?thesis by (auto intro!: exI [of _ 0] clocked_0)
  next
    case False
    obtain u1 s1 where c: "memory_cycle T D inc (int d) (u, s) = Inr (u1, s1)" "uart_inv d u1" "clocked inc 1 s s1"
      "Suc (uart_rank d u1) = uart_rank d u"
      using memory_cycle_ok [OF assms(1,2) Suc.prems(1), of T inc s] False by blast
    have "uart_rank d u1 \<le> fuel" using c(4) Suc.prems(2) by simp
    from Suc.IH [OF c(2) this, of s1] obtain u' s' k where k: "wait_loop (memory_cycle T D inc (int d)) fuel (u1, s1) = Inr (u', s')"
      "uart_inv d u'" "load_done u'" "k \<le> uart_rank d u1" "clocked inc k s1 s'" by blast
    have "Suc k \<le> uart_rank d u" using k(4) c(4) by simp
    with False c(1) k clocked_Suc [OF c(3) k(5)] show ?thesis by (intro exI [of _ u'] exI [of _ s'] exI [of _ "Suc k"]) simp
  qed
qed

lemma load_ok:
  assumes "\<forall>d. is_ok (dut_eval D d)" and "2 \<le> d" and "uart_inv d u" and "load_done u"
    and "length q * (11 * d + 7) + 2 * d \<le> fuel"
  shows "\<exists>u' s' k. wait_loop (memory_cycle T D inc (int d)) fuel (u\<lparr>in_stream := q\<rparr>, set_pin T n v s) = Inr (u', s') \<and> uart_inv d u'
    \<and> load_done u' \<and> k \<le> length q * (11 * d + 7) + 2 * d \<and> clocked inc k s s'"
proof -
  note r = load_done_append [OF assms(3,4), of q]
  from r(2) assms(5) have "uart_rank d (u\<lparr>in_stream := q\<rparr>) \<le> fuel" by simp
  from wait_loop_ok [OF assms(1,2) r(1) this, of T inc "set_pin T n v s"] r(2) show ?thesis
    by (auto simp: clocked_pin intro: le_trans)
qed

section \<open>The run of the program\<close>

text \<open>A serial port that has nothing to send, and what the loop keeps of its state.\<close>

definition std_quiet :: "'m chip_main \<Rightarrow> bool" where
  "std_quiet c \<longleftrightarrow> in_state (cm_std c) = IDLE \<and> in_stream (cm_std c) = [] \<and> cm_stdout_strm c = [] \<and> cm_last_size c = 0
     \<and> cm_printed c = [] \<and> \<not> cm_kill c"

lemma chip_signals_ok:
  assumes "\<forall>m d. is_ok (rest m d)" and "std_quiet c"
  obtains c' dut' where "chip_signals T d rest c dut = Inr (c', dut')" "std_quiet c'"
proof -
  let ?u = "uart_receive d (pin_get T ''STDUART_uart_txd'' dut) ((cm_std c)\<lparr>rxd := 1\<rparr>)"
  have u: "uart_tick d (pin_get T ''STDUART_uart_txd'' dut) (cm_std c) = Inr ?u"
    using assms(2) by (simp add: uart_tick_def uart_send_def std_quiet_def)
  obtain m dut' where m: "rest (cm_mem c) (pin_set T ''STDUART_uart_rxd'' (rxd ?u) dut) = Inr (m, dut')"
    using assms(1) by (metis is_ok_iff surj_pair)
  have "std_quiet (check_stdout (c\<lparr>cm_std := ?u, cm_mem := m\<rparr>))"
    using assms(2) by (simp add: std_quiet_def check_stdout_def uart_receive_keeps)
  with u m show ?thesis by (intro that) (simp_all add: chip_signals_def)
qed

lemma run_cycle_quiet:
  assumes "\<forall>d. is_ok (dut_eval D d)" and "\<forall>m d. is_ok (rest m d)" and "std_quiet c"
  obtains c' s' where "run_cycle D inc (chip_signals T d rest) (c, s) = Inr (c', s')" "std_quiet c'" "clocked inc 1 s s'"
proof -
  let ?s0 = "advance inc (set_clock D True s)"
  obtain c1 d0 where 0: "chip_signals T d rest c (sim_dut ?s0) = Inr (c1, d0)" "std_quiet c1"
    by (rule chip_signals_ok [OF assms(2,3)])
  let ?s0' = "?s0\<lparr>sim_dut := d0\<rparr>"
  obtain d1 where 1: "eval_tick D ?s0' = Inr (?s0'\<lparr>sim_dut := d1, sim_evals := sim_evals ?s0' @ [(sim_clock ?s0', sim_reset ?s0')]\<rparr>)"
    using eval_tick_Inr [OF assms(1), of ?s0'] by blast
  let ?s1 = "set_clock D False (dump (?s0'\<lparr>sim_dut := d1, sim_evals := sim_evals ?s0' @ [(sim_clock ?s0', sim_reset ?s0')]\<rparr>))"
  obtain d2 where 2: "eval_tick D ?s1 = Inr (?s1\<lparr>sim_dut := d2, sim_evals := sim_evals ?s1 @ [(sim_clock ?s1, sim_reset ?s1)]\<rparr>)"
    using eval_tick_Inr [OF assms(1), of ?s1] by blast
  have "run_cycle D inc (chip_signals T d rest) (c, s) =
      Inr (c1, dump (advance inc (?s1\<lparr>sim_dut := d2, sim_evals := sim_evals ?s1 @ [(sim_clock ?s1, sim_reset ?s1)]\<rparr>)))"
    by (simp only: run_cycle_def Let_def fst_conv snd_conv 0(1) 1 2 rbind.simps prod.case)
  then show ?thesis
    by (rule that [OF _ 0(2)]) (simp add: clocked_def set_clock_def advance_def dump_def)
qed

lemma chip_run_loop_ok:
  assumes "\<forall>d. is_ok (dut_eval D d)" and "\<forall>m d. is_ok (rest m d)" and "std_quiet c"
  shows "\<exists>c' s'. chip_run_loop T D inc d rest (Suc n) (c, s) = Inr (c', s') \<and> std_quiet c' \<and> clocked inc n s s'"
  using assms(3)
proof (induction n arbitrary: c s)
  case 0
  then show ?case by (simp add: clocked_0)
next
  case (Suc n)
  have "std_quiet (count_ms (main_time s) c)" using Suc.prems by (simp add: std_quiet_def count_ms_def)
  then obtain c1 s1 where 1: "run_cycle D inc (chip_signals T d rest) (count_ms (main_time s) c, s) = Inr (c1, s1)"
    "std_quiet c1" "clocked inc 1 s s1" by (rule run_cycle_quiet [OF assms(1,2)])
  from Suc.IH [OF 1(2), of s1] obtain c' s' where 2: "chip_run_loop T D inc d rest (Suc n) (c1, s1) = Inr (c', s')"
    "std_quiet c'" "clocked inc n s1 s'" by blast
  have "\<not> cm_kill c" using Suc.prems by (simp add: std_quiet_def)
  then have "chip_run_loop T D inc d rest (Suc (Suc n)) (c, s) = Inr (c', s')"
    using 1(1) 2(1) by (subst chip_run_loop.simps(2)) simp
  with 2(2) clocked_Suc [OF 1(3) 2(3)] show ?case by blast
qed

lemma set_baud_14: "set_baud 14 = Inr (14, int 16)"
  by (simp add: set_baud_def nth_res_def baud_table_def)

lemma chip_uart_start: "uart_inv 16 ((uart_init r)\<lparr>rxd := 1\<rparr>)" "load_done ((uart_init r)\<lparr>rxd := 1\<rparr>)"
  by (simp_all add: uart_inv_def uart_init_def load_done_def)

text \<open>What is in the files: nothing for a file name that is not given.\<close>

definition file_bytes :: "(string \<Rightarrow> string option) \<Rightarrow> string option \<Rightarrow> u8 list res" where
  "file_bytes fs file = (case file of None \<Rightarrow> Inr [] | Some n \<Rightarrow> readMemFile2ChipkitDMA [] (fs n))"

lemma load_memory_ok:
  assumes "\<forall>d. is_ok (dut_eval D d)" and "uart_inv 16 u" and "load_done u" and "file_bytes fs dma_file = Inr q"
    and "length q * 183 + 32 \<le> fuel"
  shows "\<exists>u' s' k. load_memory T D inc (int 16) fs fuel dma_file (u, s) = Inr (u', s') \<and> uart_inv 16 u' \<and> load_done u'
    \<and> k \<le> length q * 183 + 32 \<and> clocked inc k s s'"
proof (cases dma_file)
  case None
  with assms(2,3) show ?thesis by (auto simp: load_memory_def intro!: exI [of _ 0] clocked_0)
next
  case (Some n)
  then show ?thesis
    using load_ok [OF assms(1) _ assms(2,3), of q fuel T inc "''CHIP_ASPSEL''" 0 s] assms(3-5)
    by (simp add: load_memory_def file_bytes_def load_done_def)
qed

lemma load_program_ok:
  assumes "\<forall>d. is_ok (dut_eval D d)" and "uart_inv 16 u" and "load_done u" and "readMemFile2ChipkitDMA [] (fs n) = Inr q"
    and "length q * 183 + 32 \<le> fuel"
  shows "\<exists>u' s' k. load_program T D inc (int 16) fs fuel (Some n) (u, s) = Inr (u', s')
    \<and> k \<le> length q * 183 + 32 \<and> clocked inc k s s'"
  using load_ok [OF assms(1) _ assms(2,3), of q fuel T inc "''CHIP_ASPSEL''" 1 s] assms(3-5)
  by (auto simp: load_program_def load_done_def program_cycle_eq)

lemma boot_ok:
  assumes "\<forall>d. is_ok (dut_eval D d)" and "main_time s = 0" and "sim_evals s = []"
  shows "\<exists>s1 s2. reset_loop D inc 50 (set_pins T ps (set_reset D ar s)) = Inr s1
    \<and> steady_loop D inc 1000 (set_clock D False (set_reset D (\<not> ar) s1)) = Inr s2 \<and> sim_reset s2 = (\<not> ar)
    \<and> main_time s2 = of_nat 2100 * inc
    \<and> sim_evals s2 = concat (replicate 50 [(False, ar), (True, ar)]) @ concat (replicate 1000 [(True, \<not> ar), (False, \<not> ar)])"
proof -
  have f0: "main_time (set_pins T ps (set_reset D ar s)) = 0" "sim_evals (set_pins T ps (set_reset D ar s)) = []"
    "sim_reset (set_pins T ps (set_reset D ar s)) = ar"
    using assms(2,3) by (simp_all add: set_pins_same) (simp_all add: set_reset_def)
  from reset_loop_trace [OF assms(1), of inc 50 "set_pins T ps (set_reset D ar s)"] obtain s1 where
    s1: "reset_loop D inc 50 (set_pins T ps (set_reset D ar s)) = Inr s1" "main_time s1 = of_nat 100 * inc"
      "sim_evals s1 = concat (replicate 50 [(False, ar), (True, ar)])"
    using f0 by auto
  let ?s = "set_clock D False (set_reset D (\<not> ar) s1)"
  obtain s2 where s2: "steady_loop D inc 1000 ?s = Inr s2" "clocked inc 1000 ?s s2"
    using steady_loop_ok [OF assms(1)] by blast
  have f: "main_time ?s = of_nat 100 * inc" "sim_reset ?s = (\<not> ar)" "sim_evals ?s = concat (replicate 50 [(False, ar), (True, ar)])"
    using s1(2,3) by (simp_all add: set_clock_def set_reset_def)
  have "sim_reset s2 = (\<not> ar)" "main_time s2 = of_nat 2100 * inc"
    "sim_evals s2 = concat (replicate 50 [(False, ar), (True, ar)]) @ concat (replicate 1000 [(True, \<not> ar), (False, \<not> ar)])"
    using s2(2) unfolding clocked_def f by (simp_all add: algebra_simps)
  with s1(1) s2(1) show ?thesis by blast
qed

section \<open>Properties\<close>

text \<open>C18: the timeline of \<open>run_verilator\<close> in the ChipKit simulator, when it is called with the name of a program file in the global \<open>trace_file\<close>.
  The program as it is never gets there: its \<open>main\<close> sets a local variable of that name, so that the call finds the global empty and stops
  (\<open>chipkit_main_fails\<close>). With the name set, readable files, and a design and a memory side that do not fail,
  \<open>run_verilator\<close> runs through all its phases and ends: 50 cycles with the reset active, 1000 steady cycles, as many cycles as the serial port needs to send the
  memory contents and the program (at most 183 per byte and 32 per file), 1000 steady cycles, 6 with the reset active and 9999 of the program. What the
  chip prints cannot end it earlier: nothing is ever put into the queue in which the last loop looks for output and for the character 4 that
  stops the simulation, so nothing is printed either.\<close>

theorem chipkit_timeline:
  assumes ev: "\<forall>d. is_ok (dut_eval D d)" and re: "\<forall>m d. is_ok (rest m d)" and "0 < fpga_clock"
    and s: "main_time s = 0" "sim_evals s = []"
    and "file_bytes fs dma_file = Inr q1" and "readMemFile2ChipkitDMA [] (fs n) = Inr q2"
    and "length q1 * 183 + 32 \<le> fuel" and "length q2 * 183 + 32 \<le> fuel"
  shows "\<exists>c' s' k. run_chipkit T D fpga_clock ar rest fs fuel dma_file (Some n) m s = Inr (c', s')
    \<and> k \<le> (length q1 + length q2) * 183 + 64
    \<and> main_time s' = of_nat (2 * (50 + 1000 + k + 1000 + 6 + 9999)) * of_nat (500000 div fpga_clock)
    \<and> sim_evals s' = concat (replicate 50 [(False, ar), (True, ar)]) @ concat (replicate (1000 + k + 1000) [(True, \<not> ar), (False, \<not> ar)])
        @ concat (replicate 6 [(True, ar), (False, ar)]) @ concat (replicate 9999 [(True, \<not> ar), (False, \<not> ar)])
    \<and> cm_printed c' = [] \<and> \<not> cm_kill c'"
proof -
  let ?inc = "of_nat (500000 div fpga_clock) :: u64" and ?s0 = "set_reset D ar s"
  let ?chip = "(uart_init (pin_get T ''CHIP_UART_M_RXD'' (sim_dut ?s0)))\<lparr>rxd := 1\<rparr>"
  let ?c = "\<lparr>cm_std = uart_init (pin_get T ''STDUART_uart_rxd'' (sim_dut ?s0)), cm_mem = m, cm_ms = 1, cm_stdout_strm = [], cm_last_size = 0,
    cm_printed = [], cm_kill = False\<rparr>"
  from boot_ok [OF ev s, of ?inc T "chip_levels (ucast (14 :: u32))" ar] obtain s1 s2 where
    b: "reset_loop D ?inc 50 (set_pins T (chip_levels (ucast (14 :: u32))) ?s0) = Inr s1"
      "steady_loop D ?inc 1000 (set_clock D False (set_reset D (\<not> ar) s1)) = Inr s2" "sim_reset s2 = (\<not> ar)"
      "main_time s2 = of_nat 2100 * ?inc"
      "sim_evals s2 = concat (replicate 50 [(False, ar), (True, ar)]) @ concat (replicate 1000 [(True, \<not> ar), (False, \<not> ar)])" by blast
  from load_memory_ok [OF ev chip_uart_start assms(6,8), where T = T and inc = ?inc and s = s2] obtain u3 s3 k1 where
    l1: "load_memory T D ?inc (int 16) fs fuel dma_file (?chip, s2) = Inr (u3, s3)" "uart_inv 16 u3" "load_done u3"
      "k1 \<le> length q1 * 183 + 32" "clocked ?inc k1 s2 s3" by blast
  from load_program_ok [where fs = fs and n = n, OF ev l1(2,3) assms(7,9), where T = T and inc = ?inc and s = s3] obtain u4 s4 k2 where
    l2: "load_program T D ?inc (int 16) fs fuel (Some n) (u3, s3) = Inr (u4, s4)" "k2 \<le> length q2 * 183 + 32" "clocked ?inc k2 s3 s4" by blast
  obtain s5 where s5: "steady_loop D ?inc 1000 s4 = Inr s5" "clocked ?inc 1000 s4 s5" using steady_loop_ok [OF ev] by blast
  obtain s6 where s6: "steady_loop D ?inc 6 (set_reset D ar s5) = Inr s6" "clocked ?inc 6 (set_reset D ar s5) s6"
    using steady_loop_ok [OF ev] by blast
  have "std_quiet ?c" by (simp add: std_quiet_def uart_init_def)
  from chip_run_loop_ok [OF ev re this, of T ?inc "int 16" 9999 "set_reset D (\<not> ar) s6"] obtain c' s' where
    r: "chip_run_loop T D ?inc (int 16) rest 10000 (?c, set_reset D (\<not> ar) s6) = Inr (c', s')" "std_quiet c'"
      "clocked ?inc 9999 (set_reset D (\<not> ar) s6) s'" by auto
  have nz: "(fpga_clock = 0) = False" using assms(3) by simp
  have run: "run_chipkit T D fpga_clock ar rest fs fuel dma_file (Some n) m s = Inr (c', s')"
    by (simp only: run_chipkit_def nz if_False Let_def set_baud_14 rbind.simps prod.case b(1,2) l1(1) l2(1) s5(1) s6(1) r(1))
  define K where "K = k1 + k2 + 1000"
  have c25: "clocked ?inc K s2 s5" unfolding K_def using clocked_trans [OF clocked_trans [OF l1(5) l2(3)] s5(2)] .
  have K: "1000 + (k1 + k2) + 1000 = 1000 + K" "50 + 1000 + (k1 + k2) + 1000 + 6 + 9999 = 1050 + K + 6 + 9999" by (simp_all add: K_def)
  have t: "main_time s5 = of_nat (2 * (1050 + K)) * ?inc" "sim_evals s5 = concat (replicate 50 [(False, ar), (True, ar)])
      @ concat (replicate (1000 + K) [(True, \<not> ar), (False, \<not> ar)])"
    using c25 unfolding clocked_def b(3-5) by (simp add: algebra_simps) (use c25 in \<open>simp add: clocked_def b(3-5) replicate_add\<close>)
  have "main_time s' = of_nat (2 * (50 + 1000 + (k1 + k2) + 1000 + 6 + 9999)) * ?inc"
    unfolding K(2) using r(3) s6(2) t(1) unfolding clocked_def by (simp add: set_reset_def algebra_simps)
  moreover have "sim_evals s' = concat (replicate 50 [(False, ar), (True, ar)])
        @ concat (replicate (1000 + (k1 + k2) + 1000) [(True, \<not> ar), (False, \<not> ar)])
        @ concat (replicate 6 [(True, ar), (False, ar)]) @ concat (replicate 9999 [(True, \<not> ar), (False, \<not> ar)])"
    unfolding K(1) using r(3) s6(2) t(2) unfolding clocked_def by (simp add: set_reset_def add.assoc)
  ultimately show ?thesis
    using run r(2) l1(4) l2(2) by (intro exI [of _ c'] exI [of _ s'] exI [of _ "k1 + k2"]) (simp add: std_quiet_def)
qed

text \<open>A design of three pins that never fails, and a file of one word.\<close>

definition demo_pins :: "nat pin_ops" where
  "demo_pins = \<lparr>pin_get = (\<lambda>n d. 1), pin_set = (\<lambda>n v d. d)\<rparr>"

definition demo_fs :: "string \<Rightarrow> string option" where
  "demo_fs n = Some (concat (map (segment_text CHR '' '') demo_segments))"

theorem chipkit_timeline_witness:
  "\<exists>c' s' k. run_chipkit demo_pins demo_dut 250 True (\<lambda>m d. Inr (m + 1 :: nat, d)) demo_fs 4000 None (Some ''prog'') 0 demo_sim = Inr (c', s')
    \<and> k \<le> 3724 \<and> length (sim_evals s') = 2 * (12055 + k) \<and> cm_printed c' = []"
proof -
  let ?q = "concat (map (\<lambda>(a, bs). write_commands a bs) demo_segments)"
  have e: "\<forall>d. is_ok (dut_eval demo_dut d)" by (simp add: demo_dut_def)
  have g: "\<forall>m d. is_ok ((\<lambda>m d. Inr (m + 1 :: nat, d)) m (d :: nat))" by simp
  have i: "0 < (250 :: nat)" "main_time demo_sim = 0" "sim_evals demo_sim = []" by (simp_all add: demo_sim_def)
  have f: "file_bytes demo_fs None = Inr []" by (simp add: file_bytes_def)
  have q: "readMemFile2ChipkitDMA [] (demo_fs ''prog'') = Inr ?q" unfolding demo_fs_def by (rule demo_file)
  have l: "length ?q = 20" by (simp add: demo_segments_def)
  have b: "length ([] :: u8 list) * 183 + 32 \<le> 4000" "length ?q * 183 + 32 \<le> 4000" unfolding l by simp_all
  from chipkit_timeline [where fs = demo_fs and n = "''prog''", OF e g i f q b, of demo_pins True 0] obtain c' s' k where
    r: "run_chipkit demo_pins demo_dut 250 True (\<lambda>m d. Inr (m + 1 :: nat, d)) demo_fs 4000 None (Some ''prog'') 0 demo_sim = Inr (c', s')"
      "k \<le> (length ([] :: u8 list) + length ?q) * 183 + 64"
      "sim_evals s' = concat (replicate 50 [(False, True), (True, True)]) @ concat (replicate (1000 + k + 1000) [(True, \<not> True), (False, \<not> True)])
        @ concat (replicate 6 [(True, True), (False, True)]) @ concat (replicate 9999 [(True, \<not> True), (False, \<not> True)])"
      "cm_printed c' = []" by blast
  have "length (concat (replicate j [x, y])) = 2 * j" for j :: nat and x y :: "bool \<times> bool" by (induction j) simp_all
  then have "length (sim_evals s') = 2 * (12055 + k)" unfolding r(3) by simp
  with r(1,2,4) show ?thesis unfolding l by auto
qed

text \<open>The ChipKit simulator never gets as far. Whatever its command line, \<open>main\<close> ends with a failed assertion, a null pointer in place of a value,
  or, with a trace file given and the design running, at the empty global \<open>trace_file\<close> that the variable of \<open>main\<close> hides.\<close>

theorem chipkit_main_fails:
  assumes "\<forall>d. is_ok (dut_eval D d)" and "0 < fpga_clock" and "main_time s = 0" and "sim_evals s = []"
  shows "chipkit_main T D fpga_clock ar rest fs fuel argv m s =
    Inl (case parse_args chipkit_option argv no_options of
           Inl e \<Rightarrow> e
         | Inr o1 \<Rightarrow> if trace_opt o1 = None then Assert_failed else Null_pointer)"
proof (cases "parse_args chipkit_option argv no_options")
  case (Inl e)
  then show ?thesis by (simp add: chipkit_main_def)
next
  case (Inr o1)
  let ?inc = "of_nat (500000 div fpga_clock) :: u64"
  from boot_ok [OF assms(1,3,4), of ?inc T "chip_levels (ucast (14 :: u32))" ar] obtain s1 s2 where
    b: "reset_loop D ?inc 50 (set_pins T (chip_levels (ucast (14 :: u32))) (set_reset D ar s)) = Inr s1"
      "steady_loop D ?inc 1000 (set_clock D False (set_reset D (\<not> ar) s1)) = Inr s2" by blast
  have nz: "(fpga_clock = 0) = False" using assms(2) by simp
  have "run_chipkit T D fpga_clock ar rest fs fuel None None m s = Inl Null_pointer"
    by (simp only: run_chipkit_def nz if_False Let_def set_baud_14 rbind.simps prod.case b load_memory_def load_program_def option.case)
  with Inr show ?thesis by (simp add: chipkit_main_def)
qed

theorem chipkit_main_fails_witness:
  "chipkit_main demo_pins demo_dut 250 True (\<lambda>m d. Inr (m, d)) demo_fs 4000 [''-tracefile'', ''prog''] (0 :: nat) demo_sim = Inl Null_pointer"
proof -
  have e: "\<forall>d. is_ok (dut_eval demo_dut d)" by (simp add: demo_dut_def)
  have i: "0 < (250 :: nat)" "main_time demo_sim = 0" "sim_evals demo_sim = []" by (simp_all add: demo_sim_def)
  have "parse_args chipkit_option [''-tracefile'', ''prog''] no_options = Inr (no_options\<lparr>trace_opt := Some ''prog''\<rparr>)"
    by (simp add: chipkit_option_def)
  then show ?thesis using chipkit_main_fails [OF e i, of demo_pins True "\<lambda>m d. Inr (m, d)" demo_fs 4000 "[''-tracefile'', ''prog'']" 0] by simp
qed

end
