(* ===== verification/Vcs_Chipkit.thy ===== *)
theory Vcs_Chipkit
  imports Complex_Main Sim_Frontend Chipkit_Loader
begin

text \<open>
  The rest of the VCS ChipKit frontend (src/sim/chipkit/vcs_chipkit_frontend.cc): its own copies of the port cache and of the lookup
  by name, written as the loops of the source and proved equal to those of the VPI frontend, the status line it prints, and
  a whole session: the two initialisation tasks, the set-up of the structures and the calls of \<open>$tick\<close>, each of which calls \<open>tick_chip\<close>
  (include/sim/chipkit/tick.h, modelled in \<open>Chipkit_Loader\<close>). The bindings and the pin levels are in \<open>Sim_Frontend\<close>. The theorem on sessions says which files they
  need; since nothing in this build assigns the names of the files, \<open>vcs_session_stops\<close> says that the first tick dereferences an empty optional.

  The numbers of the status line are exact; the rounding of \<open>double\<close> and the six digits of \<open>std::to_string\<close> are left out. A quotient by
  zero, which is not finite, is kept apart because no comparison with it holds.
\<close>

section \<open>Port cache\<close>

text \<open>\<open>while (vpiHandle arg_handle = vpi_scan(arg_iter)) ports.push_back(arg_handle)\<close>\<close>

fun scan_args :: "'h list \<Rightarrow> 'h list \<Rightarrow> 'h list" where
  "scan_args [] ports = ports"
| "scan_args (arg_handle # arg_iter) ports = scan_args arg_iter (ports @ [arg_handle])"

definition chipkit_init_input_signals :: "'h list option \<Rightarrow> 'h vpi_ports \<Rightarrow> 'h vpi_ports" where
  "chipkit_init_input_signals arg_iter p =
     (case arg_iter of None \<Rightarrow> p | Some it \<Rightarrow> p\<lparr>vp_inputs := scan_args it (vp_inputs p)\<rparr>)"

definition chipkit_init_output_signals :: "'h list option \<Rightarrow> 'h vpi_ports \<Rightarrow> 'h vpi_ports" where
  "chipkit_init_output_signals arg_iter p =
     (case arg_iter of None \<Rightarrow> p | Some it \<Rightarrow> p\<lparr>vp_outputs := scan_args it (vp_outputs p)\<rparr>)"

text \<open>One of the two loops of \<open>getHandle\<close>, which go on to \<open>rest\<close> when no name matches.\<close>

fun match_name :: "('h \<Rightarrow> string) \<Rightarrow> string \<Rightarrow> 'h list \<Rightarrow> 'h res \<Rightarrow> 'h res" where
  "match_name nm name [] rest = rest"
| "match_name nm name (arg # args) rest = (if nm arg = name then Inr arg else match_name nm name args rest)"

definition chipkit_getHandle :: "('h \<Rightarrow> string) \<Rightarrow> 'h vpi_ports \<Rightarrow> string \<Rightarrow> 'h res" where
  "chipkit_getHandle nm p name = match_name nm name (vp_inputs p) (match_name nm name (vp_outputs p) (Inl (Exit 1)))"

lemma scan_args_append: "scan_args it ports = ports @ it"
  by (induction it arbitrary: ports) simp_all

lemma match_name_find: "match_name nm name args rest = (case find (\<lambda>h. nm h = name) args of None \<Rightarrow> rest | Some h \<Rightarrow> Inr h)"
  by (induction args) auto

lemma chipkit_port_cache:
  "chipkit_init_input_signals = init_input_signals" "chipkit_init_output_signals = init_output_signals" "chipkit_getHandle = getHandle"
  by (auto simp: fun_eq_iff chipkit_init_input_signals_def init_input_signals_def chipkit_init_output_signals_def init_output_signals_def
      chipkit_getHandle_def getHandle_def scan_args_append match_name_find split: option.split)

section \<open>Status line\<close>

datatype quotient = Finite rat | Not_finite

fun divided :: "rat \<Rightarrow> rat \<Rightarrow> quotient" where
  "divided a b = (if b = 0 then Not_finite else Finite (a / b))"

fun below :: "quotient \<Rightarrow> rat \<Rightarrow> bool" where
  "below (Finite q) r = (q < r)"
| "below Not_finite r = False"

fun over :: "quotient \<Rightarrow> rat \<Rightarrow> quotient" where
  "over (Finite q) r = Finite (q / r)"
| "over Not_finite r = Not_finite"

record status =
  st_time :: "rat \<times> string"
  st_mem :: "(rat \<times> string) option"
  st_rate :: "(quotient \<times> string) option"
  st_counts :: "(int \<times> int) option"

text \<open>The micro sign of the source is two bytes.\<close>

definition time_string :: "u64 \<Rightarrow> rat \<times> string" where
  "time_string time =
     (if time < 1000 * 1000 * 1000 then (of_nat (unat time) / 1000 / 1000, [CHR 0xC2, CHR 0xB5, CHR ''s''])
      else (of_nat (unat time) / 1000 / 1000 / 1000, ''ms''))"

definition mem_norm :: "u64 \<Rightarrow> rat \<times> string" where
  "mem_norm mem =
     (if mem < 1024 then (of_nat (unat mem), ''B'')
      else if mem < 1024 * 1024 then (of_nat (unat mem) / 1024, ''KB'')
      else if mem < 1024 * 1024 * 1024 then (of_nat (unat mem) / 1024 / 1024, ''MB'')
      else (of_nat (unat mem) / 1024 / 1024 / 1024, ''GB''))"

definition mem_rate :: "u64 \<Rightarrow> u64 \<Rightarrow> quotient \<times> string" where
  "mem_rate mem time =
     (let time_d = of_nat (unat time) / 10 ^ 12;
          mem_rate_norm = divided (of_nat (unat mem)) time_d
      in if below mem_rate_norm 1024 then (mem_rate_norm, ''B/s'')
         else if below mem_rate_norm (1024 * 1024) then (over mem_rate_norm 1024, ''KB/s'')
         else if below mem_rate_norm (1024 * 1024 * 1024) then (over (over mem_rate_norm 1024) 1024, ''MB/s'')
         else (over (over (over mem_rate_norm 1024) 1024) 1024, ''GB/s''))"

definition chipkit_print_state :: "bool \<Rightarrow> int \<Rightarrow> int \<Rightarrow> u64 \<Rightarrow> u64 \<Rightarrow> status" where
  "chipkit_print_state has_ddr writes_emitted reads_emitted mem time =
     (if has_ddr then \<lparr>st_time = time_string time, st_mem = Some (mem_norm mem), st_rate = Some (mem_rate mem time),
        st_counts = Some (writes_emitted, reads_emitted)\<rparr>
      else \<lparr>st_time = time_string time, st_mem = None, st_rate = None, st_counts = None\<rparr>)"

section \<open>Sessions\<close>

text \<open>What a session runs against: the build, the simulator, the names of the ports, the files, the globals \<open>baud_div\<close>, \<open>dma_file\<close> and \<open>trace_file\<close>, the part of
  \<open>tick_signals\<close> after \<open>ctrl->tick()\<close> over the state of the memory channels, and the three global counters in that state.\<close>

record ('h, 'v, 'm) vcs_env =
  ve_has_ddr :: bool
  ve_clock_inc :: u64
  ve_vpi :: "('h, 'v) vpi_ops"
  ve_name :: "'h \<Rightarrow> string"
  ve_files :: "string \<Rightarrow> string option"
  ve_baud_div :: int
  ve_dma_file :: "string option"
  ve_trace_file :: "string option"
  ve_rest :: "'m \<Rightarrow> 'm res"
  ve_counters :: "'m \<Rightarrow> u64 \<times> int \<times> int"

text \<open>What the frontend keeps between the calls of \<open>$tick\<close>: the time, the two serial ports, the globals of tick.h with the two pins, and the memory channels;
  \<open>vs_out\<close> collects the status lines.\<close>

record 'm vcs_state =
  vs_time :: u64
  vs_std :: uart
  vs_chip :: uart
  vs_globals :: chip_globals
  vs_mem :: 'm
  vs_out :: "status list"

text \<open>One call of \<open>$tick\<close>, with the levels of the two \<open>txd\<close> pins; \<open>active_reset\<close> is 1 in this build.\<close>

definition vcs_tick :: "('h, 'v, 'm) vcs_env \<Rightarrow> 'h \<Rightarrow> 'h \<Rightarrow> u8 \<times> u8 \<Rightarrow> 'm vcs_state \<Rightarrow> 'm vcs_state res" where
  "vcs_tick E aspsel reset txd s =
     (let main_time = vs_time s + ve_clock_inc E;
          (memory_transacted, writes_emitted, reads_emitted) = ve_counters E (vs_mem s);
          out = (if main_time mod 1000 = 0
                 then vs_out s @ [chipkit_print_state (ve_has_ddr E) writes_emitted reads_emitted memory_transacted main_time] else vs_out s);
          chip = (\<lambda>asp res (stdfront, chipfront, g, m). tick_chip (ve_files E) (ve_rest E) True (ve_baud_div E) (ve_dma_file E) (ve_trace_file E)
                    (fst txd) (snd txd) stdfront chipfront g m)
      in rbind (chipkit_tick_calltf (ve_clock_inc E) (ve_vpi E) aspsel reset chip (vs_time s, vs_std s, vs_chip s, vs_globals s, vs_mem s))
           (\<lambda>(t, sf, cf, g, m). Inr \<lparr>vs_time = t, vs_std = sf, vs_chip = cf, vs_globals = g, vs_mem = m, vs_out = out\<rparr>))"

fun vcs_ticks :: "('h, 'v, 'm) vcs_env \<Rightarrow> 'h \<Rightarrow> 'h \<Rightarrow> (u8 \<times> u8) list \<Rightarrow> 'm vcs_state \<Rightarrow> 'm vcs_state res" where
  "vcs_ticks E aspsel reset [] s = Inr s"
| "vcs_ticks E aspsel reset (txd # txds) s = rbind (vcs_tick E aspsel reset txd s) (vcs_ticks E aspsel reset txds)"

text \<open>The globals at the start, after \<open>init_structures\<close> has put 1 on the \<open>rxd\<close> pins and 0 on \<open>CHIP_ASPSEL\<close>; \<open>r\<close> is the level of the reset pin.\<close>

definition vcs_start :: "bool \<Rightarrow> 'm \<Rightarrow> 'm vcs_state" where
  "vcs_start r m = \<lparr>vs_time = 0, vs_std = uart_init 1, vs_chip = uart_init 1,
     vs_globals = \<lparr>has_moved_memory = False, has_moved_program = False, has_reset = False, static_steps = 0, chip_aspsel = False, chip_reset = r\<rparr>,
     vs_mem = m, vs_out = []\<rparr>"

text \<open>The order in which a test bench calls the tasks.\<close>

definition vcs_session ::
  "('h, 'v, 'm) vcs_env \<Rightarrow> u32 \<Rightarrow> (u8 \<times> u8) list \<Rightarrow> 'h list option \<Rightarrow> 'h list option \<Rightarrow> bool \<Rightarrow> 'v \<Rightarrow> 'm \<Rightarrow> ('v \<times> 'm vcs_state) res" where
  "vcs_session E baud_sel txds ins outs r v m =
     (let p = chipkit_init_output_signals outs (chipkit_init_input_signals ins \<lparr>vp_inputs = [], vp_outputs = []\<rparr>)
      in rbind (chipkit_init_structures (ve_has_ddr E) baud_sel (ve_vpi E) (ve_name E) p v) (\<lambda>(bs, v).
         rbind (chipkit_getHandle (ve_name E) p ''reset'') (\<lambda>reset.
         rbind (chipkit_getHandle (ve_name E) p ''CHIP_ASPSEL'') (\<lambda>aspsel.
         rbind (vcs_ticks E aspsel reset txds (vcs_start r m)) (\<lambda>s. Inr (v, s))))))"

definition chipkit_ports_ok :: "bool \<Rightarrow> u32 \<Rightarrow> ('h, 'v) vpi_ops \<Rightarrow> ('h \<Rightarrow> string) \<Rightarrow> 'h vpi_ports \<Rightarrow> bool" where
  "chipkit_ports_ok ddr sel vpi nm p \<longleftrightarrow>
     list_all (signal_bound vpi nm p) ((if ddr then chipkit_memory_signals else []) @ chipkit_uart_signals)
     \<and> list_all (\<lambda>(n, x). is_ok (getHandle nm p n)) (chipkit_pins sel)"

lemma chipkit_init_structures_ok: "is_ok (chipkit_init_structures ddr sel vpi nm p v) \<longleftrightarrow> chipkit_ports_ok ddr sel vpi nm p"
  unfolding chipkit_init_structures_def chipkit_ports_ok_def list_all_append bind_signals_ok [symmetric] put_constants_ok [of vpi nm p _ v, symmetric]
  by (auto simp: is_ok_iff rbind_eq_Inr)

text \<open>The files that are still to be read, one in each tick. A name that is not there cannot be read.\<close>

definition readable :: "(string \<Rightarrow> string option) \<Rightarrow> string option \<Rightarrow> bool" where
  "readable fs file \<longleftrightarrow> (case file of None \<Rightarrow> False | Some n \<Rightarrow> is_ok (readMemFile2ChipkitDMA [] (fs n)))"

definition pending :: "string option \<Rightarrow> string option \<Rightarrow> chip_globals \<Rightarrow> string option list" where
  "pending dma_file trace_file g = (if dma_file \<noteq> None \<and> \<not> has_moved_memory g then [dma_file] else [])
     @ (if has_moved_program g then [] else [trace_file])"

definition vcs_inv :: "string option \<Rightarrow> 'm vcs_state \<Rightarrow> bool" where
  "vcs_inv dma_file s \<longleftrightarrow> in_state (vs_std s) = IDLE \<and> in_state (vs_chip s) = IDLE \<and> in_stream (vs_chip s) = []
     \<and> (dma_file = None \<longrightarrow> \<not> has_moved_memory (vs_globals s) \<and> \<not> has_reset (vs_globals s))"

lemma chip_fill_pending:
  assumes "in_stream cf = []"
  shows "case chip_fill fs dma_file trace_file cf g of
      Inl e \<Rightarrow> \<not> list_all (readable fs) (take 1 (pending dma_file trace_file g))
    | Inr (cf', g') \<Rightarrow> list_all (readable fs) (take 1 (pending dma_file trace_file g))
        \<and> pending dma_file trace_file g' = tl (pending dma_file trace_file g) \<and> in_state cf' = in_state cf \<and> has_reset g' = has_reset g
        \<and> (dma_file = None \<longrightarrow> has_moved_memory g' = has_moved_memory g)"
  using assms
  by (cases dma_file; cases trace_file)
    (auto simp: chip_fill_def pending_def readable_def is_ok_iff res_simps split: sum.split)

lemma chip_reset_step_keeps:
  "pending dma_file trace_file (chip_reset_step ar cf g) = pending dma_file trace_file g"
  "has_moved_memory (chip_reset_step ar cf g) = has_moved_memory g"
  "\<not> has_moved_memory g \<Longrightarrow> has_reset (chip_reset_step ar cf g) = has_reset g"
  by (simp_all add: chip_reset_step_def pending_def Let_def)

lemma uart_tick_from_idle: "in_state s = IDLE \<Longrightarrow> \<exists>s'. uart_tick d t s = Inr s'"
  by (simp add: uart_tick_def uart_send_def)

lemma tick_chip_ok:
  assumes idle: "in_state sf = IDLE" "in_state cf = IDLE" "in_stream cf = []"
    and nodma: "dma_file = None \<longrightarrow> \<not> has_moved_memory g \<and> \<not> has_reset g" and rest: "dma_file \<noteq> None \<Longrightarrow> \<forall>m. is_ok (rest m)"
  shows "case tick_chip fs rest ar d dma_file trace_file t1 t2 sf cf g m of
      Inl e \<Rightarrow> \<not> list_all (readable fs) (take 1 (pending dma_file trace_file g))
    | Inr (sf', cf', g', m') \<Rightarrow> list_all (readable fs) (take 1 (pending dma_file trace_file g))
        \<and> pending dma_file trace_file g' = tl (pending dma_file trace_file g)
        \<and> in_state sf' = IDLE \<and> in_state cf' = IDLE \<and> in_stream cf' = [] \<and> (dma_file = None \<longrightarrow> \<not> has_moved_memory g' \<and> \<not> has_reset g')"
proof (cases "chip_fill fs dma_file trace_file cf g")
  case (Inl e)
  with chip_fill_pending [OF idle(3), of fs dma_file trace_file g] show ?thesis by (simp add: tick_chip_def)
next
  case (Inr r)
  obtain cf1 g1 where r: "r = (cf1, g1)" by (cases r)
  from chip_fill_pending [OF idle(3), of fs dma_file trace_file g] have f: "list_all (readable fs) (take 1 (pending dma_file trace_file g))"
    "pending dma_file trace_file g1 = tl (pending dma_file trace_file g)" "in_state cf1 = IDLE" "has_reset g1 = has_reset g"
    "dma_file = None \<longrightarrow> has_moved_memory g1 = has_moved_memory g" using idle(2) by (simp_all add: Inr r)
  let ?g = "chip_reset_step ar cf1 g1"
  have no: "\<not> has_moved_memory ?g \<and> \<not> has_reset ?g" if "dma_file = None"
    using nodma f(4,5) that by (simp add: chip_reset_step_keeps)
  obtain cf2 where 2: "uart_tick d t2 cf1 = Inr cf2" using uart_tick_from_idle [OF f(3)] by blast
  obtain sf2 where 3: "uart_tick d t1 sf = Inr sf2" using uart_tick_from_idle [OF idle(1)] by blast
  have "\<exists>sf3 m'. (if has_reset ?g then rbind (uart_tick d t1 sf) (\<lambda>sf. rbind (rest m) (\<lambda>m. Inr (sf, m))) else Inr (sf, m)) = Inr (sf3, m')"
  proof (cases "has_reset ?g")
    case True
    then have "dma_file \<noteq> None" using no by blast
    then obtain m' where "rest m = Inr m'" using rest by (auto simp: is_ok_iff)
    then show ?thesis by (simp add: 3)
  qed simp
  then obtain sf3 m' where "(if has_reset ?g then rbind (uart_tick d t1 sf) (\<lambda>sf. rbind (rest m) (\<lambda>m. Inr (sf, m))) else Inr (sf, m)) = Inr (sf3, m')"
    by blast
  then have "tick_chip fs rest ar d dma_file trace_file t1 t2 sf cf g m = Inr (sf\<lparr>rxd := rxd sf3\<rparr>, cf\<lparr>rxd := rxd cf2\<rparr>, ?g, m')"
    by (simp add: tick_chip_def Inr r 2 Let_def)
  then show ?thesis using f(1,2) no idle by (simp add: chip_reset_step_keeps(1))
qed

lemma short_handle: "VCSShortHandle vpi h = (if vpi_size vpi h < 64 then Inr h else Inl (Exit 1))"
proof -
  have "vpi_size vpi h div 32 > 1 \<longleftrightarrow> \<not> vpi_size vpi h < 64" by linarith
  then show ?thesis by (simp only: VCSShortHandle_def if_not_P if_P split: if_split) simp
qed

lemma vcs_tick_ok:
  fixes E :: "('h, 'v, 'm) vcs_env" and aspsel reset :: 'h
  assumes inv: "vcs_inv (ve_dma_file E) s" and rest: "ve_dma_file E \<noteq> None \<Longrightarrow> \<forall>m. is_ok (ve_rest E m)"
  defines "short \<equiv> vpi_size (ve_vpi E) aspsel < 64 \<and> vpi_size (ve_vpi E) reset < 64"
    and "files \<equiv> pending (ve_dma_file E) (ve_trace_file E)" and "inc \<equiv> ve_clock_inc E"
  shows "case vcs_tick E aspsel reset txd s of
      Inl e \<Rightarrow> \<not> (short \<and> list_all (readable (ve_files E)) (take 1 (files (vs_globals s))))
    | Inr s' \<Rightarrow> short \<and> list_all (readable (ve_files E)) (take 1 (files (vs_globals s))) \<and> files (vs_globals s') = tl (files (vs_globals s))
        \<and> vcs_inv (ve_dma_file E) s' \<and> vs_time s' = vs_time s + inc
        \<and> map st_time (vs_out s') = map st_time (vs_out s) @ (if (vs_time s + inc) mod 1000 = 0 then [time_string (vs_time s + inc)] else [])"
proof -
  let ?t = "tick_chip (ve_files E) (ve_rest E) True (ve_baud_div E) (ve_dma_file E) (ve_trace_file E) (fst txd) (snd txd)
    (vs_std s) (vs_chip s) (vs_globals s) (vs_mem s)"
  let ?out = "if (vs_time s + inc) mod 1000 = 0 then vs_out s @ [case ve_counters E (vs_mem s) of (b, w, r) \<Rightarrow>
      chipkit_print_state (ve_has_ddr E) w r b (vs_time s + inc)] else vs_out s"
  have eq: "vcs_tick E aspsel reset txd s = (if short then rbind ?t (\<lambda>(sf, cf, g, m).
      Inr \<lparr>vs_time = vs_time s + inc, vs_std = sf, vs_chip = cf, vs_globals = g, vs_mem = m, vs_out = ?out\<rparr>) else Inl (Exit 1))"
    by (cases "ve_counters E (vs_mem s)"; cases ?t)
      (simp_all add: vcs_tick_def chipkit_tick_calltf_def short_handle short_def inc_def Let_def split: prod.split)
  have out: "map st_time ?out = map st_time (vs_out s) @ (if (vs_time s + inc) mod 1000 = 0 then [time_string (vs_time s + inc)] else [])"
    by (simp add: chipkit_print_state_def split: prod.split)
  have i: "in_state (vs_std s) = IDLE" "in_state (vs_chip s) = IDLE" "in_stream (vs_chip s) = []"
    "ve_dma_file E = None \<longrightarrow> \<not> has_moved_memory (vs_globals s) \<and> \<not> has_reset (vs_globals s)"
    using inv by (simp_all add: vcs_inv_def)
  note c = tick_chip_ok [OF i rest, where m = "vs_mem s" and fs = "ve_files E" and trace_file = "ve_trace_file E" and ar = True
      and d = "ve_baud_div E" and ?t1.0 = "fst txd" and ?t2.0 = "snd txd", folded files_def]
  show ?thesis
  proof (cases ?t)
    case (Inl e)
    then show ?thesis using c by (simp add: eq del: One_nat_def)
  next
    case (Inr x)
    then show ?thesis using c out by (cases x) (simp add: eq vcs_inv_def del: One_nat_def)
  qed
qed

text \<open>The calls of \<open>$tick\<close> whose time is printed.\<close>

definition printed :: "u64 \<Rightarrow> u64 \<Rightarrow> nat \<Rightarrow> u64 list" where
  "printed t inc n = filter (\<lambda>x. x mod 1000 = 0) (map (\<lambda>k. t + of_nat k * inc) [1..<Suc n])"

lemma printed_Suc: "printed t inc (Suc n) = (if (t + inc) mod 1000 = 0 then [t + inc] else []) @ printed (t + inc) inc n"
proof -
  have "[1..<Suc (Suc n)] = 1 # map Suc [1..<Suc n]" by (simp add: map_Suc_upt upt_conv_Cons del: upt_Suc)
  then show ?thesis by (simp add: printed_def o_def algebra_simps del: upt_Suc)
qed

lemma list_all_take_Suc: "list_all P (take (Suc n) xs) \<longleftrightarrow> list_all P (take 1 xs) \<and> list_all P (take n (tl xs))"
  by (cases xs) simp_all

lemma vcs_ticks_ok:
  fixes E :: "('h, 'v, 'm) vcs_env" and aspsel reset :: 'h
  assumes rest: "ve_dma_file E \<noteq> None \<Longrightarrow> \<forall>m. is_ok (ve_rest E m)"
  defines "short \<equiv> vpi_size (ve_vpi E) aspsel < 64 \<and> vpi_size (ve_vpi E) reset < 64"
    and "files \<equiv> pending (ve_dma_file E) (ve_trace_file E)"
  shows "vcs_inv (ve_dma_file E) s \<Longrightarrow> case vcs_ticks E aspsel reset txds s of
      Inl e \<Rightarrow> \<not> ((txds = [] \<or> short) \<and> list_all (readable (ve_files E)) (take (length txds) (files (vs_globals s))))
    | Inr s' \<Rightarrow> (txds = [] \<or> short) \<and> list_all (readable (ve_files E)) (take (length txds) (files (vs_globals s)))
        \<and> vs_time s' = vs_time s + of_nat (length txds) * ve_clock_inc E
        \<and> map st_time (vs_out s') = map st_time (vs_out s) @ map time_string (printed (vs_time s) (ve_clock_inc E) (length txds))"
proof (induction txds arbitrary: s)
  case Nil
  then show ?case by (simp add: printed_def)
next
  case (Cons txd txds)
  note tick = vcs_tick_ok [where aspsel = aspsel and reset = reset and txd = txd, OF Cons.prems rest, folded short_def files_def]
  show ?case
  proof (cases "vcs_tick E aspsel reset txd s")
    case (Inl e)
    then show ?thesis using tick by (auto simp: list_all_take_Suc simp del: One_nat_def)
  next
    case (Inr s1)
    then have 1: "short" "list_all (readable (ve_files E)) (take 1 (files (vs_globals s)))" "files (vs_globals s1) = tl (files (vs_globals s))"
      "vcs_inv (ve_dma_file E) s1" "vs_time s1 = vs_time s + ve_clock_inc E"
      "map st_time (vs_out s1) = map st_time (vs_out s) @
         (if (vs_time s + ve_clock_inc E) mod 1000 = 0 then [time_string (vs_time s + ve_clock_inc E)] else [])"
      using tick by simp_all
    show ?thesis using Cons.IH [OF 1(4)] 1 Inr
      by (auto simp: printed_Suc list_all_take_Suc algebra_simps simp del: One_nat_def split: sum.splits)
  qed
qed

section \<open>Properties\<close>

fun unit_factor :: "string \<Rightarrow> rat" where
  "unit_factor u = (if hd u = CHR ''K'' then 1024 else if hd u = CHR ''M'' then 1024 ^ 2 else if hd u = CHR ''G'' then 1024 ^ 3 else 1)"

text \<open>The status line shows the right amounts: the number and its unit give the bytes transferred, and the bytes per second of simulated time
  (picoseconds); the number is below 1024 but for the largest unit and at least one but for the smallest.\<close>

theorem status_line_exact:
  assumes "chipkit_print_state True w r mem time = st" and "time \<noteq> 0"
  shows "case (st_mem st, st_rate st) of
      (Some (q, u), Some (Finite q', u')) \<Rightarrow> q * unit_factor u = of_nat (unat mem) \<and> (hd u \<noteq> CHR ''G'' \<longrightarrow> q < 1024) \<and> (hd u \<noteq> CHR ''B'' \<longrightarrow> 1 \<le> q)
        \<and> q' * unit_factor u' = of_nat (unat mem) * 10 ^ 12 / of_nat (unat time) \<and> (hd u' \<noteq> CHR ''G'' \<longrightarrow> q' < 1024) \<and> (hd u' \<noteq> CHR ''B'' \<longrightarrow> 1 \<le> q')
    | _ \<Rightarrow> False"
proof -
  have "unat time \<noteq> 0" using assms(2) by (simp add: unat_eq_0)
  then have t: "of_nat (unat time) \<noteq> (0 :: rat)" by (simp only: of_nat_eq_0_iff not_False_eq_True)
  have c: "x < (y :: u64) \<longleftrightarrow> (of_nat (unat x) :: rat) < of_nat (unat y)" for x y
    by (simp only: word_less_nat_alt of_nat_less_iff)
  have m: "case mem_norm mem of (q, u) \<Rightarrow> q * unit_factor u = of_nat (unat mem) \<and> (hd u \<noteq> CHR ''G'' \<longrightarrow> q < 1024) \<and> (hd u \<noteq> CHR ''B'' \<longrightarrow> 1 \<le> q)"
    by (simp add: mem_norm_def c)
  define x where "x = of_nat (unat mem) * 10 ^ 12 / (of_nat (unat time) :: rat)"
  have "divided (of_nat (unat mem)) (of_nat (unat time) / 10 ^ 12) = Finite x" using t by (simp add: x_def)
  then have r: "case mem_rate mem time of (Finite q, u) \<Rightarrow> q * unit_factor u = x \<and> (hd u \<noteq> CHR ''G'' \<longrightarrow> q < 1024) \<and> (hd u \<noteq> CHR ''B'' \<longrightarrow> 1 \<le> q)
      | _ \<Rightarrow> False"
    by (simp add: mem_rate_def Let_def)
  show ?thesis using m r assms(1) by (auto simp: chipkit_print_state_def x_def split: prod.splits quotient.splits)
qed

text \<open>C31: a session of the VCS ChipKit build (the initialisation tasks and then some ticks, one per entry of \<open>txds\<close>) succeeds exactly when every signal it binds and every pin it drives is among the ports the simulator
  announced, the short ones with less than 64 bits; if the clock is ticked at all, the two pins of the clock task have less than 64 bits too; and the files that the ticks read, one per tick, can be read:
  first the one named by the global \<open>dma_file\<close>, if it is set, then the one named by \<open>trace_file\<close>, which must be set. The time is then the number of ticks times half a clock period, and
  the status line has been printed at the multiples of 1000 picoseconds. Only when \<open>dma_file\<close> is set can the memory channels be reached, and then they are assumed not to fail
  (\<open>ve_rest\<close>). Nothing in this build assigns the two globals, so a session with a tick never succeeds (\<open>vcs_session_stops\<close>).\<close>

theorem vcs_session_exact:
  fixes E :: "('h, 'v, 'm) vcs_env" and outs ins :: "'h list" and sel :: u32 and txds :: "(u8 \<times> u8) list"
  assumes rest: "ve_dma_file E \<noteq> None \<Longrightarrow> \<forall>m. is_ok (ve_rest E m)" and "p = \<lparr>vp_inputs = ins, vp_outputs = outs\<rparr>"
  defines "ok \<equiv> chipkit_ports_ok (ve_has_ddr E) sel (ve_vpi E) (ve_name E) p
      \<and> (txds = [] \<or> list_all (signal_bound (ve_vpi E) (ve_name E) p) [(True, ''reset''), (True, ''CHIP_ASPSEL'')])
      \<and> list_all (readable (ve_files E)) (take (length txds) ((if ve_dma_file E \<noteq> None then [ve_dma_file E] else []) @ [ve_trace_file E]))"
  shows "case vcs_session E sel txds (Some ins) (Some outs) r v m of
      Inl e \<Rightarrow> \<not> ok
    | Inr (v', s) \<Rightarrow> ok \<and> vs_time s = of_nat (length txds) * ve_clock_inc E
        \<and> map st_time (vs_out s) = map time_string (printed 0 (ve_clock_inc E) (length txds))"
proof -
  let ?ddr = "ve_has_ddr E" and ?vpi = "ve_vpi E" and ?nm = "ve_name E"
  let ?i = "chipkit_init_structures ?ddr sel ?vpi ?nm p v"
  have p: "chipkit_init_output_signals (Some outs) (chipkit_init_input_signals (Some ins) \<lparr>vp_inputs = [], vp_outputs = []\<rparr>) = p"
    by (simp add: chipkit_port_cache init_input_signals_def init_output_signals_def assms(2))
  show ?thesis
  proof (cases ?i)
    case (Inl e)
    then have "\<not> chipkit_ports_ok ?ddr sel ?vpi ?nm p" using chipkit_init_structures_ok [of ?ddr sel ?vpi ?nm p v] by simp
    then show ?thesis using Inl by (simp add: vcs_session_def p ok_def)
  next
    case (Inr x)
    then have pok: "chipkit_ports_ok ?ddr sel ?vpi ?nm p" using chipkit_init_structures_ok [of ?ddr sel ?vpi ?nm p v] by simp
    then have "signal_bound ?vpi ?nm p (False, ''reset'')" "signal_bound ?vpi ?nm p (False, ''CHIP_ASPSEL'')"
      by (simp_all add: chipkit_ports_ok_def chipkit_uart_signals_def)
    then obtain hr ha where h: "getHandle ?nm p ''reset'' = Inr hr" "getHandle ?nm p ''CHIP_ASPSEL'' = Inr ha"
      by (auto simp: signal_bound_def split: sum.splits)
    have b: "list_all (signal_bound ?vpi ?nm p) [(True, ''reset''), (True, ''CHIP_ASPSEL'')] \<longleftrightarrow> vpi_size ?vpi ha < 64 \<and> vpi_size ?vpi hr < 64"
      by (auto simp: signal_bound_def h)
    have s: "vcs_inv (ve_dma_file E) (vcs_start r m)" "vs_time (vcs_start r m) = 0" "vs_out (vcs_start r m) = []"
      "pending (ve_dma_file E) (ve_trace_file E) (vs_globals (vcs_start r m)) = (if ve_dma_file E \<noteq> None then [ve_dma_file E] else []) @ [ve_trace_file E]"
      by (simp_all add: vcs_inv_def vcs_start_def uart_init_def pending_def)
    define F where "F = (if ve_dma_file E \<noteq> None then [ve_dma_file E] else []) @ [ve_trace_file E]"
    note t = vcs_ticks_ok [where E = E and aspsel = ha and reset = hr and txds = txds, OF rest s(1), unfolded s(2-4), folded F_def]
    show ?thesis
      using pok Inr t unfolding ok_def b F_def [symmetric]
      by (cases "vcs_ticks E ha hr txds (vcs_start r m)")
        (auto simp: vcs_session_def p chipkit_port_cache(3) h split: prod.split)
  qed
qed

text \<open>The build as it is, in which \<open>trace_file\<close> and \<open>dma_file\<close> are never assigned: the first tick dereferences the empty \<open>trace_file\<close>.\<close>

theorem vcs_session_stops:
  assumes "chipkit_ports_ok (ve_has_ddr E) sel (ve_vpi E) (ve_name E) \<lparr>vp_inputs = ins, vp_outputs = outs\<rparr>" and "txds \<noteq> []"
    and "list_all (signal_bound (ve_vpi E) (ve_name E) \<lparr>vp_inputs = ins, vp_outputs = outs\<rparr>) [(True, ''reset''), (True, ''CHIP_ASPSEL'')]"
    and "ve_dma_file E = None" and "ve_trace_file E = None"
  shows "vcs_session E sel txds (Some ins) (Some outs) r v m = Inl Null_pointer"
proof -
  let ?p = "\<lparr>vp_inputs = ins, vp_outputs = outs\<rparr>" and ?vpi = "ve_vpi E" and ?nm = "ve_name E"
  have p: "chipkit_init_output_signals (Some outs) (chipkit_init_input_signals (Some ins) \<lparr>vp_inputs = [], vp_outputs = []\<rparr>) = ?p"
    by (simp add: chipkit_port_cache init_input_signals_def init_output_signals_def)
  obtain x where i: "chipkit_init_structures (ve_has_ddr E) sel ?vpi ?nm ?p v = Inr x"
    using assms(1) chipkit_init_structures_ok [of "ve_has_ddr E" sel ?vpi ?nm ?p v] by (auto simp: is_ok_iff)
  from assms(3) obtain hr ha where h: "getHandle ?nm ?p ''reset'' = Inr hr" "getHandle ?nm ?p ''CHIP_ASPSEL'' = Inr ha"
    "vpi_size ?vpi ha < 64" "vpi_size ?vpi hr < 64"
    by (auto simp: signal_bound_def split: sum.splits)
  obtain txd txds' where t: "txds = txd # txds'" using assms(2) by (cases txds) auto
  have "vcs_tick E ha hr txd (vcs_start r m) = Inl Null_pointer"
    using h(3,4) assms(4,5)
    by (simp add: vcs_tick_def chipkit_tick_calltf_def short_handle Let_def tick_chip_def chip_fill_def vcs_start_def uart_init_def
        split: prod.split)
  then show ?thesis by (cases x) (simp add: vcs_session_def p i h(1,2) t chipkit_port_cache(3))
qed

text \<open>Four ticks of half a nanosecond.\<close>

definition demo_chip_ports :: "string list" where
  "demo_chip_ports = map snd (chipkit_memory_signals @ chipkit_uart_signals) @ map fst (chipkit_pins 0)"

lemma getHandle_chip: "n \<in> set demo_chip_ports \<Longrightarrow> getHandle (\<lambda>h. h) \<lparr>vp_inputs = demo_chip_ports, vp_outputs = []\<rparr> n = Inr n"
  using getHandle_ok [of "\<lambda>h. h" "\<lparr>vp_inputs = demo_chip_ports, vp_outputs = []\<rparr>" n]
    getHandle_name [of "\<lambda>h. h" "\<lparr>vp_inputs = demo_chip_ports, vp_outputs = []\<rparr>" n]
  by (auto simp: is_ok_iff)

definition demo_vcs :: "string option \<Rightarrow> (string, string \<Rightarrow> u32, unit) vcs_env" where
  "demo_vcs trace = \<lparr>ve_has_ddr = True, ve_clock_inc = 500, ve_vpi = demo_names, ve_name = (\<lambda>h. h), ve_files = (\<lambda>n. Some (concat (map (segment_text CHR '' '') demo_segments))),
     ve_baud_div = 16, ve_dma_file = None, ve_trace_file = trace, ve_rest = Inr, ve_counters = (\<lambda>m. (0, 0, 0))\<rparr>"

lemma demo_chip_bound:
  "chipkit_ports_ok True 14 demo_names (\<lambda>h. h) \<lparr>vp_inputs = demo_chip_ports, vp_outputs = []\<rparr>"
  "list_all (signal_bound demo_names (\<lambda>h. h) \<lparr>vp_inputs = demo_chip_ports, vp_outputs = []\<rparr>) [(True, ''reset''), (True, ''CHIP_ASPSEL'')]"
proof -
  let ?p = "\<lparr>vp_inputs = demo_chip_ports, vp_outputs = []\<rparr>"
  have b: "signal_bound demo_names (\<lambda>h. h) ?p (short, n)" if "n \<in> set demo_chip_ports" for short n
    using getHandle_chip [OF that] by (simp add: signal_bound_def demo_names_def)
  have "list_all (signal_bound demo_names (\<lambda>h. h) ?p) (chipkit_memory_signals @ chipkit_uart_signals)"
    using b unfolding list_all_iff demo_chip_ports_def by fastforce
  moreover have "is_ok (getHandle (\<lambda>h. h) ?p (fst x))" if "x \<in> set (chipkit_pins 14)" for x
    using that getHandle_chip [of "fst x"] by (auto simp: demo_chip_ports_def chipkit_pins_def)
  then have "list_all (\<lambda>(n, x). is_ok (getHandle (\<lambda>h. h) ?p n)) (chipkit_pins 14)" by (auto simp: list_all_iff)
  ultimately show "chipkit_ports_ok True 14 demo_names (\<lambda>h. h) ?p" by (simp add: chipkit_ports_ok_def)
  show "list_all (signal_bound demo_names (\<lambda>h. h) ?p) [(True, ''reset''), (True, ''CHIP_ASPSEL'')]"
    using b [of "''reset''"] b [of "''CHIP_ASPSEL''"] by (simp add: demo_chip_ports_def chipkit_uart_signals_def)
qed

theorem vcs_session_exact_witness:
  "case vcs_session (demo_vcs (Some ''prog'')) 14 (replicate 4 (1, 1)) (Some demo_chip_ports) (Some []) False (\<lambda>h. 7) () of
      Inl e \<Rightarrow> False
    | Inr (v', s) \<Rightarrow> vs_time s = 2000 \<and> map st_time (vs_out s) = map time_string [1000, 2000]"
proof -
  have e: "ve_has_ddr (demo_vcs (Some ''prog''))" "ve_clock_inc (demo_vcs (Some ''prog'')) = 500" "ve_vpi (demo_vcs (Some ''prog'')) = demo_names"
    "ve_name (demo_vcs (Some ''prog'')) = (\<lambda>h. h)" "ve_dma_file (demo_vcs (Some ''prog'')) = None" "ve_trace_file (demo_vcs (Some ''prog'')) = Some ''prog''"
    "readable (ve_files (demo_vcs (Some ''prog''))) (Some ''prog'')"
    using demo_file by (simp_all add: demo_vcs_def readable_def)
  have "printed 0 500 4 = [1000, 2000]" by code_simp
  with vcs_session_exact [where E = "demo_vcs (Some ''prog'')" and ins = demo_chip_ports and outs = "[]" and sel = 14 and txds = "replicate 4 (1, 1)"
      and r = False and v = "\<lambda>h. 7" and m = "()", OF _ refl, unfolded e(2-6)] demo_chip_bound e(1,7)
  show ?thesis by (auto split: sum.splits)
qed

theorem vcs_session_stops_witness:
  "vcs_session (demo_vcs None) 14 [(1, 1)] (Some demo_chip_ports) (Some []) False (\<lambda>h. 7) () = Inl Null_pointer"
  by (rule vcs_session_stops) (use demo_chip_bound in \<open>simp_all add: demo_vcs_def\<close>)

end
