(* ===== verification/Board_Tests.thy ===== *)
theory Board_Tests
  imports "HOL-Library.Multiset" Fpga_Main
begin

text \<open>
  The stand-alone programs of the repository: the two deprecated test benches (src/deprecated/xsim_sanity.cc, xsim_vector_sanity.cc), which
  talk to the board's registers without the runtime, and the two programs under tests/. The board is the parameter of \<open>Mmio_Backend\<close> and
  \<open>Fpga_Main\<close>; the tasks of the simulator that move memory are the parameter \<open>dpi_ops\<close>, and the client library of
  tests/alloc_test.cc is the pair of functions it calls.

  A peek stores its value only when it succeeds; the test benches ignore every return code. The polling loops take a bound, as in
  \<open>Mmio_Backend\<close>. What they print is returned; messages without data are left out.
\<close>

section \<open>Register access of the test benches\<close>

text \<open>\<open>fpga_pci_peek(handle, addr, &var)\<close> with its result ignored.\<close>

definition peek_into :: "'d mmio_device \<Rightarrow> u32 \<Rightarrow> u32 \<Rightarrow> 'd \<Rightarrow> u32 \<times> 'd" where
  "peek_into dev addr var d = (case dev_peek dev addr d of (rc, v, d') \<Rightarrow> (if rc = 0 then v else var, d'))"

definition poke_at :: "'d mmio_device \<Rightarrow> u32 \<Rightarrow> u32 \<Rightarrow> 'd \<Rightarrow> 'd" where
  "poke_at dev addr v d = snd (dev_poke dev (ucast addr) v d)"

text \<open>\<open>ready = 0; while (!ready) fpga_pci_peek(handle, addr, &ready);\<close>\<close>

fun wait_flag :: "nat \<Rightarrow> 'd mmio_device \<Rightarrow> u32 \<Rightarrow> 'd \<Rightarrow> (u32 \<times> 'd) res" where
  "wait_flag 0 dev addr d = Inl Diverges"
| "wait_flag (Suc n) dev addr d =
     (let (ready, d) = peek_into dev addr 0 d in if ready = 0 then wait_flag n dev addr d else Inr (ready, d))"

text \<open>The loop of \<open>write_command\<close> and of xsim_sanity.cc, from word \<open>i\<close> for \<open>n\<close> words.\<close>

fun write_words :: "nat \<Rightarrow> hw_map \<Rightarrow> 'd mmio_device \<Rightarrow> u32 list \<Rightarrow> nat \<Rightarrow> nat \<Rightarrow> 'd \<Rightarrow> 'd res" where
  "write_words polls hw dev p i 0 d = Inr d"
| "write_words polls hw dev p i (Suc n) d =
     rbind (wait_flag polls dev (CMD_READY hw) d) (\<lambda>(ready, d).
     rbind (nth_res p (int i)) (\<lambda>w.
     write_words polls hw dev p (Suc i) n (poke_at dev (CMD_VALID hw) 1 (poke_at dev (CMD_BITS hw) w d))))"

definition write_command :: "nat \<Rightarrow> hw_map \<Rightarrow> 'd mmio_device \<Rightarrow> u32 list \<Rightarrow> 'd \<Rightarrow> 'd res" where
  "write_command polls hw dev p d = write_words polls hw dev p 0 5 d"

text \<open>The loop of \<open>get_response\<close>; one variable takes both the flag and the word.\<close>

fun read_words :: "nat \<Rightarrow> hw_map \<Rightarrow> 'd mmio_device \<Rightarrow> nat \<Rightarrow> 'd \<Rightarrow> (u32 list \<times> 'd) res" where
  "read_words polls hw dev 0 d = Inr ([], d)"
| "read_words polls hw dev (Suc n) d =
     rbind (wait_flag polls dev (RESP_VALID hw) d) (\<lambda>(ready, d).
     (let (w, d) = peek_into dev (RESP_BITS hw) ready d
      in rbind (read_words polls hw dev n (poke_at dev (RESP_READY hw) 1 d)) (\<lambda>(ws, d). Inr (w # ws, d))))"

definition get_response :: "nat \<Rightarrow> hw_map \<Rightarrow> 'd mmio_device \<Rightarrow> 'd \<Rightarrow> (u32 list \<times> 'd) res" where
  "get_response polls hw dev d = read_words polls hw dev 3 d"

section \<open>xsim\_sanity.cc\<close>

text \<open>The loop that prints the response; its variable has no value until a peek succeeds.\<close>

fun print_words :: "nat \<Rightarrow> hw_map \<Rightarrow> 'd mmio_device \<Rightarrow> nat \<Rightarrow> 'd \<Rightarrow> (u32 list \<times> 'd) res" where
  "print_words polls hw dev 0 d = Inr ([], d)"
| "print_words polls hw dev (Suc n) d =
     rbind (wait_flag polls dev (RESP_VALID hw) d) (\<lambda>(ready, d).
     (case dev_peek dev (RESP_BITS hw) d of (rc, dat, d) \<Rightarrow>
        if rc \<noteq> 0 then Inl No_value
        else rbind (print_words polls hw dev n (poke_at dev (RESP_READY hw) 1 d)) (\<lambda>(ws, d). Inr (dat # ws, d))))"

text \<open>\<open>main\<close> (with \<open>USEMAIN\<close>) or \<open>test_main_hook\<close>.\<close>

definition xsim_sanity :: "bool \<Rightarrow> nat \<Rightarrow> hw_map \<Rightarrow> 'd mmio_device \<Rightarrow> 'd fpga_ops \<Rightarrow> 'd \<Rightarrow> (u32 list \<times> 'd) res" where
  "xsim_sanity usemain polls hw dev ops d =
     (let d = snd (fpga_mgmt_init ops d);
          p = [0x2200407b, 0x0, 0x20, 0x0, 0x40]
      in rbind (if usemain then (case fpga_pci_attach ops 0 d of (rc, bar, d) \<Rightarrow> if rc \<noteq> 0 then Inl (Exit 1) else Inr d) else Inr d) (\<lambda>d.
         rbind (write_words polls hw dev p 0 5 d) (\<lambda>d.
         rbind (print_words polls hw dev 3 d) (\<lambda>(ws, d).
         Inr (ws, snd (fpga_mgmt_close ops d))))))"

section \<open>xsim\_vector\_sanity.cc\<close>

text \<open>The buffer of the read callback, and the callback: the simulator sends eight bytes ahead of the data. The loop counter of the code is an \<open>int\<close>,
  so that this is the loop for buffers below \<open>2 ^ 31\<close> bytes.\<close>

record rdbuf =
  send_rdbuf_to_c_read_buffer :: u64
  send_rdbuf_to_c_buffer_size :: nat

definition no_rdbuf :: rdbuf where
  "no_rdbuf = \<lparr>send_rdbuf_to_c_read_buffer = 0, send_rdbuf_to_c_buffer_size = 0\<rparr>"

definition setup_send_rdbuf_to_c :: "u64 \<Rightarrow> nat \<Rightarrow> rdbuf \<Rightarrow> rdbuf" where
  "setup_send_rdbuf_to_c read_buffer buffer_size r =
     r\<lparr>send_rdbuf_to_c_read_buffer := read_buffer, send_rdbuf_to_c_buffer_size := buffer_size\<rparr>"

fun rdbuf_loop :: "u64 \<Rightarrow> u64 \<Rightarrow> nat \<Rightarrow> nat \<Rightarrow> bytes \<Rightarrow> bytes" where
  "rdbuf_loop dst rd_buf i 0 mem = mem"
| "rdbuf_loop dst rd_buf i (Suc n) mem = rdbuf_loop dst rd_buf (Suc i) n (mem(dst + of_nat i := mem (rd_buf + of_nat (i + 8))))"

definition send_rdbuf_to_c :: "u64 \<Rightarrow> rdbuf \<Rightarrow> bytes \<Rightarrow> int \<times> bytes" where
  "send_rdbuf_to_c rd_buf r mem =
     (0, rdbuf_loop (send_rdbuf_to_c_read_buffer r) rd_buf 0 (send_rdbuf_to_c_buffer_size r) mem)"

text \<open>What the test bench calls of the simulator: slot, channel, size, buffer, board address.\<close>

record 'd dpi_ops =
  init_ddr :: "'d \<Rightarrow> 'd"
  deselect_atg_hw :: "'d \<Rightarrow> 'd"
  sv_fpga_start_buffer_to_cl :: "int \<Rightarrow> int \<Rightarrow> nat \<Rightarrow> u64 \<Rightarrow> u64 \<Rightarrow> bytes \<Rightarrow> 'd \<Rightarrow> 'd"
  sv_fpga_start_cl_to_buffer :: "int \<Rightarrow> int \<Rightarrow> nat \<Rightarrow> u64 \<Rightarrow> u64 \<Rightarrow> bytes \<Rightarrow> 'd \<Rightarrow> bytes \<times> 'd"

definition do_dma_write :: "'d dpi_ops \<Rightarrow> u64 \<Rightarrow> nat \<Rightarrow> u64 \<Rightarrow> int \<Rightarrow> int \<Rightarrow> bytes \<Rightarrow> 'd \<Rightarrow> int \<times> 'd" where
  "do_dma_write dpi buffer sz address channel slot_id mem d =
     (0, sv_fpga_start_buffer_to_cl dpi slot_id channel sz buffer address mem d)"

definition do_dma_read :: "'d dpi_ops \<Rightarrow> u64 \<Rightarrow> nat \<Rightarrow> u64 \<Rightarrow> int \<Rightarrow> int \<Rightarrow> bytes \<Rightarrow> 'd \<Rightarrow> int \<times> bytes \<times> 'd" where
  "do_dma_read dpi buffer sz address channel slot_id mem d =
     (0, sv_fpga_start_cl_to_buffer dpi slot_id channel sz buffer address mem d)"

text \<open>\<open>buf[i] = i\<close> and \<open>buf[i]\<close> for a buffer of \<open>uint16_t\<close>.\<close>

definition store16 :: "u64 \<Rightarrow> nat \<Rightarrow> 16 word \<Rightarrow> bytes \<Rightarrow> bytes" where
  "store16 buf i w mem = mem_write mem (buf + 2 * of_nat i) [ucast w, ucast (drop_bit 8 w)]"

definition load16 :: "bytes \<Rightarrow> u64 \<Rightarrow> nat \<Rightarrow> 16 word" where
  "load16 mem buf i = ucast (mem (buf + 2 * of_nat i)) + 0x100 * ucast (mem (buf + 2 * of_nat i + 1))"

fun fill_buffer :: "u64 \<Rightarrow> nat \<Rightarrow> nat \<Rightarrow> bytes \<Rightarrow> bytes" where
  "fill_buffer buf i 0 mem = mem"
| "fill_buffer buf i (Suc n) mem = fill_buffer buf (Suc i) n (store16 buf i (of_nat i) mem)"

text \<open>\<open>test_main_hook\<close> (the FPGA variant of the file has no definition of the DMA functions it calls); \<open>read_buffer\<close> and \<open>wrbuf\<close> are the buffers that \<open>new\<close> returns. The result is the response, the printed
  pairs of value and expected value, and the state.\<close>

definition xsim_vector_sanity ::
  "nat \<Rightarrow> hw_map \<Rightarrow> 'd mmio_device \<Rightarrow> 'd fpga_ops \<Rightarrow> 'd dpi_ops \<Rightarrow> u64 \<Rightarrow> u64 \<Rightarrow> bytes \<Rightarrow> 'd
     \<Rightarrow> (u32 list \<times> (16 word \<times> int) list \<times> bytes \<times> 'd) res" where
  "xsim_vector_sanity polls hw dev ops dpi read_buffer wrbuf mem d =
     (let d = snd (fpga_mgmt_init ops d);
          n = 1024;
          buffer_size = 2 * n;
          mem = fill_buffer read_buffer 0 n mem;
          d = deselect_atg_hw dpi (init_ddr dpi d);
          d = snd (do_dma_write dpi read_buffer buffer_size 0x1ff000 0 0 mem d);
          addr1 = [0x1010007b, 0, 0x4001, 0x0, 0x1ff000];
          addr2 = [0x1000007b, 0, 0x4000, 0x0, 0x1fe000];
          start = [0x1200407b, 0, 0x400, 0x0, 0xf]
      in rbind (write_command polls hw dev addr1 d) (\<lambda>d.
         rbind (write_command polls hw dev addr2 d) (\<lambda>d.
         rbind (write_command polls hw dev start d) (\<lambda>d.
         rbind (get_response polls hw dev d) (\<lambda>(dat, d).
         (case do_dma_read dpi wrbuf buffer_size 0x1fe000 0 0 mem d of (rc, mem, d) \<Rightarrow>
            Inr (dat, map (\<lambda>i. (load16 mem wrbuf i, int i + 15)) [0..<n], mem, snd (fpga_mgmt_close ops d))))))))"

section \<open>tests/memcpy.cc and tests/alloc\_test.cc\<close>

text \<open>The bandwidth test: bytes, cycles and gigabytes per second, without the rounding of \<open>double\<close> and without the pause of five seconds. The division by zero cycles, which is not finite, is \<open>None\<close>.\<close>

definition memcpy_test :: "target \<Rightarrow> 'd fpga_ops \<Rightarrow> 'd mmio_device \<Rightarrow> fpga_handles \<Rightarrow> 'd \<Rightarrow> (int \<times> u64 \<times> rat option) res" where
  "memcpy_test tgt ops dev h d =
     rbind (fpga_setup tgt ops 0 h d) (\<lambda>(h, d).
     rbind (poke_mmio tgt dev 0 64 d) (\<lambda>d.
     rbind (peek_mmio tgt dev 0 d) (\<lambda>(q, d).
     (let ntxs = 64;
          n_cycles = ucast q * 32 :: u64;
          n_bytes = ntxs * 64 * 64;
          s = of_nat (unat n_cycles) / (250 * 1000 * 1000) :: rat;
          GB = of_int n_bytes / 1024 / 1024 / 1024
      in Inr (n_bytes, n_cycles, if s = 0 then None else Some (GB / s))))))"

text \<open>The allocator test; \<open>sh1\<close> and \<open>sh2\<close> are the two shuffles, \<open>malloc\<close> and \<open>free\<close> the calls of the client library.\<close>

definition test_sizes :: "u64 list" where
  "test_sizes = map (\<lambda>i. push_bit i 1) [12..<30]"

fun malloc_all :: "(u64 \<Rightarrow> 'x \<Rightarrow> 'p \<times> 'x) \<Rightarrow> u64 list \<Rightarrow> 'p list \<Rightarrow> 'x \<Rightarrow> 'p list \<times> 'x" where
  "malloc_all malloc [] ptrs x = (ptrs, x)"
| "malloc_all malloc (sz # sizes) ptrs x = (let (ptr, x) = malloc sz x in malloc_all malloc sizes (ptrs @ [ptr]) x)"

definition alloc_test ::
  "(u64 \<Rightarrow> 'x \<Rightarrow> 'p \<times> 'x) \<Rightarrow> ('p \<Rightarrow> 'x \<Rightarrow> 'x) \<Rightarrow> (u64 list \<Rightarrow> u64 list) \<Rightarrow> ('p list \<Rightarrow> 'p list) \<Rightarrow> 'x \<Rightarrow> 'x" where
  "alloc_test malloc free sh1 sh2 x =
     (let (ptrs, x) = malloc_all malloc (sh1 test_sizes) [] x in fold free (sh2 ptrs) x)"

section \<open>Register protocol\<close>

definition accesses_succeed :: "'d mmio_device \<Rightarrow> bool" where
  "accesses_succeed dev \<longleftrightarrow> (\<forall>a d. fst (dev_peek dev a d) = 0) \<and> pokes_succeed dev"

lemma F1_access:
  assumes "accesses_succeed dev"
  shows "peek_mmio Target_F1 dev a d = Inr (peek_into dev a v d)" and "poke_mmio Target_F1 dev (ucast a) w d = Inr (poke_at dev a w d)"
  using assms by (auto simp: accesses_succeed_def pokes_succeed_def peek_mmio_def poke_mmio_def peek_into_def poke_at_def split: prod.split)
    (metis fst_conv)+

lemma wait_flag_spin:
  assumes "accesses_succeed dev"
  shows "spin_ready n Target_F1 dev a d = rbind (wait_flag n dev a d) (\<lambda>(ready, d). Inr d)"
  by (induction n arbitrary: d) (simp_all add: F1_access(1) [OF assms, where v = 0] case_prod_beta Let_def)

lemma write_words_beats:
  assumes "accesses_succeed dev"
  shows "write_words n hw dev p i k d = send_beats n Target_F1 hw dev p i k d"
proof (induction k arbitrary: i d)
  case (Suc k)
  show ?case
    by (cases "wait_flag n dev (CMD_READY hw) d")
      (auto simp: send_beat_def wait_flag_spin [OF assms] F1_access(2) [OF assms] rbind_assoc Suc.IH)
qed simp

lemma read_words_poll:
  assumes "accesses_succeed dev"
  shows "read_words n hw dev k d = poll_words k n Target_F1 hw dev d"
proof (induction k arbitrary: d)
  case (Suc k)
  show ?case
  proof (cases "wait_flag n dev (RESP_VALID hw) d")
    case (Inl e)
    then show ?thesis by (simp add: poll_word_def wait_flag_spin [OF assms])
  next
    case (Inr x)
    obtain r d1 where x: "x = (r, d1)" by (cases x)
    show ?thesis
      by (simp add: Inr x poll_word_def wait_flag_spin [OF assms] F1_access(2) [OF assms] F1_access(1) [OF assms, where v = r] rbind_assoc Suc.IH
          case_prod_beta Let_def)
  qed
qed simp

lemma wait_flag_within: "ready_within dev a n d \<Longrightarrow> \<exists>r d'. wait_flag n dev a d = Inr (r, d')"
  by (induction n arbitrary: d) (auto simp: peek_into_def Let_def split: prod.splits)

lemma write_words_ends:
  assumes "polls_bounded dev (CMD_READY hw) n" and "i + k \<le> length p"
  shows "\<exists>d'. write_words n hw dev p i k d = Inr d'"
  using assms(2)
proof (induction k arbitrary: i d)
  case (Suc k)
  obtain r d1 where w: "wait_flag n dev (CMD_READY hw) d = Inr (r, d1)"
    using wait_flag_within [of dev "CMD_READY hw" n d] assms(1) by (auto simp: polls_bounded_def)
  have "nth_res p (int i) = Inr (p ! i)" by (rule nth_res_int) (use Suc.prems in simp)
  with w Suc.IH [of "Suc i"] Suc.prems show ?case by simp
qed simp

lemma read_words_ends:
  assumes "polls_bounded dev (RESP_VALID hw) n"
  shows "\<exists>ws d'. read_words n hw dev k d = Inr (ws, d') \<and> length ws = k"
proof (induction k arbitrary: d)
  case (Suc k)
  obtain r d1 where w: "wait_flag n dev (RESP_VALID hw) d = Inr (r, d1)"
    using wait_flag_within [of dev "RESP_VALID hw" n d] assms(1) by (auto simp: polls_bounded_def)
  let ?d = "poke_at dev (RESP_READY hw) 1 (snd (peek_into dev (RESP_BITS hw) r d1))"
  from Suc.IH [of ?d] obtain ws d' where "read_words n hw dev k ?d = Inr (ws, d')" "length ws = k" by blast
  with w show ?case by (simp add: case_prod_beta Let_def)
qed simp

section \<open>Memory of the vector test\<close>

definition bytes16 :: "16 word \<Rightarrow> u8 list" where
  "bytes16 w = [ucast w, ucast (drop_bit 8 w)]"

lemma bytes16_join: "ucast (ucast w :: u8) + 0x100 * ucast (ucast (drop_bit 8 w) :: u8) = (w :: 16 word)"
proof -
  have "ucast (ucast w :: u8) + push_bit 8 (ucast (ucast (drop_bit 8 w) :: u8)) = (w :: 16 word)"
  proof (rule bit_word_eqI)
    fix n assume "n < LENGTH(16)"
    show "bit (ucast (ucast w :: u8) + push_bit 8 (ucast (ucast (drop_bit 8 w) :: u8)) :: 16 word) n = bit w n"
      using \<open>n < LENGTH(16)\<close> by (subst disjunctive_add) (auto simp: bit_simps)
  qed
  then show ?thesis by (simp add: push_bit_eq_mult mult.commute)
qed

lemma concat_bytes16:
  "k < length ws \<Longrightarrow> concat (map bytes16 ws) ! (2 * k) = ucast (ws ! k) \<and> concat (map bytes16 ws) ! (2 * k + 1) = ucast (drop_bit 8 (ws ! k))"
proof (induction ws arbitrary: k)
  case (Cons w ws)
  then show ?case by (cases k) (auto simp: bytes16_def)
qed simp

lemma length_concat_bytes16: "length (concat (map bytes16 ws)) = 2 * length ws"
  by (induction ws) (simp_all add: bytes16_def)

lemma fill_buffer_write:
  assumes "n < 2 ^ 32"
  shows "fill_buffer buf i n mem = mem_write mem (buf + 2 * of_nat i) (concat (map (\<lambda>k. bytes16 (of_nat k)) [i..<i + n]))"
  using assms
proof (induction n arbitrary: i mem)
  case (Suc n)
  let ?xs = "bytes16 (of_nat i)" and ?ys = "concat (map (\<lambda>k. bytes16 (of_nat k)) [Suc i..<Suc i + n])"
  have len: "length ?ys = 2 * n" using length_concat_bytes16 [of "map of_nat [Suc i..<Suc i + n]"] by (simp add: o_def del: upt_Suc)
  have a: "buf + 2 * of_nat (Suc i) = buf + 2 * of_nat i + of_nat (length ?xs)" by (simp add: bytes16_def algebra_simps)
  have "fill_buffer buf i (Suc n) mem = mem_write (mem_write mem (buf + 2 * of_nat i) ?xs) (buf + 2 * of_nat i + of_nat (length ?xs)) ?ys"
    unfolding a [symmetric] using Suc.IH [of "Suc i"] Suc.prems by (simp add: store16_def bytes16_def)
  also have "\<dots> = mem_write mem (buf + 2 * of_nat i) (?xs @ ?ys)"
    by (rule mem_write_append) (use Suc.prems len in \<open>simp_all add: bytes16_def\<close>)
  finally show ?case by (simp add: upt_conv_Cons del: upt_Suc)
qed simp

lemma fill_buffer_values:
  assumes "n < 2 ^ 32" and "k < n"
  shows "load16 (fill_buffer buf 0 n mem) buf k = of_nat k"
proof -
  let ?bs = "concat (map bytes16 (map of_nat [0..<n]))"
  have f: "fill_buffer buf 0 n mem = mem_write mem buf ?bs" using fill_buffer_write [OF assms(1), of buf 0 mem] by (simp add: o_def)
  have l: "length ?bs = 2 * n" unfolding length_concat_bytes16 by simp
  have "mem_write mem buf ?bs (buf + of_nat (2 * k)) = ?bs ! (2 * k)" "mem_write mem buf ?bs (buf + of_nat (2 * k + 1)) = ?bs ! (2 * k + 1)"
    by (rule mem_write_in; use assms l in simp)+
  moreover have "?bs ! (2 * k) = ucast (of_nat k :: 16 word)" "?bs ! (2 * k + 1) = ucast (drop_bit 8 (of_nat k :: 16 word))"
    using concat_bytes16 [of k "map of_nat [0..<n]"] assms(2) by simp_all
  moreover have "buf + of_nat (2 * k) = buf + 2 * of_nat k" "buf + of_nat (2 * k + 1) = buf + 2 * of_nat k + 1" by (simp_all add: algebra_simps)
  ultimately have "mem_write mem buf ?bs (buf + 2 * of_nat k) = ucast (of_nat k :: 16 word)"
    "mem_write mem buf ?bs (buf + 2 * of_nat k + 1) = ucast (drop_bit 8 (of_nat k :: 16 word))" by metis+
  then show ?thesis unfolding load16_def f by (simp only: bytes16_join)
qed

text \<open>The callback copies the data behind the first eight bytes; before \<open>setup_send_rdbuf_to_c\<close> has been called, as in this test, nothing.\<close>

lemma rdbuf_loop_other: "\<forall>k < n. x \<noteq> dst + of_nat (i + k) \<Longrightarrow> rdbuf_loop dst rd i n mem x = mem x"
proof (induction n arbitrary: i mem)
  case (Suc n)
  have "x \<noteq> dst + of_nat (i + 0)" using Suc.prems by blast
  moreover have "\<forall>k < n. x \<noteq> dst + of_nat (Suc i + k)" using Suc.prems by (metis Suc_less_eq add_Suc_shift)
  ultimately show ?case using Suc.IH [of "Suc i"] by (simp only: rdbuf_loop.simps fun_upd_apply add_0_right if_False)
qed simp

lemma rdbuf_loop_copy:
  assumes "\<forall>k < n. \<forall>j < n. dst + of_nat (i + k) \<noteq> rd + of_nat (i + j + 8)" and "n \<le> 2 ^ 64" and "k < n"
  shows "rdbuf_loop dst rd i n mem (dst + of_nat (i + k)) = mem (rd + of_nat (i + k + 8))"
  using assms
proof (induction n arbitrary: i k mem)
  case (Suc n)
  let ?m = "mem(dst + of_nat i := mem (rd + of_nat (i + 8)))"
  show ?case
  proof (cases k)
    case 0
    have "dst + of_nat i \<noteq> dst + of_nat (Suc i + j)" if "j < n" for j
    proof
      assume "dst + of_nat i = dst + of_nat (Suc i + j)"
      then have "of_nat (Suc j) = (0 :: u64)" by (simp add: algebra_simps)
      moreover have "Suc j < 2 ^ 64" using that Suc.prems(2) by simp
      ultimately show False by (simp add: word_of_nat_eq_0_iff nat_dvd_not_less del: of_nat_Suc)
    qed
    then have "rdbuf_loop dst rd (Suc i) n ?m (dst + of_nat i) = ?m (dst + of_nat i)" by (intro rdbuf_loop_other) blast
    with 0 show ?thesis by simp
  next
    case (Suc j)
    have j: "j < n" using Suc Suc.prems by simp
    have "\<forall>k < n. \<forall>j < n. dst + of_nat (Suc i + k) \<noteq> rd + of_nat (Suc i + j + 8)"
      using Suc.prems(1) by (metis Suc_less_eq add_Suc add_Suc_right)
    then have "rdbuf_loop dst rd (Suc i) n ?m (dst + of_nat (Suc i + j)) = ?m (rd + of_nat (Suc i + j + 8))"
      using Suc.IH [of "Suc i" j ?m] Suc.prems(2) j by (meson Suc_leD)
    moreover have "dst + of_nat (i + 0) \<noteq> rd + of_nat (i + Suc j + 8)" using Suc.prems(1) j by blast
    ultimately show ?thesis using \<open>k = Suc j\<close> by (simp only: rdbuf_loop.simps fun_upd_apply add_0_right add_Suc add_Suc_right if_False) metis
  qed
qed simp

lemma send_rdbuf_copies:
  assumes "\<forall>k < n. \<forall>j < n. dst + of_nat k \<noteq> rd + of_nat (j + 8)" and "n < 2 ^ 31"
  shows "mem_read (snd (send_rdbuf_to_c rd (setup_send_rdbuf_to_c dst n no_rdbuf) mem)) dst n = mem_read mem (rd + 8) n"
  by (rule nth_equalityI)
    (use rdbuf_loop_copy [of n dst 0 rd] assms in \<open>simp_all add: send_rdbuf_to_c_def setup_send_rdbuf_to_c_def algebra_simps\<close>)

lemma send_rdbuf_without_setup: "send_rdbuf_to_c rd no_rdbuf mem = (0, mem)"
  by (simp add: send_rdbuf_to_c_def no_rdbuf_def)

section \<open>The allocator test\<close>

text \<open>A client library that records what it is asked.\<close>

definition logged_malloc :: "(u64 \<Rightarrow> 'x \<Rightarrow> 'p \<times> 'x) \<Rightarrow> u64 \<Rightarrow> 'x \<times> (u64 \<times> 'p) list \<times> 'p list \<Rightarrow> 'p \<times> 'x \<times> (u64 \<times> 'p) list \<times> 'p list" where
  "logged_malloc malloc sz = (\<lambda>(x, given, freed). case malloc sz x of (p, x) \<Rightarrow> (p, x, given @ [(sz, p)], freed))"

definition logged_free :: "('p \<Rightarrow> 'x \<Rightarrow> 'x) \<Rightarrow> 'p \<Rightarrow> 'x \<times> (u64 \<times> 'p) list \<times> 'p list \<Rightarrow> 'x \<times> (u64 \<times> 'p) list \<times> 'p list" where
  "logged_free free p = (\<lambda>(x, given, freed). (free p x, given, freed @ [p]))"

lemma malloc_all_logged:
  "\<exists>x' ps. malloc_all (logged_malloc malloc) szs ptrs (x, given, freed) = (ptrs @ ps, x', given @ zip szs ps, freed) \<and> length ps = length szs"
proof (induction szs arbitrary: ptrs x given)
  case (Cons sz szs)
  obtain p x1 where m: "malloc sz x = (p, x1)" by fastforce
  from Cons.IH [of "ptrs @ [p]" x1 "given @ [(sz, p)]"] obtain x' ps where
    "malloc_all (logged_malloc malloc) szs (ptrs @ [p]) (x1, given @ [(sz, p)], freed) = ((ptrs @ [p]) @ ps, x', (given @ [(sz, p)]) @ zip szs ps, freed)"
    "length ps = length szs" by blast
  moreover have "logged_malloc malloc sz (x, given, freed) = (p, x1, given @ [(sz, p)], freed)" by (simp add: logged_malloc_def m)
  ultimately show ?case by (intro exI [of _ x'] exI [of _ "p # ps"]) simp
qed simp

lemma free_all_logged: "\<exists>x'. fold (logged_free free) ps (x, given, freed) = (x', given, freed @ ps)"
proof (induction ps arbitrary: x freed)
  case (Cons p ps)
  from Cons.IH [of "free p x" "freed @ [p]"] show ?case by (simp add: logged_free_def)
qed simp

text \<open>The test asks for every power of two from 4 KB to 512 MB once and gives back exactly what it got.\<close>

theorem alloc_test_balanced:
  assumes "\<And>xs. mset (sh1 xs) = mset xs" and "\<And>xs. mset (sh2 xs) = mset xs"
  shows "case alloc_test (logged_malloc malloc) (logged_free free) sh1 sh2 (x, [], []) of
    (x', given, freed) \<Rightarrow> mset (map fst given) = mset (map (\<lambda>i. 2 ^ i) [12..<30]) \<and> mset freed = mset (map snd given)"
proof -
  from malloc_all_logged [of malloc "sh1 test_sizes" "[]" x "[]" "[]"] obtain x' ps where
    m: "malloc_all (logged_malloc malloc) (sh1 test_sizes) [] (x, [], []) = (ps, x', zip (sh1 test_sizes) ps, [])"
    "length ps = length (sh1 test_sizes)" by auto
  from free_all_logged [of free "sh2 ps" x' "zip (sh1 test_sizes) ps" "[]"] obtain x'' where
    f: "fold (logged_free free) (sh2 ps) (x', zip (sh1 test_sizes) ps, []) = (x'', zip (sh1 test_sizes) ps, sh2 ps)" by auto
  have "test_sizes = map (\<lambda>i. 2 ^ i) [12..<30]" unfolding test_sizes_def push_bit_eq_mult by simp
  moreover have "mset (map fst (zip (sh1 test_sizes) ps)) = mset test_sizes"
    "mset (map snd (zip (sh1 test_sizes) ps)) = mset (sh2 ps)" using m(2) assms by (simp_all add: map_fst_zip map_snd_zip del: mset_map)
  ultimately show ?thesis by (simp only: alloc_test_def m f Let_def prod.case)
qed

section \<open>Properties\<close>

text \<open>C33: the test benches speak the register protocol of the runtime. On a board where no access fails, \<open>write_command\<close> makes the same accesses
  in the same order as the delivery loop of the command server for five words, and \<open>get_response\<close> those of the response poller,
  with the same result for every device and every number of polls. The runtime stops at an access that fails, the test benches go on.\<close>

theorem test_bench_agrees:
  assumes "accesses_succeed dev"
  shows "write_command n hw dev p d = send_beats n Target_F1 hw dev p 0 5 d \<and> get_response n hw dev d = poll_response n Target_F1 hw dev d"
  by (simp add: write_command_def get_response_def poll_response_def write_words_beats [OF assms] read_words_poll [OF assms])

theorem test_bench_agrees_witness:
  "\<exists>d'. get_response 2 demo_hw demo_device (False, [7, 8, 9, 10]) = Inr ([7, 8, 9], d')"
proof -
  have "accesses_succeed demo_device"
    using demo_device_pokes by (auto simp: accesses_succeed_def demo_device_def)
  with test_bench_agrees [of demo_device 2 demo_hw "[]" "(False, [7, 8, 9, 10])"]
    poll_words_pend [of Target_F1 demo_device demo_hw 2 snd 3 "(False, [7, 8, 9, 10])"] demo_device_responses
  show ?thesis by (auto simp: poll_response_def)
qed

text \<open>The vector test comes to its end on every board whose flags rise within the bound, whatever the simulator does with the memory; it compares
  the 1024 values of the result buffer with fifteen more than the values it stored.\<close>

theorem vector_test_ends:
  assumes "polls_bounded dev (CMD_READY hw) n" and "polls_bounded dev (RESP_VALID hw) n"
  shows "\<exists>dat out mem' d'. xsim_vector_sanity n hw dev ops dpi rb wb mem d = Inr (dat, out, mem', d') \<and> length dat = 3
    \<and> out = map (\<lambda>i. (load16 mem' wb i, int (unat (load16 (fill_buffer rb 0 1024 mem) rb i)) + 15)) [0..<1024]"
proof -
  have w: "\<exists>d'. write_command n hw dev p d = Inr d'" if "length p = 5" for p d
    unfolding write_command_def by (rule write_words_ends [OF assms(1)]) (simp add: that)
  let ?m = "fill_buffer rb 0 1024 mem" and ?d0 = "deselect_atg_hw dpi (init_ddr dpi (snd (fpga_mgmt_init ops d)))"
  let ?d = "snd (do_dma_write dpi rb 2048 0x1ff000 0 0 ?m ?d0)"
  obtain d1 where 1: "write_command n hw dev [0x1010007b, 0, 0x4001, 0x0, 0x1ff000] ?d = Inr d1" using w by force
  obtain d2 where 2: "write_command n hw dev [0x1000007b, 0, 0x4000, 0x0, 0x1fe000] d1 = Inr d2" using w by force
  obtain d3 where 3: "write_command n hw dev [0x1200407b, 0, 0x400, 0x0, 0xf] d2 = Inr d3" using w by force
  obtain dat d4 where 4: "get_response n hw dev d3 = Inr (dat, d4)" "length dat = 3"
    using read_words_ends [OF assms(2)] unfolding get_response_def by blast
  obtain rc mem' d5 where 5: "do_dma_read dpi wb 2048 0x1fe000 0 0 ?m d4 = (rc, mem', d5)" by (metis prod.exhaust)
  have "load16 ?m rb i = of_nat i" if "i < 1024" for i by (rule fill_buffer_values) (use that in simp_all)
  then have "unat (load16 ?m rb i) = i" if "i < 1024" for i using that by (simp add: unat_of_nat)
  then have "map (\<lambda>i. (load16 mem' wb i, int i + 15)) [0..<1024] =
      map (\<lambda>i. (load16 mem' wb i, int (unat (load16 ?m rb i)) + 15)) [0..<1024]" by (intro map_cong refl) (simp only: atLeastLessThan_upt [symmetric] atLeastLessThan_iff)
  then show ?thesis using 4(2) by (simp add: xsim_vector_sanity_def Let_def 1 2 3 4(1) 5 del: upt_rec_numeral)
qed

text \<open>The bandwidth of the copy test: bytes over seconds at 250 MHz, in units of \<open>2 ^ 30\<close> bytes.\<close>

theorem memcpy_rate:
  assumes "memcpy_test tgt ops dev h d = Inr (n_bytes, n_cycles, Some r)"
  shows "r * 2 ^ 30 * of_nat (unat n_cycles) = of_int n_bytes * (250 * 10 ^ 6)"
proof -
  have "of_nat (unat n_cycles) \<noteq> (0 :: rat)" and "r = of_int n_bytes / 1024 / 1024 / 1024 / (of_nat (unat n_cycles) / (250 * 1000 * 1000))"
    using assms by (auto simp: memcpy_test_def Let_def res_simps split: if_splits)
  then show ?thesis by (simp add: field_simps)
qed

end
