(* ===== verification/Spec2Isabelle.thy ===== *)
theory Spec2Isabelle
  imports Runtime_Prelude Address_Translator Mmio_Backend Cmd_Server Data_Server
    Axi_Frontend Mem_Ctrl Mem_Tick Dma_Engine Chipkit_Uart Chipkit_Loader Signal_Wrappers Sim_Frontend Fpga_Main
    Sim_System Mem_System Mem_Writes Mem_Channels Axi_Channels Verilator_Wiring Chipkit_Sim Vcs_Chipkit Board_Tests
begin

text \<open>
  Verification of the Beethoven runtime, the program that stands between client processes and an accelerator generated
  by Beethoven, on an FPGA board or in a simulation.

  \<^bold>\<open>The program.\<close> Two server threads share memory with the clients. The command server (src/cmd_server.cc) takes one command
  at a time, gives it a slot for its response and delivers it: through memory-mapped registers on a board (src/mmio.cc), through
  the queue \<open>cmds\<close> in a simulation. The data server (src/data_server.cc) allocates, frees and moves client memory and keeps the
  address translator, the table from accelerator addresses to host addresses. Responses come back through the poller thread
  (src/response_poller.cc) on a board, through the state machines of the control bus (include/sim/axi/state_machine.h) in a
  simulation, and are matched with their commands by \<open>register_reponse\<close>. A simulation also plays the memory of the accelerator:
  every clock, \<open>tick_signals\<close> (src/sim/tick.cc) serves the AXI memory ports, the memory controller (src/sim/mem_ctrl.cc)
  hands the traffic to a DRAM model and answers when that completes, and the DMA engine moves the blocks that the data server posts.
  The simulations of ChipKit designs talk to the design over a serial port instead (include/sim/chipkit, src/sim/chipkit).
  The frontends (src/sim/axi, src/sim/chipkit) connect all this to the ports of the design and own its clock.

  \<^bold>\<open>Theories.\<close>
    \<^item> \<open>Runtime_Prelude\<close>: machine integers, the errors \<open>error\<close> and the result type \<open>'a res\<close> with \<open>rbind\<close>, mutexes,
      byte-addressed memory, checked indexing, and two interfaces: \<open>step_machine\<close> (an invariant kept by a step is kept by runs)
      and \<open>keyed_fifo\<close> (a table of queues is first in, first out per key).
    \<^item> \<open>Address_Translator\<close>: \<open>struct address_translator\<close>, an ordered \<open>std::set\<close> of mappings as a sorted list. Its contract is the locale
      \<open>address_space\<close>, extended by \<open>address_table\<close>, interpreted on the operations of the code; the table refines a partial
      map, and inserting and removing are inverse.
    \<^item> \<open>Mmio_Backend\<close>: register access, delivery of a command word by word, one round of the poller. Its targets are the builds that the build files
      select; a build with \<open>VSIM\<close> is one for F1 or F2 with the simulation library of the vendor and has the same delivery.
    \<^item> \<open>Cmd_Server\<close>: \<open>cmd_server_f\<close> turn by turn, \<open>register_reponse\<close>, the free list of response slots. \<open>in_flight\<close> is
      an interpretation of \<open>keyed_fifo\<close>; every response is stored in the slot of its command, in order for each core, and no slot is used twice.
    \<^item> \<open>Data_Server\<close>: \<open>data_server_f\<close> turn by turn with every operation and target; the table stays well-formed and backed by an allocator
      that keeps its contract (\<open>allocator_contract\<close>), memory is cleared and mapped, transfers of whole 64-byte beats tile the requested range.
    \<^item> \<open>Axi_Frontend\<close>: the three state machines of the control bus; who owns the bus is an invariant (an interpretation of
      \<open>step_machine\<close>), words of commands and responses are transferred in order and completely.
    \<^item> \<open>Mem_Ctrl\<close>, \<open>Mem_Tick\<close>: transactions, DRAM requests and completions; the memory half of \<open>tick_signals\<close>. A
      \<open>shared_ptr\<close> is an index into \<open>tx_heap\<close>, because a transaction is reached from several queues. The tables of requests
      in flight are interpretations of \<open>keyed_fifo\<close>. The beats of a read return in order whatever the order of the completions, queues are bounded.
    \<^item> \<open>Dma_Engine\<close>: the DMA part of \<open>tick_signals\<close>, and its composition with the loop of the data server.
    \<^item> \<open>Chipkit_Uart\<close>, \<open>Chipkit_Loader\<close>: the serial port tick by tick against the waveform of a frame; the reader of memory files
      against a printer; the loading loop.
    \<^item> \<open>Signal_Wrappers\<close>, \<open>Axi_Channels\<close>: access to the signals of the design; the channels made of them share the contract
      \<open>signal_bundle\<close>, interpreted for address, data and response channels.
    \<^item> \<open>Sim_Frontend\<close>, \<open>Verilator_Wiring\<close>, \<open>Fpga_Main\<close>: binding of the ports in the VPI builds, their wiring and the clock in the
      Verilator builds, command lines, start and end of the FPGA builds.
    \<^item> \<open>Vcs_Chipkit\<close>: port cache, status line and whole sessions of the VCS ChipKit frontend; a session succeeds exactly when the
      ports it needs are there and the files it reads can be read; as the build never names a program file, its sessions stop at the first tick.
    \<^item> \<open>Board_Tests\<close>: the programs of src/deprecated and tests/. On a board where no access fails the test benches make the register accesses of
      the command server and the poller; the allocator test frees what it allocates.

  \<^bold>\<open>Compositions.\<close> Five theories put components together and follow them over whole executions.
    \<^item> \<open>Sim_System\<close>: clients, command server and control bus as one transition system whose steps are the turns of the server thread and the ticks of
      the bus, in any order. Commands are written in the order of submission, the queue drains, and what the bus does with the
      server is a run of the server alone.
    \<^item> \<open>Mem_System\<close>: cycles of a memory channel, DRAM requests and DRAM completions in any order. Every full-width read accepted on the address
      channel gets exactly its beats on the data channel, while reads with one identifier can be answered out of order.
    \<^item> \<open>Mem_Writes\<close>: the same executions seen from the write side. Every accepted write is answered once and not before its last beat, and the
      host memory is the original one with the strobed lanes of the beats stored in order, where the code puts them; for full-width aligned writes that is
      where AXI wants them.
    \<^item> \<open>Mem_Channels\<close>: all memory channels of a design, which share the clock cycle and the host memory. Each goes through an execution
      of a channel on its own, in which the others appear as changes of the memory from outside, so that the theorems on reads and
      writes hold for every channel.
    \<^item> \<open>Chipkit_Sim\<close>: \<open>run_verilator\<close> of the ChipKit simulator, from reset through loading to the end of the run, and the \<open>main\<close> that calls it without a program file, with the serial ports at the pins
      of the design.

  \<^bold>\<open>Conventions.\<close> Definitions have the names of the code where they can. A struct is a \<open>record\<close>, an enumeration a \<open>datatype\<close>; an
  operation maps a state to \<open>'a res\<close>, and every \<open>exit\<close>, \<open>throw\<close>, failed assertion, null pointer, index out of range, division by
  zero and blocked mutex is a value of \<open>error\<close>. The \<open>int\<close>s of the code that count beats, slots and indices are unbounded: their
  values are bounded by the sizes of bursts and queues. Addresses and payloads are words and wrap. Critical sections are atomic, so that an
  interleaving of threads is a sequence of operations; a mutex that an operation finds locked was left locked by a thread that is gone.

  \<^bold>\<open>Bounds.\<close> Loops that end are recursive functions with a measure (the DMA loop over the remaining bytes, the reader
  over the characters left). Loops that wait for a device or a design take the number of attempts: \<open>spin_ready\<close> and the poller fail
  with \<open>Diverges\<close> when it is used up, and the properties show that they do not on a device that answers within the bound. \<open>emit_beats\<close> takes one
  turn more than the vector of retrieved beats is long, and its index grows with every turn. \<open>load_loop\<close> is bounded by the ticks of the bytes to send, and \<open>load_file_ends\<close> shows that
  many to suffice; the loops of \<open>Chipkit_Sim\<close> that wait for the serial port have the same bound, and \<open>uart_rank\<close> falls with every
  tick. The outer loops of the servers and frontends are sequences of turns given by the list of their inputs.

  \<^bold>\<open>Parameters.\<close> Code outside the repository is an argument: the packing of commands (\<open>rocc_ops\<close>), the allocator, the system
  calls, the register device, the DMA driver, what the DRAM model accepts and when it completes, the VPI, the generated class of the design, the
  management library of the board. Where a property relies on such code, the reliance is a named predicate
  (\<open>polls_bounded\<close>, \<open>pokes_succeed\<close>, \<open>xdma_stores\<close>, \<open>vpi_ok\<close>, \<open>pack_ok\<close>, \<open>allocator_contract\<close>), and its witness has an instance.

  \<^bold>\<open>Not modelled.\<close> Console and log output, but for the status line of the VCS ChipKit frontend (the \<open>print_state\<close> of the AXI frontends
  returns at once), and the statistics of the DRAM model; the creation of the shared memory files, of the threads and of the waveform files; the DMA
  objects of the ChipKit frontend, which use a class that no longer exists; the FPGA variant of xsim_vector_sanity.cc, which calls functions it does
  not define; the translation of addresses under \<open>BAREMETAL_RUNTIME\<close>; the two kill programs, which are one call of the client library; headers
  that only declare, macros that paste port names, and the trace reader, which has no implementation.
\<close>

end
